(* ===== verification/Xv6_Prelude.thy ===== *)
theory Xv6_Prelude
  imports Main "HOL-Library.Word"
begin

text \<open>
  The shared base of the development: the machine integer types of the i386 kernel
  (\<^verbatim>\<open>types.h\<close>), the constants of \<^verbatim>\<open>param.h\<close>, the ways in which kernel code can stop
  instead of returning, sequencing of code that may stop, and generic lemmas on lists and words
  that several components use.
\<close>

type_synonym u8 = "8 word"
type_synonym u16 = "16 word"
type_synonym u32 = "32 word"

section \<open>Constants of param.h\<close>

definition NPROC :: nat where "NPROC = 64"

definition KSTACKSIZE :: nat where "KSTACKSIZE = 4096"

definition NCPU :: nat where "NCPU = 8"

definition NOFILE :: nat where "NOFILE = 16"

definition NFILE :: nat where "NFILE = 100"

definition NINODE :: nat where "NINODE = 50"

definition NDEV :: nat where "NDEV = 10"

definition ROOTDEV :: u32 where "ROOTDEV = 1"

definition MAXARG :: nat where "MAXARG = 32"

definition MAXOPBLOCKS :: nat where "MAXOPBLOCKS = 10"

definition LOGSIZE :: nat where "LOGSIZE = MAXOPBLOCKS * 3"

definition NBUF :: nat where "NBUF = MAXOPBLOCKS * 3"

definition FSSIZE :: nat where "FSSIZE = 1000"

lemmas param_defs =
  NPROC_def KSTACKSIZE_def NCPU_def NOFILE_def NFILE_def NINODE_def NDEV_def ROOTDEV_def
  MAXARG_def MAXOPBLOCKS_def LOGSIZE_def NBUF_def FSSIZE_def

section \<open>Lists scanned by index\<close>

text \<open>
  The kernel's tables are arrays scanned by a pointer that runs over the entries in order.
  \<open>first_idx P xs i\<close> is the index of the first entry that satisfies \<open>P\<close>, where \<open>i\<close> is the
  index of the head of \<open>xs\<close> in the array.
\<close>

fun first_idx :: "('a \<Rightarrow> bool) \<Rightarrow> 'a list \<Rightarrow> nat \<Rightarrow> nat option" where
  "first_idx P [] i = None"
| "first_idx P (x # xs) i = (if P x then Some i else first_idx P xs (Suc i))"

lemma first_idx_None: "first_idx P xs i = None \<longleftrightarrow> (\<forall>x \<in> set xs. \<not> P x)"
  by (induction xs arbitrary: i) auto

lemma first_idx_Some:
  "first_idx P xs i = Some j \<longleftrightarrow>
     i \<le> j \<and> j < i + length xs \<and> P (xs ! (j - i)) \<and> (\<forall>k. i \<le> k \<and> k < j \<longrightarrow> \<not> P (xs ! (k - i)))"
proof (induction xs arbitrary: i)
  case Nil
  then show ?case by auto
next
  case (Cons x xs)
  show ?case
  proof (cases "P x")
    case True
    then show ?thesis by (force simp: nth_Cons')
  next
    case False
    have "first_idx P (x # xs) i = Some j \<longleftrightarrow>
        Suc i \<le> j \<and> j < Suc i + length xs \<and> P (xs ! (j - Suc i)) \<and>
        (\<forall>k. Suc i \<le> k \<and> k < j \<longrightarrow> \<not> P (xs ! (k - Suc i)))"
      using False Cons.IH [of "Suc i"] by simp
    also have "\<dots> \<longleftrightarrow> i \<le> j \<and> j < i + length (x # xs) \<and> P ((x # xs) ! (j - i)) \<and>
        (\<forall>k. i \<le> k \<and> k < j \<longrightarrow> \<not> P ((x # xs) ! (k - i)))"
      using False by (auto simp: nth_Cons' Suc_le_eq not_less dest: le_neq_implies_less)
    finally show ?thesis .
  qed
qed

lemma first_idx_0_Some:
  "first_idx P xs 0 = Some j \<longleftrightarrow> j < length xs \<and> P (xs ! j) \<and> (\<forall>k < j. \<not> P (xs ! k))"
  by (auto simp: first_idx_Some)

lemma first_idx_0_SomeD:
  assumes "first_idx P xs 0 = Some j"
  shows "j < length xs" and "P (xs ! j)" and "\<And>k. k < j \<Longrightarrow> \<not> P (xs ! k)"
  using assms by (auto simp: first_idx_0_Some)

section \<open>32-bit words\<close>

lemma sint_u32: "sint (w::u32) = (if unat w < 2 ^ 31 then int (unat w) else int (unat w) - 2 ^ 32)"
proof -
  have u: "uint w = int (unat w)" by simp
  have lt: "unat w < 2 ^ 32" using unsigned_less [of w, where ?'a = nat] by simp
  have "sint w = (uint w + 2 ^ 31) mod 2 ^ 32 - 2 ^ 31"
    using int_word_sint [where 'a = 32, of "uint w"] by simp
  with u have s: "sint w = int ((unat w + 2 ^ 31) mod 2 ^ 32) - 2 ^ 31"
    by (simp add: zmod_int)
  show ?thesis
  proof (cases "unat w < 2 ^ 31")
    case True
    then have "(unat w + 2 ^ 31) mod 2 ^ 32 = unat w + 2 ^ 31" by simp
    with s True show ?thesis by simp
  next
    case False
    with lt have "(unat w + 2 ^ 31) mod 2 ^ 32 = unat w - 2 ^ 31"
      by (simp add: mod_if)
    with s False show ?thesis by (simp add: of_nat_diff)
  qed
qed

lemma sint_u32_pos: "unat (w::u32) < 2147483648 \<Longrightarrow> sint w = int (unat w)"
  by (simp add: sint_u32)

lemma sint_u32_pos_iff: "0 < sint (w::u32) \<longleftrightarrow> 0 < unat w \<and> unat w < 2147483648"
  using unsigned_less [of w, where ?'a = nat] by (auto simp: sint_u32 simp del: of_nat_unat)

lemma unat_add_u32: "unat a + unat b < 4294967296 \<Longrightarrow> unat (a + b :: u32) = unat a + unat b"
  by (simp add: unat_word_ariths)
lemma unat_diff_u32: "unat b \<le> unat a \<Longrightarrow> unat (a - b :: u32) = unat a - unat b"
  by (simp add: unat_sub word_le_nat_alt)

section \<open>Objects named by address\<close>

text \<open>
  The kernel identifies locks and sleep channels by the address of an object. The objects are
  distinct static variables, table entries or allocated pages, so the model names them: a
  sleep lock lives in a buffer or an in-memory inode, a pipe in the page with the given address.
  \<open>ChNull\<close> is the null pointer.
\<close>

datatype slid = SlBuf nat | SlInode nat

datatype lockid =
    LkPtable | LkTicks | LkKmem | LkBcache | LkIcache | LkFtable | LkLog | LkIde | LkCons
  | LkPipe u32 | LkSleep slid

datatype chan =
    ChNull | ChProc nat | ChTicks | ChLog | ChBuf nat | ChSleep slid
  | ChPipeR u32 | ChPipeW u32 | ChInput

section \<open>Code that may stop\<close>

text \<open>
  Kernel code ends in one of several ways other than returning: it calls \<^verbatim>\<open>panic\<close>; it spins
  on a lock that is held; it sleeps on a channel, so that it continues only after another
  process has run; it follows a null pointer or an index outside an array (\<open>Wild\<close>), where
  C gives no meaning; or a loop counter wraps around, so that the loop does not end (\<open>Loops\<close>). An operation maps the state to such a stop or to its result and the new
  state.
\<close>

datatype stop = Panic string | Spins lockid | Sleeps chan | Wild | Loops

type_synonym ('s, 'a) op = "'s \<Rightarrow> stop + 'a \<times> 's"

definition retM :: "'a \<Rightarrow> ('s, 'a) op" where
  "retM a s = Inr (a, s)"

definition failM :: "stop \<Rightarrow> ('s, 'a) op" where
  "failM e s = Inl e"

definition bindM :: "('s, 'a) op \<Rightarrow> ('a \<Rightarrow> ('s, 'b) op) \<Rightarrow> ('s, 'b) op" where
  "bindM m f s = (case m s of Inl e \<Rightarrow> Inl e | Inr (a, t) \<Rightarrow> f a t)"

definition getM :: "('s \<Rightarrow> 'a) \<Rightarrow> ('s, 'a) op" where
  "getM f s = Inr (f s, s)"

definition modM :: "('s \<Rightarrow> 's) \<Rightarrow> ('s, unit) op" where
  "modM f s = Inr ((), f s)"

text \<open>\<open>theM e x\<close> reads an optional value, a pointer that may be null.\<close>

definition theM :: "stop \<Rightarrow> 'a option \<Rightarrow> ('s, 'a) op" where
  "theM e x s = (case x of None \<Rightarrow> Inl e | Some a \<Rightarrow> Inr (a, s))"

definition assertM :: "bool \<Rightarrow> stop \<Rightarrow> ('s, unit) op" where
  "assertM b e s = (if b then Inr ((), s) else Inl e)"

lemmas op_defs = retM_def failM_def bindM_def getM_def modM_def theM_def assertM_def

named_theorems run_simps \<open>one step of an operation on a state\<close>

lemma run_retM [run_simps]: "retM a s = Inr (a, s)"
  by (simp add: retM_def)

lemma run_failM [run_simps]: "failM e s = Inl e"
  by (simp add: failM_def)

lemma run_getM [run_simps]: "getM f s = Inr (f s, s)"
  by (simp add: getM_def)

lemma run_modM [run_simps]: "modM f s = Inr ((), f s)"
  by (simp add: modM_def)

lemma run_bindM_Inr: "m s = Inr (a, t) \<Longrightarrow> bindM m f s = f a t"
  by (simp add: bindM_def)

lemma run_bindM_Inl: "m s = Inl e \<Longrightarrow> bindM m f s = Inl e"
  by (simp add: bindM_def)

lemma bindM_InrE:
  assumes "bindM m f s = Inr (b, u)"
  obtains a t where "m s = Inr (a, t)" and "f a t = Inr (b, u)"
  using assms by (auto simp: bindM_def split: sum.splits)

lemma bindM_retM [simp]: "bindM (retM a) f = f a"
  by (rule ext) (simp add: bindM_def retM_def)

lemma bindM_assoc: "bindM (bindM m f) g = bindM m (\<lambda>a. bindM (f a) g)"
  by (rule ext) (auto simp: bindM_def split: sum.splits)

end
