(* ===== verification/Xv6_Types.thy ===== *)
theory Xv6_Types
  imports Xv6_Prelude
begin

text \<open>
  The data of the kernel: the structures of the header files and the global variables of the
  source files, as records. Flags that the code only sets to 0 or 1 and tests against 0 are
  \<open>bool\<close>; a pointer into a table is the index of the entry (\<open>None\<close> for null); an allocated page
  is named by its address. Every C \<^verbatim>\<open>int\<close> and \<^verbatim>\<open>uint\<close> field whose value matters is a 32-bit
  word, read as signed with \<open>sint\<close> where the source type is signed.
\<close>

section \<open>Spin locks and CPUs\<close>

text \<open>The call-stack trace \<^verbatim>\<open>pcs\<close> that debugging code stores in a lock is left out.\<close>

record spinlock =
  lk_locked :: u32
  lk_name :: string
  lk_cpu :: "nat option"

record segdesc =
  lim_15_0 :: "16 word"
  base_15_0 :: "16 word"
  base_23_16 :: "8 word"
  seg_type :: "4 word"
  seg_s :: "1 word"
  seg_dpl :: "2 word"
  seg_p :: "1 word"
  lim_19_16 :: "4 word"
  seg_avl :: "1 word"
  seg_rsv1 :: "1 word"
  seg_db :: "1 word"
  seg_g :: "1 word"
  base_31_24 :: "8 word"

text \<open>Of the task state segment, the fields the kernel writes: \<^verbatim>\<open>ss0\<close>, \<^verbatim>\<open>esp0\<close> and \<^verbatim>\<open>iomb\<close>.\<close>

text \<open>
  The depth \<open>c_ncli\<close> of the nested \<^verbatim>\<open>pushcli\<close> calls is an unbounded integer: it is at most the number of locks that a CPU holds at
  once, so that the \<^verbatim>\<open>int\<close> of the code does not overflow.
\<close>

record cpu =
  c_apicid :: u8
  c_ncli :: int
  c_intena :: bool
  c_proc :: "nat option"
  c_started :: bool
  c_ss0 :: u16
  c_esp0 :: u32
  c_iomb :: u16
  c_gdt :: "segdesc list"

text \<open>
  What synchronisation code works on: the CPU table, the locks, and the hardware: which CPU is
  executing (its local APIC id) and the interrupt flag of \<^verbatim>\<open>EFLAGS\<close> on every CPU.
\<close>

record sync =
  cpus :: "cpu list"
  ncpu :: nat
  locks :: "lockid \<Rightarrow> spinlock"
  hw_lapicid :: u8
  hw_if :: "u8 \<Rightarrow> bool"

record sleeplock =
  sl_locked :: u32
  sl_name :: string
  sl_pid :: u32

section \<open>Processes\<close>

record trapframe =
  tf_edi :: u32
  tf_esi :: u32
  tf_ebp :: u32
  tf_oesp :: u32
  tf_ebx :: u32
  tf_edx :: u32
  tf_ecx :: u32
  tf_eax :: u32
  tf_gs :: u16
  tf_fs :: u16
  tf_es :: u16
  tf_ds :: u16
  tf_trapno :: u32
  tf_err :: u32
  tf_eip :: u32
  tf_cs :: u16
  tf_eflags :: u32
  tf_esp :: u32
  tf_ss :: u16

record kcontext =
  cx_edi :: u32
  cx_esi :: u32
  cx_ebx :: u32
  cx_ebp :: u32
  cx_eip :: u32

datatype procstate = UNUSED | EMBRYO | SLEEPING | RUNNABLE | RUNNING | ZOMBIE

record proc =
  p_sz :: u32
  p_pgdir :: u32
  p_kstack :: u32
  p_state :: procstate
  p_pid :: u32
  p_parent :: "nat option"
  p_tf :: "trapframe option"
  p_context :: "kcontext option"
  p_chan :: chan
  p_killed :: bool
  p_ofile :: "nat option list"
  p_cwd :: "nat option"
  p_name :: "u8 list"
  p_ctime :: u32
  p_etime :: u32
  p_rtime :: u32
  p_stime :: u32
  p_retime :: u32
  p_tickets :: u32
  p_original_tickets :: u32

text \<open>The zero-initialised entry of a static array.\<close>

definition proc0 :: proc where
  "proc0 =
     \<lparr>p_sz = 0, p_pgdir = 0, p_kstack = 0, p_state = UNUSED, p_pid = 0, p_parent = None,
      p_tf = None, p_context = None, p_chan = ChNull, p_killed = False,
      p_ofile = replicate NOFILE None, p_cwd = None, p_name = replicate 16 0,
      p_ctime = 0, p_etime = 0, p_rtime = 0, p_stime = 0, p_retime = 0,
      p_tickets = 0, p_original_tickets = 0\<rparr>"

text \<open>
  The process table with the variables of \<^verbatim>\<open>proc.c\<close> and the tick counter of \<^verbatim>\<open>trap.c\<close>:
  everything the scheduler reads.
\<close>

record ptab =
  pt_procs :: "proc list"
  pt_nextpid :: u32
  pt_initproc :: "nat option"
  pt_policy :: u32
  pt_seed :: u32
  pt_first :: bool
  pt_ticks :: u32

section \<open>The file system\<close>

record buf =
  b_flags :: u32
  b_dev :: u32
  b_blockno :: u32
  b_lock :: sleeplock
  b_refcnt :: u32
  b_prev :: nat
  b_next :: nat
  b_data :: "u8 list"
  b_qnext :: "nat option"

text \<open>The buffers and the list head; the head has index \<open>NBUF\<close> in the \<^verbatim>\<open>prev\<close>/\<^verbatim>\<open>next\<close> links.\<close>

record bcache =
  bc_buf :: "buf list"
  bc_head_prev :: nat
  bc_head_next :: nat

record logst =
  lg_start :: u32
  lg_size :: u32
  lg_outstanding :: u32
  lg_committing :: bool
  lg_dev :: u32
  lh_n :: u32
  lh_block :: "u32 list"

record superblock =
  sb_size :: u32
  sb_nblocks :: u32
  sb_ninodes :: u32
  sb_nlog :: u32
  sb_logstart :: u32
  sb_inodestart :: u32
  sb_bmapstart :: u32

record inode =
  i_dev :: u32
  i_inum :: u32
  i_ref :: u32
  i_lock :: sleeplock
  i_valid :: bool
  i_type :: u16
  i_major :: u16
  i_minor :: u16
  i_nlink :: u16
  i_size :: u32
  i_addrs :: "u32 list"

record dinode =
  di_type :: u16
  di_major :: u16
  di_minor :: u16
  di_nlink :: u16
  di_size :: u32
  di_addrs :: "u32 list"

record dirent =
  de_inum :: u16
  de_name :: "u8 list"

datatype ftype = FD_NONE | FD_PIPE | FD_INODE | FD_DEVICE

record kfile =
  f_type :: ftype
  f_ref :: u32
  f_readable :: bool
  f_writable :: bool
  f_pipe :: u32
  f_ip :: "nat option"
  f_off :: u32
  f_major :: u16

record pipe =
  pi_data :: "u8 list"
  pi_nread :: u32
  pi_nwrite :: u32
  pi_readopen :: bool
  pi_writeopen :: bool

section \<open>Devices\<close>

text \<open>
  The console: the variables of \<^verbatim>\<open>console.c\<close>, \<^verbatim>\<open>kbd.c\<close> and \<^verbatim>\<open>uart.c\<close>, and the devices behind
  their ports: the cursor registers of the display, the scan codes that wait in the keyboard controller, the
  bytes that wait in the serial port, the bytes that have been sent over it, and whether there is one.
\<close>

record console =
  cn_locking :: bool
  cn_panicked :: bool
  in_buf :: "u8 list"
  in_r :: u32
  in_w :: u32
  in_e :: u32
  kb_shift :: u32
  ua_present :: bool
  hw_cursor :: u16
  hw_kbd :: "u8 list"
  hw_rx :: "u8 list"
  hw_tx :: "u8 list"
  hw_com1 :: bool

text \<open>
  The disk driver \<^verbatim>\<open>ide.c\<close>, and the disk controller: its status, the last byte written to each
  port, the command it works on, its data buffer, and the contents of drive 0 (drive 1 holds the file
  system).
\<close>

record ide =
  ide_queue :: "nat option"
  ide_havedisk1 :: bool
  hw_status :: u8
  hw_regs :: "u16 \<Rightarrow> u8"
  hw_cmd :: "u8 option"
  hw_data :: "u8 list"
  hw_disk0 :: "u8 list list"

text \<open>
  The interrupt controllers: the pointer \<^verbatim>\<open>lapic\<close>, the registers behind it, the variable
  \<^verbatim>\<open>ioapicid\<close>, the registers of the I/O APIC, and the bytes written to other ports, in order.
\<close>

record apic =
  ap_lapic :: u32
  hw_lapic :: "nat \<Rightarrow> u32"
  ap_ioapicid :: u8
  hw_ioapic :: "nat \<Rightarrow> u32"
  hw_ports :: "(u16 \<times> u8) list"

section \<open>The kernel state\<close>

text \<open>
  The disk is a list of blocks. \<open>k_writes\<close> is a history variable: the blocks that have been written
  to the disk, in order; no operation reads it.
\<close>

record kmem =
  km_use_lock :: bool
  km_freelist :: u32

record kernel =
  k_sync :: sync
  k_ptab :: ptab
  k_mem :: "u32 \<Rightarrow> u8"
  k_kmem :: kmem
  k_kpgdir :: u32
  k_cr3 :: u32
  k_disk :: "u8 list list"
  k_writes :: "(nat \<times> u8 list) list"
  k_bcache :: bcache
  k_log :: logst
  k_sb :: superblock
  k_icache :: "inode list"
  k_ftable :: "kfile list"
  k_pipes :: "u32 \<Rightarrow> pipe"
  k_cons :: console
  k_ide :: ide
  k_apic :: apic

type_synonym 'a kop = "(kernel, 'a) op"

text \<open>
  The state at the start of \<^verbatim>\<open>main\<close>: static variables are zero, the boot CPU is the only one
  started, with interrupts off. Memory and disk are parameters; the devices are idle.
\<close>

definition cpu0 :: cpu where
  "cpu0 = \<lparr>c_apicid = 0, c_ncli = 0, c_intena = False, c_proc = None, c_started = False, c_ss0 = 0,
     c_esp0 = 0, c_iomb = 0, c_gdt = replicate 6 \<lparr>lim_15_0 = 0, base_15_0 = 0, base_23_16 = 0, seg_type = 0,
       seg_s = 0, seg_dpl = 0, seg_p = 0, lim_19_16 = 0, seg_avl = 0, seg_rsv1 = 0, seg_db = 0, seg_g = 0,
       base_31_24 = 0\<rparr>\<rparr>"

definition sync0 :: sync where
  "sync0 = \<lparr>cpus = replicate NCPU cpu0, ncpu = 1,
     locks = (\<lambda>_. \<lparr>lk_locked = 0, lk_name = [], lk_cpu = None\<rparr>), hw_lapicid = 0, hw_if = (\<lambda>_. False)\<rparr>"

definition ptab0 :: ptab where
  "ptab0 = \<lparr>pt_procs = replicate NPROC proc0, pt_nextpid = 1, pt_initproc = None, pt_policy = 0,
     pt_seed = 1, pt_first = True, pt_ticks = 0\<rparr>"

definition sleeplock0 :: sleeplock where
  "sleeplock0 = \<lparr>sl_locked = 0, sl_name = [], sl_pid = 0\<rparr>"

definition buf0 :: buf where
  "buf0 = \<lparr>b_flags = 0, b_dev = 0, b_blockno = 0, b_lock = sleeplock0, b_refcnt = 0, b_prev = 0,
     b_next = 0, b_data = replicate 512 0, b_qnext = None\<rparr>"

definition inode0 :: inode where
  "inode0 = \<lparr>i_dev = 0, i_inum = 0, i_ref = 0, i_lock = sleeplock0, i_valid = False, i_type = 0,
     i_major = 0, i_minor = 0, i_nlink = 0, i_size = 0, i_addrs = replicate 13 0\<rparr>"

definition kfile0 :: kfile where
  "kfile0 = \<lparr>f_type = FD_NONE, f_ref = 0, f_readable = False, f_writable = False, f_pipe = 0,
     f_ip = None, f_off = 0, f_major = 0\<rparr>"

definition console0 :: console where
  "console0 = \<lparr>cn_locking = False, cn_panicked = False, in_buf = replicate 128 0, in_r = 0, in_w = 0, in_e = 0,
     kb_shift = 0, ua_present = False, hw_cursor = 0, hw_kbd = [], hw_rx = [], hw_tx = [], hw_com1 = True\<rparr>"

definition ide0 :: ide where
  "ide0 = \<lparr>ide_queue = None, ide_havedisk1 = False, hw_status = 0x40, hw_regs = (\<lambda>_. 0), hw_cmd = None,
     hw_data = [], hw_disk0 = []\<rparr>"

definition apic0 :: apic where
  "apic0 = \<lparr>ap_lapic = 0, hw_lapic = (\<lambda>_. 0), ap_ioapicid = 0, hw_ioapic = (\<lambda>_. 0), hw_ports = []\<rparr>"

definition kernel0 :: "(u32 \<Rightarrow> u8) \<Rightarrow> u8 list list \<Rightarrow> kernel" where
  "kernel0 mem disk =
     \<lparr>k_sync = sync0, k_ptab = ptab0, k_mem = mem, k_kmem = \<lparr>km_use_lock = False, km_freelist = 0\<rparr>,
      k_kpgdir = 0, k_cr3 = 0, k_disk = disk, k_writes = [],
      k_bcache = \<lparr>bc_buf = replicate NBUF buf0, bc_head_prev = 0, bc_head_next = 0\<rparr>,
      k_log = \<lparr>lg_start = 0, lg_size = 0, lg_outstanding = 0, lg_committing = False, lg_dev = 0,
        lh_n = 0, lh_block = replicate LOGSIZE 0\<rparr>,
      k_sb = \<lparr>sb_size = 0, sb_nblocks = 0, sb_ninodes = 0, sb_nlog = 0, sb_logstart = 0,
        sb_inodestart = 0, sb_bmapstart = 0\<rparr>,
      k_icache = replicate NINODE inode0, k_ftable = replicate NFILE kfile0,
      k_pipes = (\<lambda>_. \<lparr>pi_data = replicate 512 0, pi_nread = 0, pi_nwrite = 0, pi_readopen = False,
        pi_writeopen = False\<rparr>), k_cons = console0, k_ide = ide0, k_apic = apic0\<rparr>"

text \<open>
  Operations of one component as operations of the kernel: on the synchronisation state, on the
  process table.
\<close>

definition liftS :: "(sync, 'a) op \<Rightarrow> 'a kop" where
  "liftS m s = (case m (k_sync s) of Inl e \<Rightarrow> Inl e | Inr (a, y) \<Rightarrow> Inr (a, s\<lparr>k_sync := y\<rparr>))"

definition liftP :: "(ptab, 'a) op \<Rightarrow> 'a kop" where
  "liftP m s = (case m (k_ptab s) of Inl e \<Rightarrow> Inl e | Inr (a, y) \<Rightarrow> Inr (a, s\<lparr>k_ptab := y\<rparr>))"

text \<open>An operation that neither reads nor writes the synchronisation state.\<close>

definition sync_indep :: "'a kop \<Rightarrow> bool" where
  "sync_indep m \<longleftrightarrow>
     (\<forall>s y. m (s\<lparr>k_sync := y\<rparr>) = (case m s of Inl e \<Rightarrow> Inl e | Inr (a, t) \<Rightarrow> Inr (a, t\<lparr>k_sync := y\<rparr>)))"

lemma sync_indepD:
  assumes "sync_indep m" and "m s = Inr (a, t)"
  shows "m (s\<lparr>k_sync := y\<rparr>) = Inr (a, t\<lparr>k_sync := y\<rparr>)"
  using assms by (simp add: sync_indep_def)

lemma sync_indep_InlD:
  assumes "sync_indep m" and "m s = Inl e"
  shows "m (s\<lparr>k_sync := y\<rparr>) = Inl e"
  using assms by (simp add: sync_indep_def)

lemma sync_indep_keeps:
  assumes "sync_indep m" and "m s = Inr (a, t)"
  shows "k_sync t = k_sync s"
proof -
  from sync_indepD [OF assms, of "k_sync s"] assms(2) have "t = t\<lparr>k_sync := k_sync s\<rparr>"
    by simp
  then show ?thesis by (metis kernel.select_convs(1) kernel.surjective kernel.update_convs(1))
qed

named_theorems sync_indep_intros \<open>operations that do not touch the synchronisation state\<close>

lemma sync_indep_liftP [sync_indep_intros]: "sync_indep (liftP m)"
  by (auto simp: sync_indep_def liftP_def split: sum.splits)

lemma sync_indep_retM [sync_indep_intros]: "sync_indep (retM a)"
  by (simp add: sync_indep_def retM_def)

lemma sync_indep_failM [sync_indep_intros]: "sync_indep (failM e)"
  by (simp add: sync_indep_def failM_def)

lemma sync_indep_assertM [sync_indep_intros]: "sync_indep (assertM b e)"
  by (simp add: sync_indep_def assertM_def)

lemma sync_indep_theM [sync_indep_intros]: "sync_indep (theM e x)"
  by (simp add: sync_indep_def theM_def split: option.splits)

lemma sync_indep_getM [sync_indep_intros]:
  "(\<And>s y. f (s\<lparr>k_sync := y\<rparr>) = f s) \<Longrightarrow> sync_indep (getM f)"
  by (simp add: sync_indep_def getM_def)

lemma sync_indep_modM [sync_indep_intros]:
  "(\<And>s y. f (s\<lparr>k_sync := y\<rparr>) = (f s)\<lparr>k_sync := y\<rparr>) \<Longrightarrow> sync_indep (modM f)"
  by (simp add: sync_indep_def modM_def)

lemma sync_indep_bindM [sync_indep_intros]:
  assumes "sync_indep m" and "\<And>a. sync_indep (f a)"
  shows "sync_indep (bindM m f)"
  unfolding sync_indep_def
proof (intro allI)
  fix s y
  show "bindM m f (s\<lparr>k_sync := y\<rparr>) =
      (case bindM m f s of Inl e \<Rightarrow> Inl e | Inr (a, t) \<Rightarrow> Inr (a, t\<lparr>k_sync := y\<rparr>))"
  proof (cases "m s")
    case (Inl e)
    with sync_indep_InlD [OF assms(1) Inl] show ?thesis by (simp add: bindM_def)
  next
    case (Inr p)
    obtain a t where p: "p = (a, t)" by force
    with Inr have m: "m s = Inr (a, t)" by simp
    show ?thesis
      using sync_indepD [OF assms(1) m, of y] assms(2) [of a] m
      by (simp add: bindM_def sync_indep_def)
  qed
qed

lemma sync_indep_if [sync_indep_intros]:
  "sync_indep m \<Longrightarrow> sync_indep n \<Longrightarrow> sync_indep (if b then m else n)"
  by simp

end
