(* ===== verification/Sched_Policy.thy ===== *)
theory Sched_Policy
  imports Xv6_Types
begin

text \<open>
  How \<^verbatim>\<open>scheduler\<close> of \<^verbatim>\<open>proc.c\<close> chooses the next process under its three policies: first come
  first served on the creation time, lottery on the tickets, round robin. The scans are the
  loops over the process table in its order; the ticket sums are 32-bit machine integers.
\<close>

section \<open>The pseudo-random generator\<close>

text \<open>\<^verbatim>\<open>rand_seed\<close> is an \<^verbatim>\<open>unsigned long\<close>, 32 bits on the i386.\<close>

definition krand_next :: "u32 \<Rightarrow> u32" where
  "krand_next seed = seed * 1664525 + 1013904223"

section \<open>First come, first served\<close>

text \<open>The loop variable \<^verbatim>\<open>best\<close> is the entry chosen so far, with its index.\<close>

fun fcfs_scan :: "proc list \<Rightarrow> nat \<Rightarrow> (nat \<times> proc) option \<Rightarrow> (nat \<times> proc) option" where
  "fcfs_scan [] i best = best"
| "fcfs_scan (p # ps) i best =
     (if p_state p \<noteq> RUNNABLE then fcfs_scan ps (Suc i) best
      else case best of
          None \<Rightarrow> fcfs_scan ps (Suc i) (Some (i, p))
        | Some (j, b) \<Rightarrow>
            if p_ctime p < p_ctime b then fcfs_scan ps (Suc i) (Some (i, p))
            else fcfs_scan ps (Suc i) best)"

definition fcfs_pick :: "proc list \<Rightarrow> nat option" where
  "fcfs_pick ps = map_option fst (fcfs_scan ps 0 None)"

section \<open>Lottery\<close>

definition eff_tickets :: "proc \<Rightarrow> u32" where
  "eff_tickets p = (if 0 < sint (p_tickets p) then p_tickets p else 1)"

fun lottery_total :: "proc list \<Rightarrow> u32 \<Rightarrow> u32" where
  "lottery_total [] totaltix = totaltix"
| "lottery_total (p # ps) totaltix =
     (if p_state p = RUNNABLE then
        let t = eff_tickets p in
        if sint totaltix \<le> sint (0x7fffffff - t) then lottery_total ps (totaltix + t)
        else lottery_total ps 0x7fffffff
      else lottery_total ps totaltix)"

fun lottery_scan :: "proc list \<Rightarrow> nat \<Rightarrow> u32 \<Rightarrow> u32 \<Rightarrow> nat option" where
  "lottery_scan [] i acc r = None"
| "lottery_scan (p # ps) i acc r =
     (if p_state p \<noteq> RUNNABLE then lottery_scan ps (Suc i) acc r
      else
        let acc' = acc + eff_tickets p in
        if sint acc' > sint r then Some i else lottery_scan ps (Suc i) acc' r)"

text \<open>One draw: the chosen process, if any, and the new seed.\<close>

definition lottery_pick :: "proc list \<Rightarrow> u32 \<Rightarrow> nat option \<times> u32" where
  "lottery_pick ps seed =
     (let totaltix = lottery_total ps 0 in
      if 0 < sint totaltix then
        let seed' = krand_next seed; r = seed' mod totaltix in (lottery_scan ps 0 0 r, seed')
      else (None, seed))"

section \<open>Round robin\<close>

text \<open>The next process to run of a pass that has reached index \<open>i\<close>.\<close>

definition rr_next :: "proc list \<Rightarrow> nat \<Rightarrow> nat option" where
  "rr_next ps i = first_idx (\<lambda>p. p_state p = RUNNABLE) (drop i ps) i"

section \<open>The choice made by the scheduler loop\<close>

text \<open>
  Where a CPU is in \<^verbatim>\<open>scheduler\<close>: at the top of the endless loop, where the policy is read, or
  inside a round-robin pass that goes on at index \<open>i\<close>. \<open>sched_select\<close> runs the loop from there to
  the next process it switches to (\<open>Some\<close>), or to the end of the loop body without one.
\<close>

datatype sched_pc = SchedTop | SchedRR nat

definition rr_select :: "nat \<Rightarrow> ptab \<Rightarrow> nat option \<times> sched_pc \<times> ptab" where
  "rr_select i t =
     (case rr_next (pt_procs t) i of
        Some j \<Rightarrow> (Some j, SchedRR (Suc j), t)
      | None \<Rightarrow> (None, SchedTop, t))"

fun sched_select :: "sched_pc \<Rightarrow> ptab \<Rightarrow> nat option \<times> sched_pc \<times> ptab" where
  "sched_select SchedTop t =
     (if pt_policy t = 1 then (fcfs_pick (pt_procs t), SchedTop, t)
      else if pt_policy t = 2 then
        (case lottery_pick (pt_procs t) (pt_seed t) of (c, seed') \<Rightarrow> (c, SchedTop, t\<lparr>pt_seed := seed'\<rparr>))
      else rr_select 0 t)"
| "sched_select (SchedRR i) t = rr_select i t"

section \<open>What a policy promises\<close>

text \<open>
  A policy chooses among the runnable processes only, and a work-conserving one chooses some
  process whenever there is a runnable one.
\<close>

definition some_runnable :: "proc list \<Rightarrow> bool" where
  "some_runnable ps \<longleftrightarrow> (\<exists>p \<in> set ps. p_state p = RUNNABLE)"

locale sched_choice =
  fixes pick :: "proc list \<Rightarrow> nat option"
  assumes pick_runnable: "pick ps = Some i \<Longrightarrow> i < length ps \<and> p_state (ps ! i) = RUNNABLE"
begin

lemma pick_idle:
  assumes "\<not> some_runnable ps"
  shows "pick ps = None"
proof (rule ccontr)
  assume "pick ps \<noteq> None"
  then obtain i where "pick ps = Some i" by blast
  with pick_runnable have "ps ! i \<in> set ps" and "p_state (ps ! i) = RUNNABLE" by simp_all
  with assms show False by (auto simp: some_runnable_def)
qed

lemma pick_none_running:
  assumes "pick ps = Some i"
  shows "p_state (ps ! i) \<noteq> RUNNING" and "p_state (ps ! i) \<noteq> ZOMBIE" and "p_state (ps ! i) \<noteq> SLEEPING"
  using pick_runnable [OF assms] by auto

end

locale work_conserving = sched_choice +
  assumes pick_some: "some_runnable ps \<Longrightarrow> pick ps \<noteq> None"
begin

lemma pick_iff: "(\<exists>i. pick ps = Some i) \<longleftrightarrow> some_runnable ps"
  by (metis pick_some pick_idle not_None_eq)

end

section \<open>First come, first served: the oldest process\<close>

text \<open>
  \<open>is_oldest xs best\<close>: \<open>best\<close> is the first of the runnable entries of \<open>xs\<close> with the least
  creation time. It is the invariant of the scan.
\<close>

definition is_oldest :: "proc list \<Rightarrow> (nat \<times> proc) option \<Rightarrow> bool" where
  "is_oldest xs best =
     (case best of
        None \<Rightarrow> \<forall>p \<in> set xs. p_state p \<noteq> RUNNABLE
      | Some (k, b) \<Rightarrow>
          k < length xs \<and> b = xs ! k \<and> p_state b = RUNNABLE \<and>
          (\<forall>m < length xs. p_state (xs ! m) = RUNNABLE \<longrightarrow> p_ctime b \<le> p_ctime (xs ! m)) \<and>
          (\<forall>m < k. p_state (xs ! m) = RUNNABLE \<longrightarrow> p_ctime b < p_ctime (xs ! m)))"

lemma is_oldest_skip: "is_oldest xs best \<Longrightarrow> p_state p \<noteq> RUNNABLE \<Longrightarrow> is_oldest (xs @ [p]) best"
  by (auto simp: is_oldest_def nth_append less_Suc_eq split: option.splits)

lemma is_oldest_first:
  "is_oldest xs None \<Longrightarrow> p_state p = RUNNABLE \<Longrightarrow> is_oldest (xs @ [p]) (Some (length xs, p))"
  by (auto simp: is_oldest_def nth_append less_Suc_eq)

lemma is_oldest_older:
  assumes "is_oldest xs (Some (j, b))" and "p_state p = RUNNABLE" and "p_ctime p < p_ctime b"
  shows "is_oldest (xs @ [p]) (Some (length xs, p))"
proof -
  have "p_ctime p < p_ctime (xs ! m)" if "m < length xs" "p_state (xs ! m) = RUNNABLE" for m
  proof -
    from assms(1) that have "p_ctime b \<le> p_ctime (xs ! m)" by (auto simp: is_oldest_def)
    with assms(3) show ?thesis by (rule less_le_trans)
  qed
  with assms(2) show ?thesis
    by (auto simp: is_oldest_def nth_append less_Suc_eq order_less_imp_le)
qed

lemma is_oldest_keep:
  "is_oldest xs (Some (j, b)) \<Longrightarrow> \<not> p_ctime p < p_ctime b \<Longrightarrow> is_oldest (xs @ [p]) (Some (j, b))"
  by (auto simp: is_oldest_def nth_append less_Suc_eq not_less)

lemma fcfs_scan_oldest:
  "is_oldest xs best \<Longrightarrow> is_oldest (xs @ ps) (fcfs_scan ps (length xs) best)"
proof (induction ps arbitrary: xs best)
  case Nil
  then show ?case by simp
next
  case (Cons p ps)
  have step: "is_oldest (xs @ [p]) b \<Longrightarrow> is_oldest (xs @ p # ps) (fcfs_scan ps (Suc (length xs)) b)" for b
    using Cons.IH [of "xs @ [p]" b] by simp
  show ?case
  proof (cases "p_state p = RUNNABLE")
    case False
    then show ?thesis using step is_oldest_skip [OF Cons.prems] by simp
  next
    case True
    then show ?thesis
      using Cons.prems
      by (auto intro!: step intro: is_oldest_first is_oldest_older is_oldest_keep split: option.splits)
  qed
qed

lemma fcfs_pick_Some:
  assumes "fcfs_pick ps = Some k"
  shows "is_oldest ps (Some (k, ps ! k))"
proof -
  have "is_oldest ps (fcfs_scan ps 0 None)"
    using fcfs_scan_oldest [of "[]" None ps] by (simp add: is_oldest_def)
  moreover from assms obtain b where "fcfs_scan ps 0 None = Some (k, b)"
    by (auto simp: fcfs_pick_def)
  ultimately show ?thesis by (auto simp: is_oldest_def)
qed

lemma fcfs_pick_None: "fcfs_pick ps = None \<Longrightarrow> \<not> some_runnable ps"
  using fcfs_scan_oldest [of "[]" None ps] by (simp add: fcfs_pick_def is_oldest_def some_runnable_def)

interpretation fcfs: work_conserving fcfs_pick
proof
  show "fcfs_pick ps = Some i \<Longrightarrow> i < length ps \<and> p_state (ps ! i) = RUNNABLE" for ps i
    by (auto dest!: fcfs_pick_Some simp: is_oldest_def)
  show "some_runnable ps \<Longrightarrow> fcfs_pick ps \<noteq> None" for ps
    using fcfs_pick_None by blast
qed

lemma is_oldest_unique:
  assumes "is_oldest ps (Some (i, p))" and "is_oldest ps (Some (j, q))"
  shows "i = j"
proof (rule ccontr)
  assume "i \<noteq> j"
  then consider "i < j" | "j < i" by linarith
  then show False
  proof cases
    case 1
    with assms have "p_ctime q < p_ctime p" and "p_ctime p \<le> p_ctime q"
      by (auto simp: is_oldest_def)
    then show False by simp
  next
    case 2
    with assms have "p_ctime p < p_ctime q" and "p_ctime q \<le> p_ctime p"
      by (auto simp: is_oldest_def)
    then show False by simp
  qed
qed

lemma fcfs_pick_iff: "fcfs_pick ps = Some k \<longleftrightarrow> is_oldest ps (Some (k, ps ! k))"
proof
  assume "is_oldest ps (Some (k, ps ! k))"
  then have "some_runnable ps" by (auto simp: is_oldest_def some_runnable_def)
  then obtain j where j: "fcfs_pick ps = Some j" using fcfs.pick_iff by blast
  with \<open>is_oldest ps (Some (k, ps ! k))\<close> show "fcfs_pick ps = Some k"
    using is_oldest_unique [OF fcfs_pick_Some [OF j]] by simp
qed (rule fcfs_pick_Some)

section \<open>Lottery: tickets as intervals\<close>

text \<open>
  The number of tickets with which an entry takes part in the draw. As long as the sum stays
  below \<open>2 ^ 31\<close>, the 32-bit sums of the code are exact.
\<close>

definition weight :: "proc \<Rightarrow> nat" where
  "weight p = (if p_state p = RUNNABLE then unat (eff_tickets p) else 0)"

definition total_weight :: "proc list \<Rightarrow> nat" where
  "total_weight ps = sum_list (map weight ps)"

lemma total_weight_simps [simp]:
  "total_weight [] = 0" "total_weight (p # ps) = weight p + total_weight ps"
  "total_weight (ps @ qs) = total_weight ps + total_weight qs"
  by (simp_all add: total_weight_def)

lemma eff_tickets_bounds: "0 < unat (eff_tickets p)" "unat (eff_tickets p) < 2147483648"
  by (auto simp: eff_tickets_def sint_u32_pos_iff)

lemma weight_pos: "0 < weight p \<longleftrightarrow> p_state p = RUNNABLE"
  using eff_tickets_bounds(1) [of p] by (simp add: weight_def)

lemma room_for_tickets:
  assumes "unat (tot :: u32) < 2147483648"
  shows "sint tot \<le> sint (0x7fffffff - eff_tickets p) \<longleftrightarrow> unat tot + unat (eff_tickets p) < 2147483648"
proof -
  have "unat (0x7fffffff - eff_tickets p) = 2147483647 - unat (eff_tickets p)"
    using eff_tickets_bounds [of p] by (subst unat_diff_u32) simp_all
  then have "sint (0x7fffffff - eff_tickets p) = int (2147483647 - unat (eff_tickets p))"
    by (subst sint_u32_pos) simp_all
  with sint_u32_pos [OF assms] show ?thesis
    using eff_tickets_bounds [of p] by linarith
qed

lemma lottery_total_exact:
  "unat tot + total_weight ps < 2147483648 \<Longrightarrow>
     unat (lottery_total ps tot) = unat tot + total_weight ps"
proof (induction ps arbitrary: tot)
  case Nil
  then show ?case by simp
next
  case (Cons p ps)
  show ?case
  proof (cases "p_state p = RUNNABLE")
    case True
    with Cons.prems have b: "unat tot + unat (eff_tickets p) + total_weight ps < 2147483648"
      by (simp add: weight_def)
    then have "unat (tot + eff_tickets p) = unat tot + unat (eff_tickets p)"
      by (simp add: unat_add_u32)
    with Cons.IH [of "tot + eff_tickets p"] b True show ?thesis
      by (simp add: Let_def room_for_tickets weight_def)
  next
    case False
    with Cons show ?thesis by (simp add: weight_def)
  qed
qed

lemma lottery_scan_ge: "lottery_scan ps i acc r = Some j \<Longrightarrow> i \<le> j"
  by (induction ps arbitrary: i acc) (fastforce simp: Let_def split: if_splits)+

lemma lottery_scan_winner:
  assumes "unat acc + total_weight ps < 2147483648" and "unat acc \<le> unat r"
    and "unat r < 2147483648"
  shows "lottery_scan ps i acc r = Some (i + k) \<longleftrightarrow>
    k < length ps \<and> unat acc + total_weight (take k ps) \<le> unat r \<and>
    unat r < unat acc + total_weight (take (Suc k) ps)"
  using assms
proof (induction ps arbitrary: acc i k)
  case Nil
  then show ?case by simp
next
  case (Cons p ps)
  show ?case
  proof (cases "p_state p = RUNNABLE")
    case False
    then have w: "weight p = 0" by (simp add: weight_def)
    show ?thesis
    proof (cases k)
      case 0
      with False w Cons.prems show ?thesis by (auto dest: lottery_scan_ge)
    next
      case (Suc m)
      with False w Cons.prems Cons.IH [of acc "Suc i" m] show ?thesis by simp
    qed
  next
    case True
    let ?t = "eff_tickets p"
    from True have w: "weight p = unat ?t" by (simp add: weight_def)
    with Cons.prems have b: "unat acc + unat ?t + total_weight ps < 2147483648" by simp
    then have acc': "unat (acc + ?t) = unat acc + unat ?t" by (simp add: unat_add_u32)
    with b have "sint (acc + ?t) = int (unat acc + unat ?t)"
      by (subst sint_u32_pos) simp_all
    with sint_u32_pos [OF Cons.prems(3)]
    have win: "sint (acc + ?t) > sint r \<longleftrightarrow> unat r < unat acc + unat ?t"
      by linarith
    show ?thesis
    proof (cases "unat r < unat acc + unat ?t")
      case True
      with \<open>p_state p = RUNNABLE\<close> win w Cons.prems(2) show ?thesis
        by (cases k) (auto simp: Let_def)
    next
      case False
      with \<open>p_state p = RUNNABLE\<close> win have s: "lottery_scan (p # ps) i acc r = lottery_scan ps (Suc i) (acc + ?t) r"
        by (simp add: Let_def)
      show ?thesis
      proof (cases k)
        case 0
        with s w False show ?thesis by (auto dest: lottery_scan_ge)
      next
        case (Suc m)
        with s w False b acc' Cons.prems(3) Cons.IH [of "acc + ?t" "Suc i" m] show ?thesis
          by (simp add: add.assoc)
      qed
    qed
  qed
qed

lemma lottery_scan_total:
  assumes "total_weight ps < 2147483648" and "unat r < total_weight ps"
  shows "\<exists>k. lottery_scan ps 0 0 r = Some k"
proof -
  have "\<exists>k < length ps. total_weight (take k ps) \<le> n \<and> n < total_weight (take (Suc k) ps)"
    if "n < total_weight ps" for n and ps :: "proc list"
    using that
  proof (induction ps rule: rev_induct)
    case Nil
    then show ?case by simp
  next
    case (snoc p ps)
    show ?case
    proof (cases "n < total_weight ps")
      case True
      with snoc.IH obtain k where "k < length ps" "total_weight (take k ps) \<le> n"
        "n < total_weight (take (Suc k) ps)" by blast
      then show ?thesis by (intro exI [of _ k]) simp
    next
      case False
      with snoc.prems show ?thesis by (intro exI [of _ "length ps"]) simp
    qed
  qed
  from this [OF assms(2)] obtain k where "k < length ps" "total_weight (take k ps) \<le> unat r"
    "unat r < total_weight (take (Suc k) ps)" by blast
  with lottery_scan_winner [of 0 ps r 0 k] assms show ?thesis by auto
qed

lemma lottery_scan_runnable:
  "lottery_scan ps i acc r = Some j \<Longrightarrow>
     i \<le> j \<and> j < i + length ps \<and> p_state (ps ! (j - i)) = RUNNABLE"
proof (induction ps arbitrary: i acc)
  case Nil
  then show ?case by simp
next
  case (Cons p ps)
  show ?case
  proof (cases "lottery_scan (p # ps) i acc r = Some i \<and> p_state p = RUNNABLE")
    case True
    with Cons.prems have "j = i" by (metis option.inject)
    with True show ?thesis by simp
  next
    case False
    with Cons.prems obtain acc' where "lottery_scan ps (Suc i) acc' r = Some j"
      by (auto simp: Let_def split: if_splits)
    from Cons.IH [OF this] show ?thesis by (auto simp: nth_Cons')
  qed
qed

lemma total_weight_pos: "0 < total_weight ps \<longleftrightarrow> some_runnable ps"
  by (induction ps) (auto simp: some_runnable_def weight_pos)

text \<open>A draw of the lottery as a choice, for a fixed seed.\<close>

interpretation lot: sched_choice "\<lambda>ps. fst (lottery_pick ps seed)" for seed
  by unfold_locales (auto simp: lottery_pick_def Let_def split: if_splits dest: lottery_scan_runnable)

section \<open>Round robin: passes over the table\<close>

lemma rr_next_Some:
  "rr_next ps i = Some j \<longleftrightarrow>
     i \<le> j \<and> j < length ps \<and> p_state (ps ! j) = RUNNABLE \<and>
     (\<forall>k. i \<le> k \<and> k < j \<longrightarrow> p_state (ps ! k) \<noteq> RUNNABLE)"
  by (auto simp: rr_next_def first_idx_Some)

lemma rr_next_None:
  "rr_next ps i = None \<longleftrightarrow> (\<forall>k. i \<le> k \<and> k < length ps \<longrightarrow> p_state (ps ! k) \<noteq> RUNNABLE)"
proof
  assume "rr_next ps i = None"
  then have none: "\<forall>p \<in> set (drop i ps). p_state p \<noteq> RUNNABLE"
    by (simp add: rr_next_def first_idx_None)
  show "\<forall>k. i \<le> k \<and> k < length ps \<longrightarrow> p_state (ps ! k) \<noteq> RUNNABLE"
  proof (intro allI impI)
    fix k
    assume k: "i \<le> k \<and> k < length ps"
    then have "drop i ps ! (k - i) \<in> set (drop i ps)" by (intro nth_mem) auto
    with none k show "p_state (ps ! k) \<noteq> RUNNABLE" by auto
  qed
next
  assume "\<forall>k. i \<le> k \<and> k < length ps \<longrightarrow> p_state (ps ! k) \<noteq> RUNNABLE"
  then show "rr_next ps i = None"
    using rr_next_Some [of ps i] by (cases "rr_next ps i") auto
qed

interpretation rr: work_conserving "\<lambda>ps. rr_next ps 0"
proof
  show "rr_next ps 0 = Some i \<Longrightarrow> i < length ps \<and> p_state (ps ! i) = RUNNABLE" for ps i
    by (simp add: rr_next_Some)
  show "some_runnable ps \<Longrightarrow> rr_next ps 0 \<noteq> None" for ps
    by (auto simp: some_runnable_def rr_next_None in_set_conv_nth)
qed

text \<open>
  A sequence of choices of one CPU: before the \<open>n\<close>-th choice the process table is \<open>T n\<close>, whatever
  the chosen processes, the other CPUs and the interrupts have done to it in between.
\<close>

primrec sched_run :: "(nat \<Rightarrow> ptab) \<Rightarrow> sched_pc \<Rightarrow> nat \<Rightarrow> sched_pc" where
  "sched_run T pc 0 = pc"
| "sched_run T pc (Suc n) = fst (snd (sched_select (sched_run T pc n) (T n)))"

definition sched_choice_at :: "(nat \<Rightarrow> ptab) \<Rightarrow> sched_pc \<Rightarrow> nat \<Rightarrow> nat option" where
  "sched_choice_at T pc n = fst (sched_select (sched_run T pc n) (T n))"

text \<open>The number of choices after which entry \<open>k\<close> has had its turn.\<close>

fun rr_rank :: "nat \<Rightarrow> nat \<Rightarrow> sched_pc \<Rightarrow> nat" where
  "rr_rank N k SchedTop = k"
| "rr_rank N k (SchedRR i) = (if i \<le> k then k - i else Suc (N - i + k))"

lemma rr_select_rank:
  assumes "pt_policy t \<noteq> 1" and "pt_policy t \<noteq> 2" and "length (pt_procs t) = N"
    and "k < N" and "p_state (pt_procs t ! k) = RUNNABLE"
    and "sched_select pc t = (c, pc', t')" and "c \<noteq> Some k"
    and "\<And>i. pc = SchedRR i \<Longrightarrow> i \<le> N"
  shows "rr_rank N k pc' < rr_rank N k pc" and "\<And>i. pc' = SchedRR i \<Longrightarrow> i \<le> N"
proof -
  define i where "i = (case pc of SchedTop \<Rightarrow> 0 | SchedRR j \<Rightarrow> j)"
  have sel: "sched_select pc t = rr_select i t"
    using assms(1,2) by (cases pc) (simp_all add: i_def)
  have rank: "rr_rank N k pc = (if i \<le> k then k - i else Suc (N - i + k))" and "i \<le> N"
    using assms(8) by (cases pc; simp add: i_def)+
  show "rr_rank N k pc' < rr_rank N k pc"
  proof (cases "rr_next (pt_procs t) i")
    case None
    then have "k < i" by (metis assms(3-5) rr_next_None not_le)
    moreover from None sel assms(6) have "pc' = SchedTop" by (simp add: rr_select_def)
    ultimately show ?thesis using rank by simp
  next
    case (Some j)
    with sel assms(6,7) have j: "pc' = SchedRR (Suc j)" "j \<noteq> k" by (auto simp: rr_select_def)
    from Some have *: "i \<le> j" "j < N" "\<And>m. i \<le> m \<Longrightarrow> m < j \<Longrightarrow> p_state (pt_procs t ! m) \<noteq> RUNNABLE"
      using assms(3) by (auto simp: rr_next_Some)
    show ?thesis
    proof (cases "i \<le> k")
      case True
      with *(3) [of k] assms(5) j have "j < k" by (meson linorder_neqE_nat)
      with True j *(1) rank show ?thesis by simp
    next
      case False
      with j *(1,2) rank show ?thesis by auto
    qed
  qed
  show "\<And>i. pc' = SchedRR i \<Longrightarrow> i \<le> N"
    using sel assms(3,6) by (auto simp: rr_select_def rr_next_Some split: option.splits)
qed

lemma rr_turn:
  assumes "\<And>n. (\<And>m. m < n \<Longrightarrow> sched_choice_at T pc m \<noteq> Some k) \<Longrightarrow>
      pt_policy (T n) \<noteq> 1 \<and> pt_policy (T n) \<noteq> 2 \<and> length (pt_procs (T n)) = N \<and>
      p_state (pt_procs (T n) ! k) = RUNNABLE"
    and "k < N" and "\<And>i. pc = SchedRR i \<Longrightarrow> i \<le> N"
  shows "\<exists>n \<le> rr_rank N k pc. sched_choice_at T pc n = Some k"
proof (rule ccontr)
  assume not: "\<not> ?thesis"
  have "rr_rank N k (sched_run T pc n) + n \<le> rr_rank N k pc \<and> (\<forall>i. sched_run T pc n = SchedRR i \<longrightarrow> i \<le> N)"
    if "n \<le> Suc (rr_rank N k pc)" for n
    using that
  proof (induction n)
    case 0
    then show ?case using assms(3) by simp
  next
    case (Suc n)
    let ?pc = "sched_run T pc n"
    obtain c pc' t' where sel: "sched_select ?pc (T n) = (c, pc', t')" by (metis prod_cases3)
    have waiting: "sched_choice_at T pc m \<noteq> Some k" if "m \<le> n" for m
      using Suc.prems not that by auto
    from waiting [of n] sel have "c \<noteq> Some k" by (simp add: sched_choice_at_def)
    moreover from Suc have "\<And>i. ?pc = SchedRR i \<Longrightarrow> i \<le> N" by simp
    ultimately have "rr_rank N k pc' < rr_rank N k ?pc" and "\<And>i. pc' = SchedRR i \<Longrightarrow> i \<le> N"
      using rr_select_rank [of "T n" N k ?pc c pc' t'] assms(1) [of n] waiting assms(2) sel
      by (auto simp: less_imp_le)
    with Suc sel show ?case by fastforce
  qed
  from this [of "Suc (rr_rank N k pc)"] show False by simp
qed

section \<open>Properties\<close>

lemma card_unat_interval:
  assumes "a + w \<le> 2 ^ 32"
  shows "card {r :: u32. a \<le> unat r \<and> unat r < a + w} = w"
proof -
  have "bij_betw unat {r :: u32. a \<le> unat r \<and> unat r < a + w} {a..<a + w}"
  proof (rule bij_betw_byWitness [where f' = of_nat])
    have small: "unat (of_nat n :: u32) = n" if "n \<in> {a..<a + w}" for n
      using assms that by (auto simp: unat_of_nat)
    then show "\<forall>n \<in> {a..<a + w}. unat (of_nat n :: u32) = n" by blast
    from small show "of_nat ` {a..<a + w} \<subseteq> {r :: u32. a \<le> unat r \<and> unat r < a + w}" by auto
  qed auto
  then show ?thesis by (simp add: bij_betw_same_card)
qed

text \<open>
  C1: the lottery is fair. When the tickets of the runnable processes sum to less than
  \<open>2 ^ 31\<close>, the total computed by the code is that sum, and of the possible draws exactly as many
  select a process as it has tickets (none, if it is not runnable).
\<close>

theorem lottery_fair:
  assumes "total_weight ps < 2 ^ 31" and "i < length ps"
  shows "unat (lottery_total ps 0) = total_weight ps \<and>
    card {r. r < lottery_total ps 0 \<and> lottery_scan ps 0 0 r = Some i} = weight (ps ! i)"
proof -
  have tot: "unat (lottery_total ps 0) = total_weight ps"
    using lottery_total_exact [of 0 ps] assms(1) by simp
  let ?a = "total_weight (take i ps)"
  have split: "total_weight ps = ?a + weight (ps ! i) + total_weight (drop (Suc i) ps)"
    using assms(2) by (metis total_weight_simps(2,3) id_take_nth_drop add.assoc)
  have nxt: "total_weight (take (Suc i) ps) = ?a + weight (ps ! i)"
    using assms(2) by (simp add: take_Suc_conv_app_nth)
  have "r < lottery_total ps 0 \<and> lottery_scan ps 0 0 r = Some i \<longleftrightarrow>
      ?a \<le> unat r \<and> unat r < ?a + weight (ps ! i)" for r
    using lottery_scan_winner [of 0 ps r 0 i] assms tot split nxt
    by (auto simp: word_less_nat_alt)
  then have "card {r. r < lottery_total ps 0 \<and> lottery_scan ps 0 0 r = Some i} = weight (ps ! i)"
    using card_unat_interval [of ?a "weight (ps ! i)"] split assms(1) by simp
  with tot show ?thesis by simp
qed

text \<open>A small table for the witnesses: runnable, sleeping and runnable, with their tickets.\<close>

definition ex_procs :: "proc list" where
  "ex_procs =
     [proc0\<lparr>p_state := RUNNABLE, p_tickets := 3, p_ctime := 7\<rparr>,
      proc0\<lparr>p_state := SLEEPING, p_tickets := 50, p_ctime := 1\<rparr>,
      proc0\<lparr>p_state := RUNNABLE, p_tickets := - 4, p_ctime := 5\<rparr>]"

lemma ex_procs_weights: "map weight ex_procs = [3, 0, 1]"
  by (simp add: ex_procs_def weight_def eff_tickets_def)

theorem lottery_fair_witness:
  "card {r. r < lottery_total ex_procs 0 \<and> lottery_scan ex_procs 0 0 r = Some 0} = 3"
proof -
  have "total_weight ex_procs = 4" by (simp add: total_weight_def ex_procs_weights)
  moreover have "weight (ex_procs ! 0) = 3" using ex_procs_weights by (auto simp: ex_procs_def)
  moreover have "0 < length ex_procs" by (simp add: ex_procs_def)
  ultimately show ?thesis using lottery_fair [of ex_procs 0] by simp
qed

text \<open>
  C4: when the tickets do not exceed \<open>2 ^ 31 - 1\<close> in sum, the lottery is work-conserving: a draw
  selects a process exactly when there is a runnable one, the selected process is runnable, and
  the generator advances only when a draw is made.
\<close>

theorem lottery_work_conserving:
  assumes "total_weight ps < 2 ^ 31"
  shows "case lottery_pick ps seed of
      (Some i, seed') \<Rightarrow> i < length ps \<and> p_state (ps ! i) = RUNNABLE \<and> seed' = krand_next seed
    | (None, seed') \<Rightarrow> \<not> some_runnable ps \<and> seed' = seed"
proof (cases "some_runnable ps")
  case True
  have tot: "unat (lottery_total ps 0) = total_weight ps"
    using lottery_total_exact [of 0 ps] assms by simp
  with True have pos: "0 < unat (lottery_total ps 0)" by (simp add: total_weight_pos)
  with tot assms have s: "0 < sint (lottery_total ps 0)" by (simp add: sint_u32_pos_iff)
  let ?r = "krand_next seed mod lottery_total ps 0"
  have "unat ?r < total_weight ps" using pos tot by (simp add: unat_mod)
  with lottery_scan_total assms obtain k where "lottery_scan ps 0 0 ?r = Some k" by force
  with s show ?thesis
    using lot.pick_runnable [of ps seed k] by (simp add: lottery_pick_def Let_def)
next
  case False
  then have "total_weight ps = 0" using total_weight_pos [of ps] by simp
  then have "unat (lottery_total ps 0) = 0" using lottery_total_exact [of 0 ps] by simp
  then have "lottery_total ps 0 = 0" by (simp add: unat_eq_0)
  with False show ?thesis by (simp add: lottery_pick_def)
qed

theorem lottery_work_conserving_witness: "some_runnable ex_procs \<and> fst (lottery_pick ex_procs 1) \<noteq> None"
proof -
  have r: "some_runnable ex_procs" by (simp add: some_runnable_def ex_procs_def)
  have "total_weight ex_procs < 2 ^ 31" by (simp add: total_weight_def ex_procs_weights)
  from lottery_work_conserving [OF this, of 1] r show ?thesis by (auto split: prod.splits option.splits)
qed

text \<open>
  C3: first come first served chooses the oldest runnable process: \<open>k\<close> is chosen exactly when it
  is runnable, no runnable process has a smaller creation time, and of those with the same
  creation time it has the lowest index in the table. No process is chosen only if none is runnable.
\<close>

theorem fcfs_oldest:
  "(fcfs_pick ps = Some k \<longleftrightarrow>
      k < length ps \<and> p_state (ps ! k) = RUNNABLE \<and>
      (\<forall>m < length ps. p_state (ps ! m) = RUNNABLE \<longrightarrow>
         p_ctime (ps ! k) < p_ctime (ps ! m) \<or> (p_ctime (ps ! k) = p_ctime (ps ! m) \<and> k \<le> m))) \<and>
   (fcfs_pick ps = None \<longleftrightarrow> \<not> some_runnable ps)"
proof -
  have "is_oldest ps (Some (k, ps ! k)) \<longleftrightarrow>
      k < length ps \<and> p_state (ps ! k) = RUNNABLE \<and>
      (\<forall>m < length ps. p_state (ps ! m) = RUNNABLE \<longrightarrow>
         p_ctime (ps ! k) < p_ctime (ps ! m) \<or> (p_ctime (ps ! k) = p_ctime (ps ! m) \<and> k \<le> m))"
    (is "?L \<longleftrightarrow> ?R")
  proof
    assume old: ?L
    have "p_ctime (ps ! k) < p_ctime (ps ! m) \<or> (p_ctime (ps ! k) = p_ctime (ps ! m) \<and> k \<le> m)"
      if "m < length ps" "p_state (ps ! m) = RUNNABLE" for m
    proof (cases "m < k")
      case True
      with old that show ?thesis by (simp add: is_oldest_def)
    next
      case False
      from old that have "p_ctime (ps ! k) \<le> p_ctime (ps ! m)" by (simp add: is_oldest_def)
      with False show ?thesis by (auto simp: order_le_less)
    qed
    with old show ?R by (simp add: is_oldest_def)
  next
    assume new: ?R
    then have "p_ctime (ps ! k) \<le> p_ctime (ps ! m)" if "m < length ps" "p_state (ps ! m) = RUNNABLE" for m
      using that by (auto simp: order_le_less)
    moreover from new have "p_ctime (ps ! k) < p_ctime (ps ! m)" if "m < k" "p_state (ps ! m) = RUNNABLE" for m
      using that by (meson less_trans not_le)
    ultimately show ?L using new by (simp add: is_oldest_def)
  qed
  moreover have "fcfs_pick ps = None \<longleftrightarrow> \<not> some_runnable ps"
    using fcfs.pick_iff [of ps] by auto
  ultimately show ?thesis by (simp add: fcfs_pick_iff)
qed

theorem fcfs_oldest_witness: "fcfs_pick ex_procs = Some 2 \<and> some_runnable ex_procs"
proof -
  have "p_state (ex_procs ! 2) = RUNNABLE" and "p_ctime (ex_procs ! 2) = 5" and "length ex_procs = 3"
    by (simp_all add: ex_procs_def)
  moreover have "\<forall>m < 3. p_state (ex_procs ! m) = RUNNABLE \<longrightarrow>
      5 < p_ctime (ex_procs ! m) \<or> (5 = p_ctime (ex_procs ! m) \<and> 2 \<le> m)"
  proof (intro allI impI)
    fix m :: nat
    assume "m < 3"
    then consider "m = 0" | "m = 1" | "m = 2" by linarith
    then show "p_state (ex_procs ! m) = RUNNABLE \<Longrightarrow>
        5 < p_ctime (ex_procs ! m) \<or> (5 = p_ctime (ex_procs ! m) \<and> 2 \<le> m)"
      by cases (simp_all add: ex_procs_def)
  qed
  ultimately have "fcfs_pick ex_procs = Some 2" using fcfs_oldest [of ex_procs 2] by simp
  then show ?thesis using fcfs_oldest [of ex_procs 2] by (metis option.distinct(1))
qed

text \<open>
  C2: round robin does not starve: while the policy is round robin, a process that stays runnable
  until it is chosen is chosen within \<open>NPROC + 1\<close> choices of the CPU, wherever the CPU is in its
  pass and whatever happens to the other entries of the table in between.
\<close>

theorem rr_no_starvation:
  assumes "\<And>n. (\<And>m. m < n \<Longrightarrow> sched_choice_at T pc m \<noteq> Some k) \<Longrightarrow>
      pt_policy (T n) = 0 \<and> length (pt_procs (T n)) = NPROC \<and> p_state (pt_procs (T n) ! k) = RUNNABLE"
    and "k < NPROC" and "pc = SchedTop \<or> (\<exists>i \<le> NPROC. pc = SchedRR i)"
  shows "\<exists>n \<le> NPROC. sched_choice_at T pc n = Some k"
proof -
  have "\<exists>n \<le> rr_rank NPROC k pc. sched_choice_at T pc n = Some k"
    using assms by (intro rr_turn) auto
  moreover have "rr_rank NPROC k pc \<le> NPROC" using assms(2,3) by auto
  ultimately show ?thesis by (meson order_trans)
qed

definition ex_rr :: ptab where
  "ex_rr = \<lparr>pt_procs = replicate NPROC (proc0\<lparr>p_state := RUNNABLE\<rparr>), pt_nextpid = 65,
     pt_initproc = Some 0, pt_policy = 0, pt_seed = 1, pt_first = False, pt_ticks = 100\<rparr>"

theorem rr_no_starvation_witness:
  "\<exists>n \<le> NPROC. sched_choice_at (\<lambda>_. ex_rr) (SchedRR 40) n = Some 17"
  by (rule rr_no_starvation) (simp_all add: ex_rr_def NPROC_def)

lemma krand_undo: "(krand_next seed - 1013904223) * 4276115653 = seed"
proof -
  have z: "(7117701407309824 :: u32) = 0" by simp
  have "(7117701407309824 :: u32) * seed = 0" by (subst z) simp
  then show ?thesis by (simp add: krand_next_def)
qed

lemma krand_parity: "even (unat (krand_next seed)) \<longleftrightarrow> odd (unat seed)"
  by (simp add: krand_next_def unat_word_ariths dvd_mod_iff)

lemma u32_mod_2: "(w :: u32) mod 2 = (if even (unat w) then 0 else 1)"
proof -
  have "unat (w mod 2) = unat w mod 2" by (simp only: unat_mod) simp
  also have "\<dots> = (if even (unat w) then 0 else 1)" by presburger
  finally show ?thesis by (simp add: word_unat_eq_iff)
qed

text \<open>The lottery among two runnable processes, wherever they are in the table.\<close>

definition only_runnable :: "nat \<Rightarrow> nat \<Rightarrow> proc list \<Rightarrow> bool" where
  "only_runnable i j ps \<longleftrightarrow> i < j \<and> j < length ps \<and> (\<forall>m < length ps. p_state (ps ! m) = RUNNABLE \<longleftrightarrow> m = i \<or> m = j)"

lemma lottery_skip:
  assumes "\<forall>p \<in> set xs. p_state p \<noteq> RUNNABLE"
  shows "lottery_total (xs @ ys) tot = lottery_total ys tot" "lottery_scan (xs @ ys) k acc r = lottery_scan ys (k + length xs) acc r"
  using assms by (induction xs arbitrary: k) simp_all

lemma only_runnable_split:
  assumes "only_runnable i j ps"
  obtains xs ys zs where "ps = xs @ ps ! i # ys @ ps ! j # zs" "length xs = i" "length ys = j - Suc i"
    "\<forall>p \<in> set xs. p_state p \<noteq> RUNNABLE" "\<forall>p \<in> set ys. p_state p \<noteq> RUNNABLE" "\<forall>p \<in> set zs. p_state p \<noteq> RUNNABLE"
proof
  let ?xs = "take i ps" and ?ys = "take (j - Suc i) (drop (Suc i) ps)" and ?zs = "drop (Suc j) ps"
  have ij: "i < j" "j < length ps" and run: "m < length ps \<Longrightarrow> p_state (ps ! m) = RUNNABLE \<longleftrightarrow> m = i \<or> m = j" for m
    using assms by (auto simp: only_runnable_def)
  have "drop (Suc i) ps = ?ys @ drop j ps" using ij append_take_drop_id [of "j - Suc i" "drop (Suc i) ps"] by simp
  then show "ps = ?xs @ ps ! i # ?ys @ ps ! j # ?zs"
    using ij id_take_nth_drop [of i ps] Cons_nth_drop_Suc [of j ps] by simp
  show "length ?xs = i" "length ?ys = j - Suc i" using ij by simp_all
  show "\<forall>p \<in> set ?xs. p_state p \<noteq> RUNNABLE" using ij run by (auto simp: in_set_conv_nth)
  show "\<forall>p \<in> set ?ys. p_state p \<noteq> RUNNABLE" using ij run by (auto simp: in_set_conv_nth)
  show "\<forall>p \<in> set ?zs. p_state p \<noteq> RUNNABLE" using ij run by (auto simp: in_set_conv_nth)
qed

lemma lottery_two:
  assumes "only_runnable i j ps"
  shows "lottery_total ps tot = lottery_total [ps ! i, ps ! j] tot"
    "lottery_scan ps 0 0 r = (let a = eff_tickets (ps ! i); b = eff_tickets (ps ! j) in
       if sint r < sint a then Some i else if sint r < sint (a + b) then Some j else None)"
proof -
  from assms have st: "p_state (ps ! i) = RUNNABLE" "p_state (ps ! j) = RUNNABLE" and ij: "i < j" by (auto simp: only_runnable_def)
  from assms obtain xs ys zs where ps: "ps = xs @ ps ! i # ys @ ps ! j # zs" and len: "length xs = i" "length ys = j - Suc i"
    and no: "\<forall>p \<in> set xs. p_state p \<noteq> RUNNABLE" "\<forall>p \<in> set ys. p_state p \<noteq> RUNNABLE" "\<forall>p \<in> set zs. p_state p \<noteq> RUNNABLE"
    by (rule only_runnable_split)
  have zs: "lottery_total zs t = t" "lottery_scan zs k acc r = None" for t k acc using no(3) lottery_skip [of zs "[]"] by simp_all
  show "lottery_total ps tot = lottery_total [ps ! i, ps ! j] tot"
    by (subst ps) (simp add: lottery_skip no st zs Let_def)
  show "lottery_scan ps 0 0 r = (let a = eff_tickets (ps ! i); b = eff_tickets (ps ! j) in
       if sint r < sint a then Some i else if sint r < sint (a + b) then Some j else None)"
    by (subst ps) (use ij in \<open>simp add: lottery_skip no st zs len Let_def\<close>)
qed

text \<open>
  C7: The generator is a permutation of the 32-bit seeds, so no seed is a dead end; but its lowest
  bit only alternates. When two processes of one ticket each are the only runnable ones, wherever they are in
  the table, consecutive lottery draws therefore select them strictly in turn.
\<close>

theorem krand_alternates:
  assumes "only_runnable i j ps" and "p_tickets (ps ! i) = 1" and "p_tickets (ps ! j) = 1"
  shows "inj krand_next \<and>
    (fst (lottery_pick ps seed) = Some i \<and> fst (lottery_pick ps (krand_next seed)) = Some j \<or>
     fst (lottery_pick ps seed) = Some j \<and> fst (lottery_pick ps (krand_next seed)) = Some i)"
proof -
  have inj: "inj krand_next" by (metis injI krand_undo)
  from assms(1) have st: "p_state (ps ! i) = RUNNABLE" "p_state (ps ! j) = RUNNABLE" by (auto simp: only_runnable_def)
  have pick: "fst (lottery_pick ps x) = (if even (unat (krand_next x)) then Some i else Some j)" for x
    using assms(2,3) st by (simp add: lottery_pick_def lottery_two [OF assms(1)] eff_tickets_def Let_def u32_mod_2)
  show ?thesis using inj by (simp add: pick krand_parity)
qed

definition ex_pair :: "proc list" where
  "ex_pair = (replicate NPROC proc0)
     [7 := proc0\<lparr>p_state := RUNNABLE, p_tickets := 1\<rparr>, 40 := proc0\<lparr>p_state := RUNNABLE, p_tickets := 1\<rparr>]"

theorem krand_alternates_witness:
  "fst (lottery_pick ex_pair 1) = Some 7 \<and> fst (lottery_pick ex_pair (krand_next 1)) = Some 40 \<or>
   fst (lottery_pick ex_pair 1) = Some 40 \<and> fst (lottery_pick ex_pair (krand_next 1)) = Some 7"
proof -
  have "only_runnable 7 40 ex_pair" by (auto simp: only_runnable_def ex_pair_def NPROC_def nth_list_update proc0_def)
  then show ?thesis using krand_alternates [of 7 40 ex_pair 1] by (simp add: ex_pair_def NPROC_def)
qed

end
