(* ===== verification/ProcTable.thy ===== *)
theory ProcTable
  imports Xv6_Types
begin

text \<open>
  What \<^verbatim>\<open>proc.c\<close>, \<^verbatim>\<open>trap.c\<close> and the scheduling system calls do to the process table. Each
  definition is the part of a function that runs while \<^verbatim>\<open>ptable.lock\<close> is held (or the
  assignments to one entry that its owner makes), as a function on the table; the kernel
  functions that add the locking and the calls to other components are built from them in the
  theories Process and Scheduler.
\<close>

definition proc_upd :: "nat \<Rightarrow> (proc \<Rightarrow> proc) \<Rightarrow> proc list \<Rightarrow> proc list" where
  "proc_upd i f ps = ps[i := f (ps ! i)]"

abbreviation tab_upd :: "(proc list \<Rightarrow> proc list) \<Rightarrow> ptab \<Rightarrow> ptab" where
  "tab_upd f t \<equiv> t\<lparr>pt_procs := f (pt_procs t)\<rparr>"

text \<open>A process used as a sleep channel: the pointer to its entry.\<close>

definition proc_chan :: "nat option \<Rightarrow> chan" where
  "proc_chan x = (case x of None \<Rightarrow> ChNull | Some i \<Rightarrow> ChProc i)"

section \<open>Sleep and wakeup\<close>

definition wakeup1 :: "chan \<Rightarrow> proc list \<Rightarrow> proc list" where
  "wakeup1 ch = map (\<lambda>p. if p_state p = SLEEPING \<and> p_chan p = ch then p\<lparr>p_state := RUNNABLE\<rparr> else p)"

definition sleep_mark :: "nat \<Rightarrow> chan \<Rightarrow> proc list \<Rightarrow> proc list" where
  "sleep_mark i ch = proc_upd i (\<lambda>p. p\<lparr>p_chan := ch, p_state := SLEEPING\<rparr>)"

definition sleep_tidy :: "nat \<Rightarrow> proc list \<Rightarrow> proc list" where
  "sleep_tidy i = proc_upd i (\<lambda>p. p\<lparr>p_chan := ChNull\<rparr>)"

definition yield_mark :: "nat \<Rightarrow> proc list \<Rightarrow> proc list" where
  "yield_mark i = proc_upd i (\<lambda>p. p\<lparr>p_state := RUNNABLE\<rparr>)"

section \<open>Creation\<close>

text \<open>The search of \<^verbatim>\<open>allocproc\<close> for an unused entry, which takes the next pid.\<close>

definition alloc_slot :: "ptab \<Rightarrow> (nat \<times> ptab) option" where
  "alloc_slot t =
     (case first_idx (\<lambda>p. p_state p = UNUSED) (pt_procs t) 0 of
        None \<Rightarrow> None
      | Some i \<Rightarrow> Some (i, t\<lparr>pt_procs := proc_upd i (\<lambda>p. p\<lparr>p_state := EMBRYO, p_pid := pt_nextpid t\<rparr>) (pt_procs t),
                              pt_nextpid := pt_nextpid t + 1\<rparr>))"

definition context0 :: kcontext where
  "context0 = \<lparr>cx_edi = 0, cx_esi = 0, cx_ebx = 0, cx_ebp = 0, cx_eip = 0\<rparr>"

definition trapframe0 :: trapframe where
  "trapframe0 =
     \<lparr>tf_edi = 0, tf_esi = 0, tf_ebp = 0, tf_oesp = 0, tf_ebx = 0, tf_edx = 0, tf_ecx = 0, tf_eax = 0,
      tf_gs = 0, tf_fs = 0, tf_es = 0, tf_ds = 0, tf_trapno = 0, tf_err = 0, tf_eip = 0, tf_cs = 0,
      tf_eflags = 0, tf_esp = 0, tf_ss = 0\<rparr>"

text \<open>
  The rest of \<^verbatim>\<open>allocproc\<close>: the kernel stack, the context that starts at \<^verbatim>\<open>forkret\<close> (its
  address is a parameter), and the accounting fields. The trap frame and the context lie on the
  new kernel stack; what an unset trap frame holds is a parameter too.
\<close>

definition alloc_init :: "u32 \<Rightarrow> u32 \<Rightarrow> trapframe \<Rightarrow> u32 \<Rightarrow> proc \<Rightarrow> proc" where
  "alloc_init kstack forkret tf ticks p =
     p\<lparr>p_kstack := kstack, p_tf := Some tf, p_context := Some (context0\<lparr>cx_eip := forkret\<rparr>),
       p_ctime := ticks, p_etime := 0, p_rtime := 0, p_retime := 0, p_stime := 0,
       p_tickets := 10, p_original_tickets := 10\<rparr>"

text \<open>\<^verbatim>\<open>fork\<close>: the tickets and the start of the child.\<close>

definition fork_tickets :: "proc \<Rightarrow> u32" where
  "fork_tickets parent = (if 0 < sint (p_tickets parent) then p_tickets parent else 1)"

definition start_mark :: "nat \<Rightarrow> proc list \<Rightarrow> proc list" where
  "start_mark i = proc_upd i (\<lambda>p. p\<lparr>p_state := RUNNABLE\<rparr>)"

section \<open>Exit and wait\<close>

text \<open>One round of the loop of \<^verbatim>\<open>exit\<close> that passes abandoned children to init.\<close>

definition reparent_one :: "nat \<Rightarrow> nat option \<Rightarrow> nat \<Rightarrow> proc list \<Rightarrow> proc list" where
  "reparent_one cur init i ps =
     (if p_parent (ps ! i) = Some cur then
        let ps' = proc_upd i (\<lambda>p. p\<lparr>p_parent := init\<rparr>) ps in
        if p_state (ps' ! i) = ZOMBIE then wakeup1 (proc_chan init) ps' else ps'
      else ps)"

definition reparent :: "nat \<Rightarrow> nat option \<Rightarrow> proc list \<Rightarrow> proc list" where
  "reparent cur init ps = fold (reparent_one cur init) [0..<length ps] ps"

definition exit_mark :: "nat \<Rightarrow> u32 \<Rightarrow> proc list \<Rightarrow> proc list" where
  "exit_mark cur ticks = proc_upd cur (\<lambda>p. p\<lparr>p_etime := ticks, p_state := ZOMBIE\<rparr>)"

definition exit_table :: "nat \<Rightarrow> ptab \<Rightarrow> ptab" where
  "exit_table cur t =
     (let ps1 = wakeup1 (proc_chan (p_parent (pt_procs t ! cur))) (pt_procs t);
          ps2 = reparent cur (pt_initproc t) ps1
      in t\<lparr>pt_procs := exit_mark cur (pt_ticks t) ps2\<rparr>)"

text \<open>
  The scan of \<^verbatim>\<open>wait\<close> and \<^verbatim>\<open>waitx\<close>: the first zombie child, and whether a child was seen.
\<close>

fun wait_scan :: "nat \<Rightarrow> proc list \<Rightarrow> nat \<Rightarrow> bool \<Rightarrow> nat option \<times> bool" where
  "wait_scan cur [] i havekids = (None, havekids)"
| "wait_scan cur (p # ps) i havekids =
     (if p_parent p \<noteq> Some cur then wait_scan cur ps (Suc i) havekids
      else if p_state p = ZOMBIE then (Some i, True)
      else wait_scan cur ps (Suc i) True)"

definition reap :: "nat \<Rightarrow> proc list \<Rightarrow> proc list" where
  "reap k = proc_upd k (\<lambda>p. p\<lparr>p_kstack := 0, p_pid := 0, p_parent := None,
     p_name := (p_name p)[0 := 0], p_killed := False, p_state := UNUSED\<rparr>)"

text \<open>The times that \<^verbatim>\<open>waitx\<close> reports: running time, and waiting time by subtraction of ints.\<close>

definition waitx_times :: "proc \<Rightarrow> u32 \<times> u32" where
  "waitx_times p =
     (let rt = p_rtime p;
          wt = p_etime p - p_ctime p - rt
      in (if sint wt < 0 then 0 else wt, rt))"

section \<open>Kill and the scheduling system calls\<close>

fun kill_scan :: "u32 \<Rightarrow> proc list \<Rightarrow> proc list option" where
  "kill_scan pid [] = None"
| "kill_scan pid (p # ps) =
     (if p_pid p = pid then
        Some ((if p_state p = SLEEPING then p\<lparr>p_killed := True, p_state := RUNNABLE\<rparr>
               else p\<lparr>p_killed := True\<rparr>) # ps)
      else map_option ((#) p) (kill_scan pid ps))"

definition setpolicy :: "u32 \<Rightarrow> ptab \<Rightarrow> u32 \<times> ptab" where
  "setpolicy policy t =
     (if sint policy < 0 \<or> sint policy > 2 then (- 1, t) else (0, t\<lparr>pt_policy := policy\<rparr>))"

definition set_tickets_mark :: "nat \<Rightarrow> u32 \<Rightarrow> proc list \<Rightarrow> proc list" where
  "set_tickets_mark i n = proc_upd i (\<lambda>p. p\<lparr>p_tickets := n\<rparr>)"

text \<open>
  \<^verbatim>\<open>struct pstat\<close>, and the loop of \<^verbatim>\<open>getpinfo\<close> that fills one row per table entry. The fields
  \<^verbatim>\<open>state\<close> and \<^verbatim>\<open>name\<close> of the structure are not written by it.
\<close>

record pstat =
  ps_inuse :: "u32 list"
  ps_pid :: "u32 list"
  ps_state :: "u32 list"
  ps_tickets :: "u32 list"
  ps_original_tickets :: "u32 list"
  ps_rtime :: "u32 list"
  ps_stime :: "u32 list"
  ps_retime :: "u32 list"
  ps_ctime :: "u32 list"
  ps_etime :: "u32 list"
  ps_name :: "u8 list list"

definition getpinfo_row :: "proc list \<Rightarrow> nat \<Rightarrow> pstat \<Rightarrow> pstat" where
  "getpinfo_row ps i st =
     (let p = ps ! i in
      st\<lparr>ps_inuse := (ps_inuse st)[i := (if p_state p \<noteq> UNUSED then 1 else 0)],
         ps_pid := (ps_pid st)[i := p_pid p],
         ps_tickets := (ps_tickets st)[i := p_tickets p],
         ps_original_tickets := (ps_original_tickets st)[i := p_original_tickets p],
         ps_rtime := (ps_rtime st)[i := p_rtime p],
         ps_stime := (ps_stime st)[i := p_stime p],
         ps_retime := (ps_retime st)[i := p_retime p],
         ps_ctime := (ps_ctime st)[i := p_ctime p],
         ps_etime := (ps_etime st)[i := p_etime p]\<rparr>)"

definition getpinfo_fill :: "proc list \<Rightarrow> pstat \<Rightarrow> pstat" where
  "getpinfo_fill ps st = fold (getpinfo_row ps) [0..<NPROC] st"

section \<open>The clock interrupt\<close>

text \<open>
  The tick counter (with the wakeup of its sleepers), then the accounting loop of \<^verbatim>\<open>trap\<close>. The increment and the wakeup are one step
  here; both run under \<^verbatim>\<open>tickslock\<close>, which the sleepers of the clock hold while they look at the counter.
\<close>

definition tick_count :: "ptab \<Rightarrow> ptab" where
  "tick_count t = t\<lparr>pt_ticks := pt_ticks t + 1, pt_procs := wakeup1 ChTicks (pt_procs t)\<rparr>"

definition account :: "proc \<Rightarrow> proc" where
  "account q =
     (case p_state q of
        RUNNING \<Rightarrow> q\<lparr>p_rtime := p_rtime q + 1\<rparr>
      | RUNNABLE \<Rightarrow> q\<lparr>p_retime := p_retime q + 1\<rparr>
      | SLEEPING \<Rightarrow> q\<lparr>p_stime := p_stime q + 1\<rparr>
      | _ \<Rightarrow> q)"

definition tick_account :: "proc list \<Rightarrow> proc list" where
  "tick_account = map account"

section \<open>Dispatch\<close>

definition run_mark :: "nat \<Rightarrow> proc list \<Rightarrow> proc list" where
  "run_mark i = proc_upd i (\<lambda>p. p\<lparr>p_state := RUNNING\<rparr>)"

section \<open>Entries after an operation\<close>

text \<open>
  One lemma per operation that says what each entry of the table is afterwards. Most operations
  change one entry; \<open>wakeup1\<close>, \<open>reparent\<close> and \<open>tick_account\<close> change all of them.
\<close>

named_theorems entry_simps \<open>the entries of the table after an operation\<close>

lemma length_proc_upd [simp]: "length (proc_upd i f ps) = length ps"
  by (simp add: proc_upd_def)

lemma nth_proc_upd [entry_simps]:
  "j < length ps \<Longrightarrow> proc_upd i f ps ! j = (if j = i then f (ps ! i) else ps ! j)"
  by (simp add: proc_upd_def nth_list_update)

lemma proc_upd_other: "j \<noteq> i \<Longrightarrow> proc_upd i f ps ! j = ps ! j"
  by (simp add: proc_upd_def)

lemma length_wakeup1 [simp]: "length (wakeup1 ch ps) = length ps"
  by (simp add: wakeup1_def)

definition woken :: "chan \<Rightarrow> proc \<Rightarrow> proc" where
  "woken ch p = (if p_state p = SLEEPING \<and> p_chan p = ch then p\<lparr>p_state := RUNNABLE\<rparr> else p)"

lemma nth_wakeup1 [entry_simps]: "j < length ps \<Longrightarrow> wakeup1 ch ps ! j = woken ch (ps ! j)"
  by (simp add: wakeup1_def woken_def)

lemma woken_simps [simp]:
  "p_parent (woken ch p) = p_parent p" "p_pid (woken ch p) = p_pid p" "p_chan (woken ch p) = p_chan p"
  "p_kstack (woken ch p) = p_kstack p" "p_ctime (woken ch p) = p_ctime p" "p_etime (woken ch p) = p_etime p"
  "p_rtime (woken ch p) = p_rtime p" "p_stime (woken ch p) = p_stime p" "p_retime (woken ch p) = p_retime p"
  "p_killed (woken ch p) = p_killed p" "p_tickets (woken ch p) = p_tickets p"
  by (simp_all add: woken_def)

lemma woken_state:
  "p_state (woken ch p) = (if p_state p = SLEEPING \<and> p_chan p = ch then RUNNABLE else p_state p)"
  by (simp add: woken_def)

lemma woken_awake [simp]: "\<not> (p_state (woken ch p) = SLEEPING \<and> p_chan p = ch)"
  by (simp add: woken_def)

lemma woken_state_simps [simp]:
  "p_state (woken ch p) = ZOMBIE \<longleftrightarrow> p_state p = ZOMBIE"
  "p_state (woken ch p) = UNUSED \<longleftrightarrow> p_state p = UNUSED"
  "p_state (woken ch p) = EMBRYO \<longleftrightarrow> p_state p = EMBRYO"
  "p_state (woken ch p) = RUNNING \<longleftrightarrow> p_state p = RUNNING"
  by (simp_all add: woken_def)

lemma length_tick_account [simp]: "length (tick_account ps) = length ps"
  by (simp add: tick_account_def)

lemma nth_tick_account [entry_simps]: "j < length ps \<Longrightarrow> tick_account ps ! j = account (ps ! j)"
  by (simp add: tick_account_def)

lemma account_simps [simp]:
  "p_parent (account p) = p_parent p" "p_pid (account p) = p_pid p" "p_chan (account p) = p_chan p"
  "p_state (account p) = p_state p" "p_kstack (account p) = p_kstack p" "p_killed (account p) = p_killed p"
  "p_ctime (account p) = p_ctime p" "p_etime (account p) = p_etime p"
  by (simp_all add: account_def split: procstate.splits)

lemma length_marks [simp]:
  "length (sleep_mark i ch ps) = length ps" "length (sleep_tidy i ps) = length ps"
  "length (yield_mark i ps) = length ps" "length (start_mark i ps) = length ps"
  "length (exit_mark i n ps) = length ps" "length (reap i ps) = length ps"
  "length (set_tickets_mark i n ps) = length ps" "length (run_mark i ps) = length ps"
  by (simp_all add: sleep_mark_def sleep_tidy_def yield_mark_def start_mark_def exit_mark_def reap_def
      set_tickets_mark_def run_mark_def)

text \<open>The loop of \<^verbatim>\<open>exit\<close>: all children get the new parent, and it is woken if one is a zombie.\<close>

definition reparented :: "nat \<Rightarrow> nat option \<Rightarrow> bool \<Rightarrow> proc \<Rightarrow> proc" where
  "reparented cur init zombie p =
     (if zombie then woken (proc_chan init) else id)
       (if p_parent p = Some cur then p\<lparr>p_parent := init\<rparr> else p)"

lemma woken_parent_upd: "woken ch (p\<lparr>p_parent := x\<rparr>) = (woken ch p)\<lparr>p_parent := x\<rparr>"
  by (simp add: woken_def)

lemma woken_woken [simp]: "woken ch (woken ch p) = woken ch p"
  by (simp add: woken_def)

lemma reparent_prefix:
  assumes "m \<le> length ps"
  shows "length (fold (reparent_one cur init) [0..<m] ps) = length ps \<and>
    (\<forall>i < length ps. fold (reparent_one cur init) [0..<m] ps ! i =
       (if \<exists>k < m. p_parent (ps ! k) = Some cur \<and> p_state (ps ! k) = ZOMBIE then woken (proc_chan init) else id)
         (if i < m \<and> p_parent (ps ! i) = Some cur then (ps ! i)\<lparr>p_parent := init\<rparr> else ps ! i))"
  using assms
proof (induction m)
  case 0
  then show ?case by simp
next
  case (Suc m)
  let ?r = "fold (reparent_one cur init) [0..<m] ps"
  let ?z = "\<lambda>n. \<exists>k < n. p_parent (ps ! k) = Some cur \<and> p_state (ps ! k) = ZOMBIE"
  from Suc have len: "length ?r = length ps"
    and ent: "\<And>i. i < length ps \<Longrightarrow> ?r ! i = (if ?z m then woken (proc_chan init) else id)
         (if i < m \<and> p_parent (ps ! i) = Some cur then (ps ! i)\<lparr>p_parent := init\<rparr> else ps ! i)"
    by simp_all
  have m: "m < length ps" using Suc.prems by simp
  have pm: "p_parent (?r ! m) = p_parent (ps ! m)" and sm: "p_state (?r ! m) = ZOMBIE \<longleftrightarrow> p_state (ps ! m) = ZOMBIE"
    using ent [OF m] by simp_all
  have step: "fold (reparent_one cur init) [0..<Suc m] ps = reparent_one cur init m ?r" by simp
  have z: "?z (Suc m) \<longleftrightarrow> ?z m \<or> p_parent (ps ! m) = Some cur \<and> p_state (ps ! m) = ZOMBIE"
    by (auto simp: less_Suc_eq)
  show ?case
  proof (cases "p_parent (ps ! m) = Some cur")
    case False
    then have "reparent_one cur init m ?r = ?r" using pm by (simp add: reparent_one_def)
    with False step len ent z show ?thesis by (auto simp: less_Suc_eq)
  next
    case True
    show ?thesis
    proof (cases "p_state (ps ! m) = ZOMBIE")
      case True
      with \<open>p_parent (ps ! m) = Some cur\<close> pm sm m len
      have "reparent_one cur init m ?r = wakeup1 (proc_chan init) (proc_upd m (\<lambda>p. p\<lparr>p_parent := init\<rparr>) ?r)"
        by (simp add: reparent_one_def Let_def nth_proc_upd)
      with True \<open>p_parent (ps ! m) = Some cur\<close> step len ent z m show ?thesis
        by (auto simp: entry_simps less_Suc_eq woken_parent_upd)
    next
      case False
      with \<open>p_parent (ps ! m) = Some cur\<close> pm sm m len
      have "reparent_one cur init m ?r = proc_upd m (\<lambda>p. p\<lparr>p_parent := init\<rparr>) ?r"
        by (simp add: reparent_one_def Let_def nth_proc_upd)
      with False \<open>p_parent (ps ! m) = Some cur\<close> step len ent z m show ?thesis
        by (auto simp: entry_simps less_Suc_eq woken_parent_upd)
    qed
  qed
qed

lemma length_reparent [simp]: "length (reparent cur init ps) = length ps"
  using reparent_prefix [of "length ps" ps cur init] by (simp add: reparent_def)

lemma nth_reparent [entry_simps]:
  "j < length ps \<Longrightarrow> reparent cur init ps ! j =
     reparented cur init (\<exists>k < length ps. p_parent (ps ! k) = Some cur \<and> p_state (ps ! k) = ZOMBIE) (ps ! j)"
  using reparent_prefix [of "length ps" ps cur init] by (simp add: reparent_def reparented_def)

text \<open>The scan of \<^verbatim>\<open>wait\<close>.\<close>

lemma wait_scan_Some:
  "wait_scan cur ps i hk = (Some k, b) \<Longrightarrow>
     b \<and> i \<le> k \<and> k < i + length ps \<and> p_parent (ps ! (k - i)) = Some cur \<and> p_state (ps ! (k - i)) = ZOMBIE"
proof (induction ps arbitrary: i hk)
  case Nil
  then show ?case by simp
next
  case (Cons p ps)
  show ?case
  proof (cases "p_parent p = Some cur \<and> p_state p = ZOMBIE")
    case True
    with Cons.prems show ?thesis by auto
  next
    case False
    with Cons.prems obtain h where "wait_scan cur ps (Suc i) h = (Some k, b)"
      by (auto split: if_splits)
    from Cons.IH [OF this] show ?thesis by (auto simp: nth_Cons')
  qed
qed

lemma wait_scan_None:
  "wait_scan cur ps i hk = (None, b) \<longleftrightarrow>
     (\<forall>p \<in> set ps. p_parent p = Some cur \<longrightarrow> p_state p \<noteq> ZOMBIE) \<and>
     (b \<longleftrightarrow> hk \<or> (\<exists>p \<in> set ps. p_parent p = Some cur))"
  by (induction ps arbitrary: i hk) auto

lemma wait_scan_cases:
  obtains (reap) k where "wait_scan cur ps 0 False = (Some k, True)" and "k < length ps"
      and "p_parent (ps ! k) = Some cur" and "p_state (ps ! k) = ZOMBIE"
  | (none) b where "wait_scan cur ps 0 False = (None, b)"
      and "\<And>k. k < length ps \<Longrightarrow> p_parent (ps ! k) = Some cur \<Longrightarrow> p_state (ps ! k) \<noteq> ZOMBIE"
      and "b \<longleftrightarrow> (\<exists>k < length ps. p_parent (ps ! k) = Some cur)"
proof (cases "wait_scan cur ps 0 False")
  case (Pair x b)
  show thesis
  proof (cases x)
    case None
    with Pair have *: "wait_scan cur ps 0 False = (None, b)" by simp
    then show thesis
      using wait_scan_None [of cur ps 0 False b] by (intro none [OF *]) (auto simp: set_conv_nth)
  next
    case (Some k)
    with Pair have *: "wait_scan cur ps 0 False = (Some k, b)" by simp
    from wait_scan_Some [OF this] * show thesis by (intro reap [of k]) auto
  qed
qed

text \<open>The scan of \<^verbatim>\<open>kill\<close> marks the first entry with the pid.\<close>

definition kill_mark :: "proc \<Rightarrow> proc" where
  "kill_mark p = (if p_state p = SLEEPING then p\<lparr>p_killed := True, p_state := RUNNABLE\<rparr> else p\<lparr>p_killed := True\<rparr>)"

lemma kill_scan_Some:
  "kill_scan pid ps = Some qs \<Longrightarrow>
     \<exists>k. first_idx (\<lambda>p. p_pid p = pid) ps i = Some (i + k) \<and> qs = proc_upd k kill_mark ps"
proof (induction ps arbitrary: qs i)
  case Nil
  then show ?case by simp
next
  case (Cons p ps)
  show ?case
  proof (cases "p_pid p = pid")
    case True
    with Cons.prems show ?thesis by (intro exI [of _ 0]) (auto simp: proc_upd_def kill_mark_def)
  next
    case False
    with Cons.prems obtain rs where rs: "kill_scan pid ps = Some rs" "qs = p # rs" by auto
    with Cons.IH [of rs "Suc i"] obtain k where
      "first_idx (\<lambda>p. p_pid p = pid) ps (Suc i) = Some (Suc i + k)" "rs = proc_upd k kill_mark ps" by blast
    with False rs show ?thesis by (intro exI [of _ "Suc k"]) (simp add: proc_upd_def)
  qed
qed

lemma kill_scan_None: "kill_scan pid ps = None \<longleftrightarrow> (\<forall>p \<in> set ps. p_pid p \<noteq> pid)"
  by (induction ps) auto

lemma kill_scan_eq:
  "kill_scan pid ps =
     map_option (\<lambda>k. proc_upd k kill_mark ps) (first_idx (\<lambda>p. p_pid p = pid) ps 0)"
proof (cases "kill_scan pid ps")
  case None
  then have "first_idx (\<lambda>p. p_pid p = pid) ps 0 = None" by (simp add: kill_scan_None first_idx_None)
  with None show ?thesis by simp
next
  case (Some qs)
  with kill_scan_Some [OF Some, of 0] show ?thesis by auto
qed

end
