(* ===== verification/ProcMachine.thy ===== *)
theory ProcMachine
  imports ProcTable
begin

text \<open>
  The life of processes as a state machine. A state is the process table, the process that each
  CPU runs, and whether the clock interrupt is between its two critical sections (the tick is
  counted, the accounting loop has not run yet). A step is one critical section of the code, or
  the assignments that a process makes to an entry only it uses. All interleavings of the CPUs
  are sequences of such steps. The invariants are proved for every reachable state.
\<close>

record pm =
  pm_tab :: ptab
  pm_cpu :: "nat \<Rightarrow> nat option"
  pm_tick :: bool

abbreviation procs :: "pm \<Rightarrow> proc list" where
  "procs s \<equiv> pt_procs (pm_tab s)"

abbreviation pm_upd :: "(proc list \<Rightarrow> proc list) \<Rightarrow> pm \<Rightarrow> pm" where
  "pm_upd f s \<equiv> s\<lparr>pm_tab := tab_upd f (pm_tab s)\<rparr>"

section \<open>Steps\<close>

text \<open>
  What \<^verbatim>\<open>fork\<close> writes to the new entry once the page table has been copied. Open files,
  current directory and name come from other components and are parameters.
\<close>

definition adopt :: "nat \<Rightarrow> proc \<Rightarrow> u32 \<Rightarrow> trapframe \<Rightarrow> nat option list \<Rightarrow> nat option \<Rightarrow> u8 list \<Rightarrow> proc \<Rightarrow> proc" where
  "adopt cur parent pgdir tf ofile cwd name p =
     p\<lparr>p_pgdir := pgdir, p_sz := p_sz parent, p_parent := Some cur, p_tf := Some (tf\<lparr>tf_eax := 0\<rparr>),
       p_ofile := ofile, p_cwd := cwd, p_name := name,
       p_tickets := fork_tickets parent, p_original_tickets := fork_tickets parent\<rparr>"

definition release_slot :: "nat \<Rightarrow> proc list \<Rightarrow> proc list" where
  "release_slot k = proc_upd k (\<lambda>p. p\<lparr>p_kstack := 0, p_state := UNUSED\<rparr>)"

definition mark_killed :: "nat \<Rightarrow> proc list \<Rightarrow> proc list" where
  "mark_killed k = proc_upd k (\<lambda>p. p\<lparr>p_killed := True\<rparr>)"

text \<open>
  The steps. A process acts only while a CPU runs it. \<^verbatim>\<open>nextpid\<close> is an \<^verbatim>\<open>int\<close>, so C gives
  its increment a meaning only below the largest \<^verbatim>\<open>int\<close>; the machine stops there. It also
  stops before the 32-bit tick counter wraps around, after more than a year.
\<close>

inductive pstep :: "pm \<Rightarrow> pm \<Rightarrow> bool" where
  alloc: "pm_cpu s n = Some c \<Longrightarrow> unat (pt_nextpid (pm_tab s)) < 2147483647 \<Longrightarrow>
    alloc_slot (pm_tab s) = Some (k, t) \<Longrightarrow> pstep s (s\<lparr>pm_tab := t\<rparr>)"
| alloc_fill: "k < NPROC \<Longrightarrow> p_state (procs s ! k) = EMBRYO \<Longrightarrow> p_kstack (procs s ! k) = 0 \<Longrightarrow> ks \<noteq> 0 \<Longrightarrow>
    pstep s (pm_upd (proc_upd k (alloc_init ks fr tf (pt_ticks (pm_tab s)))) s)"
| alloc_undo: "k < NPROC \<Longrightarrow> p_state (procs s ! k) = EMBRYO \<Longrightarrow> p_parent (procs s ! k) = None \<Longrightarrow>
    pstep s (pm_upd (release_slot k) s)"
| fork_adopt: "pm_cpu s n = Some c \<Longrightarrow> k < NPROC \<Longrightarrow> p_state (procs s ! k) = EMBRYO \<Longrightarrow>
    p_parent (procs s ! k) = None \<Longrightarrow> p_kstack (procs s ! k) \<noteq> 0 \<Longrightarrow>
    pstep s (pm_upd (proc_upd k (adopt c (procs s ! c) pg tf fs wd nm)) s)"
| fork_start: "k < NPROC \<Longrightarrow> p_state (procs s ! k) = EMBRYO \<Longrightarrow> p_parent (procs s ! k) \<noteq> None \<Longrightarrow>
    pstep s (pm_upd (start_mark k) s)"
| exit: "pm_cpu s n = Some c \<Longrightarrow> pt_initproc (pm_tab s) \<noteq> Some c \<Longrightarrow>
    pstep s (s\<lparr>pm_tab := exit_table c (pm_tab s), pm_cpu := (pm_cpu s)(n := None)\<rparr>)"
| wait_reap: "pm_cpu s n = Some c \<Longrightarrow> wait_scan c (procs s) 0 False = (Some k, b) \<Longrightarrow>
    pstep s (pm_upd (reap k) s)"
| wait_sleep: "pm_cpu s n = Some c \<Longrightarrow> wait_scan c (procs s) 0 False = (None, True) \<Longrightarrow>
    \<not> p_killed (procs s ! c) \<Longrightarrow>
    pstep s (s\<lparr>pm_tab := tab_upd (sleep_mark c (ChProc c)) (pm_tab s), pm_cpu := (pm_cpu s)(n := None)\<rparr>)"
| sleep: "pm_cpu s n = Some c \<Longrightarrow> (\<And>j. ch \<noteq> ChProc j) \<Longrightarrow>
    pstep s (s\<lparr>pm_tab := tab_upd (sleep_mark c ch) (pm_tab s), pm_cpu := (pm_cpu s)(n := None)\<rparr>)"
| tidy: "pm_cpu s n = Some c \<Longrightarrow> pstep s (pm_upd (sleep_tidy c) s)"
| wake: "pstep s (pm_upd (wakeup1 ch) s)"
| kill: "kill_scan pid (procs s) = Some qs \<Longrightarrow> pstep s (pm_upd (\<lambda>_. qs) s)"
| killed: "pm_cpu s n = Some c \<Longrightarrow> pstep s (pm_upd (mark_killed c) s)"
| yield: "pm_cpu s n = Some c \<Longrightarrow>
    pstep s (s\<lparr>pm_tab := tab_upd (yield_mark c) (pm_tab s), pm_cpu := (pm_cpu s)(n := None)\<rparr>)"
| dispatch: "pm_cpu s n = None \<Longrightarrow> i < NPROC \<Longrightarrow> p_state (procs s ! i) = RUNNABLE \<Longrightarrow>
    pstep s (s\<lparr>pm_tab := tab_upd (run_mark i) (pm_tab s)\<lparr>pt_seed := seed\<rparr>, pm_cpu := (pm_cpu s)(n := Some i)\<rparr>)"
| tick: "\<not> pm_tick s \<Longrightarrow> unat (pt_ticks (pm_tab s)) < 4294967294 \<Longrightarrow>
    pstep s (s\<lparr>pm_tab := tick_count (pm_tab s), pm_tick := True\<rparr>)"
| tick_acct: "pm_tick s \<Longrightarrow> pstep s (s\<lparr>pm_tab := tab_upd tick_account (pm_tab s), pm_tick := False\<rparr>)"
| settickets: "pm_cpu s n = Some c \<Longrightarrow> pstep s (pm_upd (set_tickets_mark c w) s)"
| setpolicy: "pstep s (s\<lparr>pm_tab := snd (setpolicy w (pm_tab s))\<rparr>)"

text \<open>
  Machines start when the boot CPU has run \<^verbatim>\<open>userinit\<close>: the first entry holds init, which is
  runnable, and no CPU runs a process.
\<close>

definition init_entry :: "u32 \<Rightarrow> u32 \<Rightarrow> proc" where
  "init_entry ks ticks = (alloc_init ks 0 trapframe0 ticks proc0)\<lparr>p_state := RUNNABLE, p_pid := 1\<rparr>"

definition pm_start :: "u32 \<Rightarrow> pm" where
  "pm_start ks =
     \<lparr>pm_tab = \<lparr>pt_procs = init_entry ks 0 # replicate (NPROC - 1) proc0, pt_nextpid = 2,
                pt_initproc = Some 0, pt_policy = 0, pt_seed = 1, pt_first = True, pt_ticks = 0\<rparr>,
      pm_cpu = (\<lambda>_. None), pm_tick = False\<rparr>"

inductive preach :: "pm \<Rightarrow> bool" where
  start: "ks \<noteq> 0 \<Longrightarrow> preach (pm_start ks)"
| step: "preach s \<Longrightarrow> pstep s t \<Longrightarrow> preach t"

section \<open>The invariants\<close>

definition live :: "proc \<Rightarrow> bool" where
  "live p \<longleftrightarrow> p_state p \<in> {SLEEPING, RUNNABLE, RUNNING}"

text \<open>The family: init lives, parents live, and every process but init has one.\<close>

definition family_ok :: "nat option \<Rightarrow> proc list \<Rightarrow> bool" where
  "family_ok init ps \<longleftrightarrow> length ps = NPROC
     \<and> (\<exists>r < NPROC. init = Some r \<and> live (ps ! r) \<and> p_parent (ps ! r) = None)
     \<and> (\<forall>i < NPROC. p_state (ps ! i) = UNUSED \<longrightarrow> p_parent (ps ! i) = None \<and> p_kstack (ps ! i) = 0)
     \<and> (\<forall>i < NPROC. \<forall>q. p_parent (ps ! i) = Some q \<longrightarrow>
          q < NPROC \<and> q \<noteq> i \<and> live (ps ! q) \<and> p_kstack (ps ! i) \<noteq> 0)
     \<and> (\<forall>i < NPROC. live (ps ! i) \<or> p_state (ps ! i) = ZOMBIE \<longrightarrow> init = Some i \<or> p_parent (ps ! i) \<noteq> None)"

text \<open>Waiting: a process asleep in \<^verbatim>\<open>wait\<close> has no zombie child.\<close>

definition waits_ok :: "proc list \<Rightarrow> bool" where
  "waits_ok ps \<longleftrightarrow>
     (\<forall>i < NPROC. \<forall>j. p_state (ps ! i) = SLEEPING \<and> p_chan (ps ! i) = ChProc j \<longrightarrow>
        j = i \<and> (\<forall>k < NPROC. p_parent (ps ! k) = Some i \<longrightarrow> p_state (ps ! k) \<noteq> ZOMBIE))"

text \<open>Pids: those in use are positive, below the next pid, and distinct.\<close>

definition pids_ok :: "u32 \<Rightarrow> proc list \<Rightarrow> bool" where
  "pids_ok next ps \<longleftrightarrow> 0 < unat next \<and> unat next \<le> 2147483647
     \<and> (\<forall>i < NPROC. p_state (ps ! i) \<noteq> UNUSED \<longrightarrow> 0 < unat (p_pid (ps ! i)) \<and> unat (p_pid (ps ! i)) < unat next)
     \<and> (\<forall>i < NPROC. \<forall>j < NPROC. p_state (ps ! i) \<noteq> UNUSED \<and> p_state (ps ! j) \<noteq> UNUSED \<and>
          p_pid (ps ! i) = p_pid (ps ! j) \<longrightarrow> i = j)"

text \<open>CPUs: a process is in state \<open>RUNNING\<close> exactly if one CPU runs it.\<close>

definition cpus_ok :: "(nat \<Rightarrow> nat option) \<Rightarrow> proc list \<Rightarrow> bool" where
  "cpus_ok cpu ps \<longleftrightarrow>
     (\<forall>n i. cpu n = Some i \<longrightarrow> i < NPROC \<and> p_state (ps ! i) = RUNNING)
     \<and> (\<forall>n m i. cpu n = Some i \<and> cpu m = Some i \<longrightarrow> n = m)
     \<and> (\<forall>i < NPROC. p_state (ps ! i) = RUNNING \<longrightarrow> (\<exists>n. cpu n = Some i))"

text \<open>
  Accounting: the three counters of a process sum to no more than its age in ticks, and one more
  if it was created or ended while a tick was being accounted.
\<close>

definition used_ticks :: "proc \<Rightarrow> nat" where
  "used_ticks p = unat (p_rtime p) + unat (p_stime p) + unat (p_retime p)"

definition acct_ok :: "bool \<Rightarrow> u32 \<Rightarrow> proc \<Rightarrow> bool" where
  "acct_ok pending now p \<longleftrightarrow>
     (if p_state p = ZOMBIE then
        unat (p_ctime p) \<le> unat (p_etime p) \<and> unat (p_etime p) \<le> unat now \<and>
        used_ticks p \<le> unat (p_etime p) - unat (p_ctime p) + 1
      else if p_state p = UNUSED \<or> p_kstack p = 0 then True
      else unat (p_ctime p) \<le> unat now \<and>
        used_ticks p \<le> unat now - unat (p_ctime p) + (if pending then 0 else 1))"

definition accts_ok :: "bool \<Rightarrow> u32 \<Rightarrow> proc list \<Rightarrow> bool" where
  "accts_ok pending now ps \<longleftrightarrow> unat now \<le> 4294967294 \<and> (\<forall>i < NPROC. acct_ok pending now (ps ! i))"

definition pm_inv :: "pm \<Rightarrow> bool" where
  "pm_inv s \<longleftrightarrow> family_ok (pt_initproc (pm_tab s)) (procs s) \<and> waits_ok (procs s)
     \<and> pids_ok (pt_nextpid (pm_tab s)) (procs s) \<and> cpus_ok (pm_cpu s) (procs s)
     \<and> accts_ok (pm_tick s) (pt_ticks (pm_tab s)) (procs s)"

section \<open>Operations that keep the shape of the table\<close>

text \<open>
  Most operations only move processes between the live states or change fields that the family
  and the pids do not depend on.
\<close>

definition same_shape :: "proc \<Rightarrow> proc \<Rightarrow> bool" where
  "same_shape p q \<longleftrightarrow> p_parent q = p_parent p \<and> p_kstack q = p_kstack p \<and> p_pid q = p_pid p
     \<and> (p_state q = UNUSED \<longleftrightarrow> p_state p = UNUSED) \<and> (p_state q = ZOMBIE \<longleftrightarrow> p_state p = ZOMBIE)
     \<and> (p_state q = EMBRYO \<longleftrightarrow> p_state p = EMBRYO)"

definition same_clock :: "proc \<Rightarrow> proc \<Rightarrow> bool" where
  "same_clock p q \<longleftrightarrow> p_ctime q = p_ctime p \<and> p_etime q = p_etime p \<and> used_ticks q = used_ticks p"

definition shape_kept :: "proc list \<Rightarrow> proc list \<Rightarrow> bool" where
  "shape_kept ps qs \<longleftrightarrow> length qs = length ps \<and> (\<forall>i < length ps. same_shape (ps ! i) (qs ! i))"

lemma same_shape_live: "same_shape p q \<Longrightarrow> live q = live p"
  by (cases "p_state p"; cases "p_state q") (auto simp: same_shape_def live_def)

lemma family_okI:
  assumes "length ps = NPROC" and "r < NPROC" and "init = Some r" and "live (ps ! r) \<and> p_parent (ps ! r) = None"
    and "\<And>i. i < NPROC \<Longrightarrow> p_state (ps ! i) = UNUSED \<Longrightarrow> p_parent (ps ! i) = None \<and> p_kstack (ps ! i) = 0"
    and "\<And>i q. i < NPROC \<Longrightarrow> p_parent (ps ! i) = Some q \<Longrightarrow> q < NPROC \<and> q \<noteq> i \<and> live (ps ! q) \<and> p_kstack (ps ! i) \<noteq> 0"
    and "\<And>i. i < NPROC \<Longrightarrow> live (ps ! i) \<or> p_state (ps ! i) = ZOMBIE \<Longrightarrow> init = Some i \<or> p_parent (ps ! i) \<noteq> None"
  shows "family_ok init ps"
  unfolding family_ok_def
proof (intro conjI)
  show "\<exists>r < NPROC. init = Some r \<and> live (ps ! r) \<and> p_parent (ps ! r) = None" using assms(2-4) by blast
qed (use assms(1,5-7) in blast)+

lemma family_okD:
  assumes "family_ok init ps"
  shows "length ps = NPROC" and "\<exists>r < NPROC. init = Some r \<and> live (ps ! r) \<and> p_parent (ps ! r) = None"
    and "i < NPROC \<Longrightarrow> p_state (ps ! i) = UNUSED \<Longrightarrow> p_parent (ps ! i) = None \<and> p_kstack (ps ! i) = 0"
    and "i < NPROC \<Longrightarrow> p_parent (ps ! i) = Some q \<Longrightarrow> q < NPROC \<and> q \<noteq> i \<and> live (ps ! q) \<and> p_kstack (ps ! i) \<noteq> 0"
    and "i < NPROC \<Longrightarrow> live (ps ! i) \<or> p_state (ps ! i) = ZOMBIE \<Longrightarrow> init = Some i \<or> p_parent (ps ! i) \<noteq> None"
  using assms unfolding family_ok_def by blast+

lemma family_shape:
  assumes "family_ok init ps" and "shape_kept ps qs"
  shows "family_ok init qs"
proof -
  from assms have len: "length ps = NPROC" "length qs = NPROC"
    and sh: "\<And>i. i < NPROC \<Longrightarrow> same_shape (ps ! i) (qs ! i)"
    by (auto simp: family_ok_def shape_kept_def)
  have lv: "live (qs ! i) = live (ps ! i)" if "i < NPROC" for i
    using same_shape_live [OF sh [OF that]] .
  have eq: "p_parent (qs ! i) = p_parent (ps ! i)" "p_kstack (qs ! i) = p_kstack (ps ! i)"
    "p_state (qs ! i) = UNUSED \<longleftrightarrow> p_state (ps ! i) = UNUSED"
    "p_state (qs ! i) = ZOMBIE \<longleftrightarrow> p_state (ps ! i) = ZOMBIE" if "i < NPROC" for i
    using sh [OF that] by (simp_all add: same_shape_def)
  from family_okD(2) [OF assms(1)] obtain r where r: "r < NPROC" "init = Some r" "live (ps ! r)" "p_parent (ps ! r) = None" by blast
  show ?thesis
  proof (rule family_okI [OF len(2) r(1,2)])
    show "live (qs ! r) \<and> p_parent (qs ! r) = None" using r lv eq by simp
    show "p_parent (qs ! i) = None \<and> p_kstack (qs ! i) = 0" if "i < NPROC" "p_state (qs ! i) = UNUSED" for i
      using that family_okD(3) [OF assms(1), of i] by (simp add: eq)
    show "q < NPROC \<and> q \<noteq> i \<and> live (qs ! q) \<and> p_kstack (qs ! i) \<noteq> 0" if "i < NPROC" "p_parent (qs ! i) = Some q" for i q
      using that family_okD(4) [OF assms(1), of i q] by (auto simp: eq lv)
    show "init = Some i \<or> p_parent (qs ! i) \<noteq> None" if "i < NPROC" "live (qs ! i) \<or> p_state (qs ! i) = ZOMBIE" for i
      using that family_okD(5) [OF assms(1), of i] by (simp add: eq lv)
  qed
qed

lemma pids_shape:
  assumes "pids_ok next ps" and "shape_kept ps qs" and "length ps = NPROC"
  shows "pids_ok next qs"
  using assms unfolding pids_ok_def shape_kept_def same_shape_def by auto

lemma accts_same:
  assumes "accts_ok b now ps" and "shape_kept ps qs" and "length ps = NPROC"
    and "\<And>i. i < NPROC \<Longrightarrow> same_clock (ps ! i) (qs ! i)"
  shows "accts_ok b now qs"
  using assms unfolding accts_ok_def shape_kept_def same_shape_def same_clock_def acct_ok_def by auto

text \<open>Waiting is kept if nobody starts to wait and the children are the same.\<close>

lemma waits_shape:
  assumes "waits_ok ps" and "shape_kept ps qs" and "length ps = NPROC"
    and "\<And>i j. i < NPROC \<Longrightarrow> p_state (qs ! i) = SLEEPING \<Longrightarrow> p_chan (qs ! i) = ChProc j \<Longrightarrow>
       p_state (ps ! i) = SLEEPING \<and> p_chan (ps ! i) = ChProc j"
  shows "waits_ok qs"
proof -
  have eq: "p_parent (qs ! k) = p_parent (ps ! k)" "p_state (qs ! k) = ZOMBIE \<longleftrightarrow> p_state (ps ! k) = ZOMBIE"
    if "k < NPROC" for k
    using that assms(2,3) by (simp_all add: shape_kept_def same_shape_def)
  show ?thesis
    unfolding waits_ok_def
  proof (intro allI impI)
    fix i j
    assume "i < NPROC" and "p_state (qs ! i) = SLEEPING \<and> p_chan (qs ! i) = ChProc j"
    with assms(4) [of i j] assms(1)
    have "j = i \<and> (\<forall>k < NPROC. p_parent (ps ! k) = Some i \<longrightarrow> p_state (ps ! k) \<noteq> ZOMBIE)"
      unfolding waits_ok_def by blast
    then show "j = i \<and> (\<forall>k < NPROC. p_parent (qs ! k) = Some i \<longrightarrow> p_state (qs ! k) \<noteq> ZOMBIE)"
      using eq by auto
  qed
qed

lemma shape_kept_upd:
  "same_shape (ps ! i) (f (ps ! i)) \<Longrightarrow> shape_kept ps (proc_upd i f ps)"
  by (auto simp: shape_kept_def nth_proc_upd same_shape_def)

lemma shape_kept_map:
  "(\<And>p. same_shape p (f p)) \<Longrightarrow> shape_kept ps (map f ps)"
  by (auto simp: shape_kept_def)

lemma same_shape_simps:
  "p_state p = RUNNING \<Longrightarrow> same_shape p (p\<lparr>p_chan := ch, p_state := SLEEPING\<rparr>)"
  "same_shape p (p\<lparr>p_chan := ch\<rparr>)"
  "p_state p = RUNNING \<Longrightarrow> same_shape p (p\<lparr>p_state := RUNNABLE\<rparr>)"
  "p_state p = RUNNABLE \<Longrightarrow> same_shape p (p\<lparr>p_state := RUNNING\<rparr>)"
  "same_shape p (kill_mark p)" "same_shape p (p\<lparr>p_killed := True\<rparr>)" "same_shape p (p\<lparr>p_tickets := w\<rparr>)"
  "same_shape p (woken ch p)" "same_shape p (account p)" "same_shape p p"
  by (auto simp: same_shape_def kill_mark_def)

lemma shape_kept_wakeup1: "shape_kept ps (wakeup1 ch ps)"
  by (auto simp: shape_kept_def entry_simps same_shape_simps)

lemma shape_kept_account: "shape_kept ps (tick_account ps)"
  by (auto simp: shape_kept_def entry_simps same_shape_simps)

text \<open>
  One entry \<open>i\<close> changes and keeps its shape, and the CPU map changes from \<open>cpu\<close> to \<open>cpu'\<close>.
\<close>

lemma inv_upd:
  assumes "pm_inv s"
    and "same_shape (procs s ! i) (f (procs s ! i))" and "same_clock (procs s ! i) (f (procs s ! i))"
    and "\<And>j. p_state (f (procs s ! i)) = SLEEPING \<Longrightarrow> p_chan (f (procs s ! i)) = ChProc j \<Longrightarrow>
       p_state (procs s ! i) = SLEEPING \<and> p_chan (procs s ! i) = ChProc j"
    and "cpus_ok cpu' (proc_upd i f (procs s))"
    and "pm_tab t = (pm_tab s)\<lparr>pt_procs := proc_upd i f (procs s), pt_seed := seed\<rparr>"
    and "pm_cpu t = cpu'" and "pm_tick t = pm_tick s"
  shows "pm_inv t"
proof -
  have len: "length (procs s) = NPROC" using assms(1) by (simp add: pm_inv_def family_ok_def)
  have sh: "shape_kept (procs s) (proc_upd i f (procs s))" using assms(2) by (rule shape_kept_upd)
  have "family_ok (pt_initproc (pm_tab s)) (proc_upd i f (procs s))"
    using assms(1) sh family_shape by (auto simp: pm_inv_def)
  moreover have "waits_ok (proc_upd i f (procs s))"
    using assms(1,4) len by (intro waits_shape [OF _ sh len]) (auto simp: pm_inv_def nth_proc_upd split: if_splits)
  moreover have "pids_ok (pt_nextpid (pm_tab s)) (proc_upd i f (procs s))"
    using assms(1) sh len pids_shape by (auto simp: pm_inv_def)
  moreover have "accts_ok (pm_tick s) (pt_ticks (pm_tab s)) (proc_upd i f (procs s))"
    using assms(1,3) len by (intro accts_same [OF _ sh len]) (auto simp: pm_inv_def nth_proc_upd same_clock_def)
  ultimately show ?thesis using assms(5-8) by (simp add: pm_inv_def)
qed

lemma cpus_okI:
  assumes "\<And>n i. cpu n = Some i \<Longrightarrow> i < NPROC \<and> p_state (ps ! i) = RUNNING"
    and "\<And>n m i. cpu n = Some i \<Longrightarrow> cpu m = Some i \<Longrightarrow> n = m"
    and "\<And>i. i < NPROC \<Longrightarrow> p_state (ps ! i) = RUNNING \<Longrightarrow> \<exists>n. cpu n = Some i"
  shows "cpus_ok cpu ps"
  using assms unfolding cpus_ok_def by blast

lemma cpus_okD:
  assumes "cpus_ok cpu ps"
  shows "cpu n = Some i \<Longrightarrow> i < NPROC" and "cpu n = Some i \<Longrightarrow> p_state (ps ! i) = RUNNING"
    and "cpu n = Some i \<Longrightarrow> cpu m = Some i \<Longrightarrow> n = m"
    and "i < NPROC \<Longrightarrow> p_state (ps ! i) = RUNNING \<Longrightarrow> \<exists>n. cpu n = Some i"
  using assms unfolding cpus_ok_def by blast+

lemma state_proc_upd:
  "length ps = NPROC \<Longrightarrow> j < NPROC \<Longrightarrow>
     p_state (proc_upd i f ps ! j) = (if j = i then p_state (f (ps ! i)) else p_state (ps ! j))"
  by (simp add: nth_proc_upd)

lemma cpus_states:
  assumes "cpus_ok cpu ps" and "\<And>i. i < NPROC \<Longrightarrow> (p_state (qs ! i) = RUNNING) = (p_state (ps ! i) = RUNNING)"
  shows "cpus_ok cpu qs"
  using assms by (intro cpus_okI) (auto dest: cpus_okD)

lemma cpus_leave:
  assumes "cpus_ok cpu ps" and "length ps = NPROC" and "cpu n = Some i" and "p_state (f (ps ! i)) \<noteq> RUNNING"
  shows "cpus_ok (cpu(n := None)) (proc_upd i f ps)"
proof (rule cpus_okI)
  fix m j
  assume *: "(cpu(n := None)) m = Some j"
  then have "m \<noteq> n" "cpu m = Some j" by (auto split: if_splits)
  moreover from this have "j \<noteq> i" using cpus_okD(3) [OF assms(1)] assms(3) by blast
  ultimately show "j < NPROC \<and> p_state (proc_upd i f ps ! j) = RUNNING"
    using cpus_okD(1,2) [OF assms(1)] by (simp add: proc_upd_other)
next
  fix m m' j
  assume "(cpu(n := None)) m = Some j" and "(cpu(n := None)) m' = Some j"
  then have "cpu m = Some j" "cpu m' = Some j" by (auto split: if_splits)
  then show "m = m'" by (rule cpus_okD(3) [OF assms(1)])
next
  fix j
  assume "j < NPROC" and "p_state (proc_upd i f ps ! j) = RUNNING"
  with assms have "j \<noteq> i" "p_state (ps ! j) = RUNNING" by (auto simp: state_proc_upd split: if_splits)
  with \<open>j < NPROC\<close> obtain m where "cpu m = Some j" using cpus_okD(4) [OF assms(1)] by blast
  with \<open>j \<noteq> i\<close> assms(3) show "\<exists>m. (cpu(n := None)) m = Some j" by (intro exI [of _ m]) auto
qed

lemma cpus_enter:
  assumes "cpus_ok cpu ps" and "length ps = NPROC" and "cpu n = None" and "i < NPROC"
    and "p_state (ps ! i) \<noteq> RUNNING" and "p_state (f (ps ! i)) = RUNNING"
  shows "cpus_ok (cpu(n := Some i)) (proc_upd i f ps)"
proof (rule cpus_okI)
  fix m j
  assume *: "(cpu(n := Some i)) m = Some j"
  show "j < NPROC \<and> p_state (proc_upd i f ps ! j) = RUNNING"
  proof (cases "m = n")
    case True
    with * assms(2,4,6) show ?thesis by (simp add: state_proc_upd)
  next
    case False
    with * have "cpu m = Some j" by simp
    from cpus_okD(1,2) [OF assms(1) this] assms(2,6) show ?thesis by (simp add: state_proc_upd)
  qed
next
  fix m m' j
  assume *: "(cpu(n := Some i)) m = Some j" "(cpu(n := Some i)) m' = Some j"
  have no: "cpu x \<noteq> Some i" for x using cpus_okD(2) [OF assms(1), of x i] assms(5) by blast
  show "m = m'"
  proof (cases "j = i")
    case True
    with * no [of m] no [of m'] show ?thesis by (simp split: if_splits)
  next
    case False
    with * have "cpu m = Some j" "cpu m' = Some j" by (auto split: if_splits)
    then show ?thesis by (rule cpus_okD(3) [OF assms(1)])
  qed
next
  fix j
  assume j: "j < NPROC" "p_state (proc_upd i f ps ! j) = RUNNING"
  show "\<exists>m. (cpu(n := Some i)) m = Some j"
  proof (cases "j = i")
    case True
    then show ?thesis by (intro exI [of _ n]) simp
  next
    case False
    with j assms(2) have "p_state (ps ! j) = RUNNING" by (simp add: state_proc_upd)
    with j obtain m where "cpu m = Some j" using cpus_okD(4) [OF assms(1)] by blast
    with assms(3) show ?thesis by (intro exI [of _ m]) auto
  qed
qed

section \<open>Operations on an entry that holds no live process\<close>

lemma family_entry:
  assumes fam: "family_ok init ps" and k: "k < NPROC" "\<not> live (ps ! k)"
    and un: "p_state (f (ps ! k)) = UNUSED \<Longrightarrow> p_parent (f (ps ! k)) = None \<and> p_kstack (f (ps ! k)) = 0"
    and par: "\<And>q. p_parent (f (ps ! k)) = Some q \<Longrightarrow> q < NPROC \<and> live (ps ! q) \<and> p_kstack (f (ps ! k)) \<noteq> 0"
    and lv: "live (f (ps ! k)) \<or> p_state (f (ps ! k)) = ZOMBIE \<Longrightarrow> p_parent (f (ps ! k)) \<noteq> None"
  shows "family_ok init (proc_upd k f ps)"
proof -
  note len = family_okD(1) [OF fam]
  from family_okD(2) [OF fam] obtain r where r: "r < NPROC" "init = Some r" "live (ps ! r)" "p_parent (ps ! r) = None" by blast
  have keep: "live (proc_upd k f ps ! q)" if "live (ps ! q)" for q
    using that k by (cases "q = k") (simp_all add: proc_upd_other)
  have nth: "proc_upd k f ps ! i = (if i = k then f (ps ! k) else ps ! i)" if "i < NPROC" for i
    using that len by (simp add: nth_proc_upd)
  show ?thesis
  proof (rule family_okI [OF _ r(1,2)])
    show "length (proc_upd k f ps) = NPROC" using len by simp
    have "r \<noteq> k" using k(2) r(3) by blast
    then show "live (proc_upd k f ps ! r) \<and> p_parent (proc_upd k f ps ! r) = None" using r by (simp add: proc_upd_other)
  next
    fix i
    assume i: "i < NPROC"
    show "p_state (proc_upd k f ps ! i) = UNUSED \<Longrightarrow>
        p_parent (proc_upd k f ps ! i) = None \<and> p_kstack (proc_upd k f ps ! i) = 0"
      using un family_okD(3) [OF fam i] by (simp add: nth [OF i] split: if_splits)
    show "live (proc_upd k f ps ! i) \<or> p_state (proc_upd k f ps ! i) = ZOMBIE \<Longrightarrow>
        init = Some i \<or> p_parent (proc_upd k f ps ! i) \<noteq> None"
      using lv family_okD(5) [OF fam i] by (simp add: nth [OF i] split: if_splits)
  next
    fix i q
    assume i: "i < NPROC" and q: "p_parent (proc_upd k f ps ! i) = Some q"
    then have "q < NPROC \<and> q \<noteq> i \<and> live (ps ! q) \<and> p_kstack (proc_upd k f ps ! i) \<noteq> 0"
      using k(2) par [of q] family_okD(4) [OF fam i, of q] by (auto simp: nth [OF i] split: if_splits)
    then show "q < NPROC \<and> q \<noteq> i \<and> live (proc_upd k f ps ! q) \<and> p_kstack (proc_upd k f ps ! i) \<noteq> 0"
      using keep by blast
  qed
qed

lemma waits_entry:
  assumes wt: "waits_ok ps" and len: "length ps = NPROC"
    and k: "p_state (f (ps ! k)) \<noteq> SLEEPING" "p_state (f (ps ! k)) \<noteq> ZOMBIE"
  shows "waits_ok (proc_upd k f ps)"
  unfolding waits_ok_def
proof (intro allI impI)
  fix i j
  have nth: "proc_upd k f ps ! x = (if x = k then f (ps ! k) else ps ! x)" if "x < NPROC" for x
    using that len by (simp add: nth_proc_upd)
  assume i: "i < NPROC" and "p_state (proc_upd k f ps ! i) = SLEEPING \<and> p_chan (proc_upd k f ps ! i) = ChProc j"
  with k(1) have "p_state (ps ! i) = SLEEPING \<and> p_chan (ps ! i) = ChProc j" by (simp add: nth [OF i] split: if_splits)
  with wt i have "j = i \<and> (\<forall>k < NPROC. p_parent (ps ! k) = Some i \<longrightarrow> p_state (ps ! k) \<noteq> ZOMBIE)"
    unfolding waits_ok_def by blast
  with k(2) show "j = i \<and> (\<forall>x < NPROC. p_parent (proc_upd k f ps ! x) = Some i \<longrightarrow> p_state (proc_upd k f ps ! x) \<noteq> ZOMBIE)"
    by (simp add: nth)
qed

lemma pids_okI:
  assumes "0 < unat next" and "unat next \<le> 2147483647"
    and "\<And>i. i < NPROC \<Longrightarrow> p_state (ps ! i) \<noteq> UNUSED \<Longrightarrow> 0 < unat (p_pid (ps ! i)) \<and> unat (p_pid (ps ! i)) < unat next"
    and "\<And>i j. i < NPROC \<Longrightarrow> j < NPROC \<Longrightarrow> p_state (ps ! i) \<noteq> UNUSED \<Longrightarrow> p_state (ps ! j) \<noteq> UNUSED \<Longrightarrow>
      p_pid (ps ! i) = p_pid (ps ! j) \<Longrightarrow> i = j"
  shows "pids_ok next ps"
  using assms unfolding pids_ok_def by blast

lemma pids_okD:
  assumes "pids_ok next ps"
  shows "0 < unat next" and "unat next \<le> 2147483647"
    and "i < NPROC \<Longrightarrow> p_state (ps ! i) \<noteq> UNUSED \<Longrightarrow> 0 < unat (p_pid (ps ! i)) \<and> unat (p_pid (ps ! i)) < unat next"
    and "i < NPROC \<Longrightarrow> j < NPROC \<Longrightarrow> p_state (ps ! i) \<noteq> UNUSED \<Longrightarrow> p_state (ps ! j) \<noteq> UNUSED \<Longrightarrow>
      p_pid (ps ! i) = p_pid (ps ! j) \<Longrightarrow> i = j"
  using assms unfolding pids_ok_def by blast+

lemma pids_entry:
  assumes pids: "pids_ok next ps" and len: "length ps = NPROC"
    and k: "p_state (f (ps ! k)) = UNUSED \<or> p_state (ps ! k) \<noteq> UNUSED \<and> p_pid (f (ps ! k)) = p_pid (ps ! k)"
  shows "pids_ok next (proc_upd k f ps)"
proof -
  have used: "p_state (ps ! i) \<noteq> UNUSED" and pid: "p_pid (proc_upd k f ps ! i) = p_pid (ps ! i)"
    if "i < NPROC" "p_state (proc_upd k f ps ! i) \<noteq> UNUSED" for i
    using that k len by (auto simp: nth_proc_upd split: if_splits)
  show ?thesis
    using pids_okD [OF pids] used pid by (intro pids_okI) (simp_all)
qed

lemma accts_entry:
  assumes "accts_ok b now ps" and "length ps = NPROC" and "acct_ok b now (f (ps ! k))"
  shows "accts_ok b now (proc_upd k f ps)"
  using assms unfolding accts_ok_def by (simp add: nth_proc_upd)

lemma inv_entry:
  assumes inv: "pm_inv s" and k: "k < NPROC" "\<not> live (procs s ! k)"
    and st: "p_state (f (procs s ! k)) \<in> {UNUSED, EMBRYO, RUNNABLE}"
    and un: "p_state (f (procs s ! k)) = UNUSED \<Longrightarrow> p_parent (f (procs s ! k)) = None \<and> p_kstack (f (procs s ! k)) = 0"
    and par: "\<And>q. p_parent (f (procs s ! k)) = Some q \<Longrightarrow> q < NPROC \<and> live (procs s ! q) \<and> p_kstack (f (procs s ! k)) \<noteq> 0"
    and lv: "p_state (f (procs s ! k)) = RUNNABLE \<Longrightarrow> p_parent (f (procs s ! k)) \<noteq> None"
    and pid: "p_state (f (procs s ! k)) = UNUSED \<or>
      p_state (procs s ! k) \<noteq> UNUSED \<and> p_pid (f (procs s ! k)) = p_pid (procs s ! k)"
    and acct: "acct_ok (pm_tick s) (pt_ticks (pm_tab s)) (f (procs s ! k))"
  shows "pm_inv (pm_upd (proc_upd k f) s)"
proof -
  from inv have fam: "family_ok (pt_initproc (pm_tab s)) (procs s)" and wt: "waits_ok (procs s)"
    and ids: "pids_ok (pt_nextpid (pm_tab s)) (procs s)" and cp: "cpus_ok (pm_cpu s) (procs s)"
    and ac: "accts_ok (pm_tick s) (pt_ticks (pm_tab s)) (procs s)"
    by (simp_all add: pm_inv_def)
  note len = family_okD(1) [OF fam]
  have "live (f (procs s ! k)) \<or> p_state (f (procs s ! k)) = ZOMBIE \<Longrightarrow> p_parent (f (procs s ! k)) \<noteq> None"
    using lv st by (auto simp: live_def)
  with fam k un par have "family_ok (pt_initproc (pm_tab s)) (proc_upd k f (procs s))"
    by (rule family_entry)
  moreover have "waits_ok (proc_upd k f (procs s))"
    using st by (intro waits_entry [OF wt len]) auto
  moreover have "pids_ok (pt_nextpid (pm_tab s)) (proc_upd k f (procs s))"
    using ids len pid by (rule pids_entry)
  moreover have "cpus_ok (pm_cpu s) (proc_upd k f (procs s))"
    using cp
  proof (rule cpus_states)
    fix i
    assume "i < NPROC"
    with k st len show "(p_state (proc_upd k f (procs s) ! i) = RUNNING) = (p_state (procs s ! i) = RUNNING)"
      by (auto simp: nth_proc_upd live_def)
  qed
  moreover have "accts_ok (pm_tick s) (pt_ticks (pm_tab s)) (proc_upd k f (procs s))"
    using ac len acct by (rule accts_entry)
  ultimately show ?thesis by (simp add: pm_inv_def)
qed

section \<open>Every step keeps the invariants\<close>

lemma pm_invD:
  assumes "pm_inv s"
  shows "family_ok (pt_initproc (pm_tab s)) (procs s)" and "waits_ok (procs s)"
    and "pids_ok (pt_nextpid (pm_tab s)) (procs s)" and "cpus_ok (pm_cpu s) (procs s)"
    and "accts_ok (pm_tick s) (pt_ticks (pm_tab s)) (procs s)" and "length (procs s) = NPROC"
    and "pm_cpu s n = Some c \<Longrightarrow> c < NPROC" and "pm_cpu s n = Some c \<Longrightarrow> p_state (procs s ! c) = RUNNING"
    and "i < NPROC \<Longrightarrow> acct_ok (pm_tick s) (pt_ticks (pm_tab s)) (procs s ! i)"
proof -
  from assms show 1: "family_ok (pt_initproc (pm_tab s)) (procs s)" "waits_ok (procs s)"
    "pids_ok (pt_nextpid (pm_tab s)) (procs s)" "cpus_ok (pm_cpu s) (procs s)"
    "accts_ok (pm_tick s) (pt_ticks (pm_tab s)) (procs s)"
    by (simp_all add: pm_inv_def)
  from 1(1) show "length (procs s) = NPROC" by (rule family_okD)
  show "pm_cpu s n = Some c \<Longrightarrow> c < NPROC" "pm_cpu s n = Some c \<Longrightarrow> p_state (procs s ! c) = RUNNING"
    using cpus_okD(1,2) [OF 1(4)] by blast+
  show "i < NPROC \<Longrightarrow> acct_ok (pm_tick s) (pt_ticks (pm_tab s)) (procs s ! i)"
    using 1(5) by (simp add: accts_ok_def)
qed

lemma inv_alloc:
  assumes inv: "pm_inv s" and lim: "unat (pt_nextpid (pm_tab s)) < 2147483647"
    and al: "alloc_slot (pm_tab s) = Some (k, t)"
  shows "pm_inv (s\<lparr>pm_tab := t\<rparr>)"
proof -
  let ?n = "pt_nextpid (pm_tab s)" and ?f = "\<lambda>p. p\<lparr>p_state := EMBRYO, p_pid := pt_nextpid (pm_tab s)\<rparr>"
  note D = pm_invD [OF inv] and len = pm_invD(6) [OF inv]
  from al have "first_idx (\<lambda>p. p_state p = UNUSED) (procs s) 0 = Some k"
    and t: "t = (pm_tab s)\<lparr>pt_procs := proc_upd k ?f (procs s), pt_nextpid := ?n + 1\<rparr>"
    by (auto simp: alloc_slot_def split: option.splits)
  with len have k: "k < NPROC" "p_state (procs s ! k) = UNUSED" by (auto simp: first_idx_0_Some)
  with family_okD(3) [OF D(1)] have un: "p_parent (procs s ! k) = None" "p_kstack (procs s ! k) = 0" by blast+
  have n1: "unat (?n + 1) = unat ?n + 1" using lim by (simp add: unat_add_u32)
  have "family_ok (pt_initproc (pm_tab s)) (proc_upd k ?f (procs s))"
    using D(1) k un by (intro family_entry) (simp_all add: live_def)
  moreover have "waits_ok (proc_upd k ?f (procs s))"
    using D(2) len by (rule waits_entry) simp_all
  moreover have "pids_ok (?n + 1) (proc_upd k ?f (procs s))"
  proof (rule pids_okI)
    fix i j
    assume ij: "i < NPROC" "j < NPROC" "p_state (proc_upd k ?f (procs s) ! i) \<noteq> UNUSED"
      "p_state (proc_upd k ?f (procs s) ! j) \<noteq> UNUSED" "p_pid (proc_upd k ?f (procs s) ! i) = p_pid (proc_upd k ?f (procs s) ! j)"
    then show "i = j"
      using len pids_okD(3) [OF D(3), of i] pids_okD(3) [OF D(3), of j] pids_okD(4) [OF D(3), of i j]
      by (auto simp: nth_proc_upd split: if_splits)
  next
    fix i
    assume "i < NPROC" "p_state (proc_upd k ?f (procs s) ! i) \<noteq> UNUSED"
    then show "0 < unat (p_pid (proc_upd k ?f (procs s) ! i)) \<and> unat (p_pid (proc_upd k ?f (procs s) ! i)) < unat (?n + 1)"
      using len n1 pids_okD(1) [OF D(3)] pids_okD(3) [OF D(3), of i] by (auto simp: nth_proc_upd split: if_splits)
  qed (use n1 lim in simp_all)
  moreover have "cpus_ok (pm_cpu s) (proc_upd k ?f (procs s))"
    using D(4) by (rule cpus_states) (use k len in \<open>auto simp: nth_proc_upd\<close>)
  moreover have "accts_ok (pm_tick s) (pt_ticks (pm_tab s)) (proc_upd k ?f (procs s))"
    using D(5) len by (rule accts_entry) (use un in \<open>simp add: acct_ok_def\<close>)
  ultimately show ?thesis by (simp add: pm_inv_def t)
qed

lemma inv_alloc_fill:
  assumes inv: "pm_inv s" and k: "k < NPROC" "p_state (procs s ! k) = EMBRYO" "p_kstack (procs s ! k) = 0" and "ks \<noteq> 0"
  shows "pm_inv (pm_upd (proc_upd k (alloc_init ks fr tf (pt_ticks (pm_tab s)))) s)"
proof -
  from family_okD(4) [OF pm_invD(1) [OF inv] k(1)] k(3) have "p_parent (procs s ! k) = None"
    by (cases "p_parent (procs s ! k)") auto
  with assms show ?thesis
    by (intro inv_entry) (simp_all add: live_def alloc_init_def acct_ok_def used_ticks_def)
qed

lemma inv_alloc_undo:
  assumes "pm_inv s" and "k < NPROC" "p_state (procs s ! k) = EMBRYO" "p_parent (procs s ! k) = None"
  shows "pm_inv (pm_upd (release_slot k) s)"
  unfolding release_slot_def using assms by (intro inv_entry) (simp_all add: live_def acct_ok_def)

lemma inv_fork_adopt:
  assumes inv: "pm_inv s" and c: "pm_cpu s n = Some c" and k: "k < NPROC" "p_state (procs s ! k) = EMBRYO"
    and "p_kstack (procs s ! k) \<noteq> 0"
  shows "pm_inv (pm_upd (proc_upd k (adopt c parent pg tf fs wd nm)) s)"
  using assms pm_invD(7,8) [OF inv c] pm_invD(9) [OF inv k(1)]
  by (intro inv_entry) (auto simp: live_def adopt_def acct_ok_def used_ticks_def split: if_splits)

lemma inv_fork_start:
  assumes inv: "pm_inv s" and k: "k < NPROC" "p_state (procs s ! k) = EMBRYO" "p_parent (procs s ! k) \<noteq> None"
  shows "pm_inv (pm_upd (start_mark k) s)"
  unfolding start_mark_def
  using assms family_okD(4) [OF pm_invD(1) [OF inv] k(1)] pm_invD(9) [OF inv k(1)]
  by (intro inv_entry) (auto simp: live_def acct_ok_def used_ticks_def split: if_splits)

lemma inv_wait_reap:
  assumes inv: "pm_inv s" and sc: "wait_scan c (procs s) 0 False = (Some k, b)"
  shows "pm_inv (pm_upd (reap k) s)"
  unfolding reap_def
  using wait_scan_Some [OF sc] inv pm_invD(6) [OF inv]
  by (intro inv_entry) (simp_all add: live_def acct_ok_def)

lemma inv_wake:
  assumes inv: "pm_inv s" shows "pm_inv (pm_upd (wakeup1 ch) s)"
proof -
  note D = pm_invD [OF inv] and len = pm_invD(6) [OF inv] and sh = shape_kept_wakeup1 [of "procs s" ch]
  have "waits_ok (wakeup1 ch (procs s))"
    using D(2) sh len by (rule waits_shape) (auto simp: entry_simps len woken_state split: if_splits)
  moreover have "cpus_ok (pm_cpu s) (wakeup1 ch (procs s))"
    using D(4) by (rule cpus_states) (simp add: entry_simps len)
  moreover have "accts_ok (pm_tick s) (pt_ticks (pm_tab s)) (wakeup1 ch (procs s))"
    using D(5) sh len by (rule accts_same) (simp add: entry_simps len same_clock_def used_ticks_def)
  ultimately show ?thesis
    using family_shape [OF D(1) sh] pids_shape [OF D(3) sh len] by (simp add: pm_inv_def)
qed

lemma acct_tick: "acct_ok False now p \<Longrightarrow> unat now < 4294967294 \<Longrightarrow> acct_ok True (now + 1) p"
  by (auto simp: acct_ok_def unat_add_u32 split: if_splits)

lemma inv_tick:
  assumes inv: "pm_inv s" and "\<not> pm_tick s" and lim: "unat (pt_ticks (pm_tab s)) < 4294967294"
  shows "pm_inv (s\<lparr>pm_tab := tick_count (pm_tab s), pm_tick := True\<rparr>)"
proof -
  from inv_wake [OF inv, of ChTicks] have "pm_inv (pm_upd (wakeup1 ChTicks) s)" .
  then have *: "family_ok (pt_initproc (pm_tab s)) (wakeup1 ChTicks (procs s))" "waits_ok (wakeup1 ChTicks (procs s))"
    "pids_ok (pt_nextpid (pm_tab s)) (wakeup1 ChTicks (procs s))" "cpus_ok (pm_cpu s) (wakeup1 ChTicks (procs s))"
    "accts_ok False (pt_ticks (pm_tab s)) (wakeup1 ChTicks (procs s))"
    using assms(2) by (simp_all add: pm_inv_def)
  from *(5) lim have "accts_ok True (pt_ticks (pm_tab s) + 1) (wakeup1 ChTicks (procs s))"
    by (simp add: accts_ok_def acct_tick unat_add_u32)
  with * show ?thesis by (simp add: pm_inv_def tick_count_def)
qed

lemma acct_account:
  assumes "acct_ok True now p" and "unat now \<le> 4294967294"
  shows "acct_ok False now (account p)"
proof (cases "live p \<and> p_kstack p \<noteq> 0")
  case False
  with assms show ?thesis by (cases "p_state p") (auto simp: acct_ok_def account_def live_def)
next
  case True
  with assms have "unat (p_ctime p) \<le> unat now" "used_ticks p \<le> unat now - unat (p_ctime p)"
    by (auto simp: acct_ok_def live_def split: if_splits)
  moreover from this assms(2) have "used_ticks (account p) = used_ticks p + 1"
    using True by (cases "p_state p") (auto simp: account_def live_def used_ticks_def unat_add_u32)
  ultimately show ?thesis using True by (auto simp: acct_ok_def live_def)
qed

lemma inv_tick_acct:
  assumes inv: "pm_inv s" and "pm_tick s"
  shows "pm_inv (s\<lparr>pm_tab := tab_upd tick_account (pm_tab s), pm_tick := False\<rparr>)"
proof -
  note D = pm_invD [OF inv] and len = pm_invD(6) [OF inv] and sh = shape_kept_account [of "procs s"]
  have "waits_ok (tick_account (procs s))"
    using D(2) sh len by (rule waits_shape) (simp_all add: entry_simps len)
  moreover have "cpus_ok (pm_cpu s) (tick_account (procs s))"
    using D(4) by (rule cpus_states) (simp add: entry_simps len)
  moreover have "accts_ok False (pt_ticks (pm_tab s)) (tick_account (procs s))"
    using D(5) assms(2) by (simp add: accts_ok_def entry_simps len acct_account)
  ultimately show ?thesis
    using family_shape [OF D(1) sh] pids_shape [OF D(3) sh len] by (simp add: pm_inv_def)
qed

text \<open>The steps of a running process that leave its CPU or only set fields of its own entry.\<close>

lemma inv_leave:
  assumes inv: "pm_inv s" and c: "pm_cpu s n = Some c"
    and f: "same_shape (procs s ! c) (f (procs s ! c))" "same_clock (procs s ! c) (f (procs s ! c))"
    and st: "p_state (f (procs s ! c)) \<noteq> RUNNING"
    and ch: "\<And>j. p_state (f (procs s ! c)) = SLEEPING \<Longrightarrow> p_chan (f (procs s ! c)) \<noteq> ChProc j"
  shows "pm_inv (s\<lparr>pm_tab := tab_upd (proc_upd c f) (pm_tab s), pm_cpu := (pm_cpu s)(n := None)\<rparr>)"
proof (rule inv_upd [OF inv, where i = c and f = f and seed = "pt_seed (pm_tab s)"])
  show "cpus_ok ((pm_cpu s)(n := None)) (proc_upd c f (procs s))"
    using pm_invD(4,6) [OF inv] c st by (rule cpus_leave)
qed (use f ch in simp_all)

lemma inv_own:
  assumes inv: "pm_inv s"
    and f: "same_shape (procs s ! c) (f (procs s ! c))" "same_clock (procs s ! c) (f (procs s ! c))"
    and st: "p_state (f (procs s ! c)) = p_state (procs s ! c) \<or>
      p_state (procs s ! c) = SLEEPING \<and> p_state (f (procs s ! c)) = RUNNABLE"
    and ch: "p_chan (f (procs s ! c)) = p_chan (procs s ! c) \<or> p_state (f (procs s ! c)) \<noteq> SLEEPING"
  shows "pm_inv (pm_upd (proc_upd c f) s)"
proof (rule inv_upd [OF inv, where i = c and f = f and seed = "pt_seed (pm_tab s)"])
  show "cpus_ok (pm_cpu s) (proc_upd c f (procs s))"
    using pm_invD(4) [OF inv]
  proof (rule cpus_states)
    fix i
    assume "i < NPROC"
    with st pm_invD(6) [OF inv]
    show "(p_state (proc_upd c f (procs s) ! i) = RUNNING) = (p_state (procs s ! i) = RUNNING)"
      by (auto simp: nth_proc_upd)
  qed
qed (use f st ch in auto)

lemma inv_wait_sleep:
  assumes inv: "pm_inv s" and c: "pm_cpu s n = Some c" and sc: "wait_scan c (procs s) 0 False = (None, b)"
  shows "pm_inv (s\<lparr>pm_tab := tab_upd (sleep_mark c (ChProc c)) (pm_tab s), pm_cpu := (pm_cpu s)(n := None)\<rparr>)"
proof -
  let ?f = "\<lambda>p. p\<lparr>p_chan := ChProc c, p_state := SLEEPING\<rparr>"
  note D = pm_invD [OF inv] and len = pm_invD(6) [OF inv] and run = pm_invD(7,8) [OF inv c]
  have sh: "shape_kept (procs s) (proc_upd c ?f (procs s))"
    by (rule shape_kept_upd) (simp add: same_shape_simps run)
  from sc len have nozom: "p_parent (procs s ! k) = Some c \<Longrightarrow> p_state (procs s ! k) \<noteq> ZOMBIE" if "k < NPROC" for k
    using that by (auto simp: wait_scan_None set_conv_nth)
  have "waits_ok (proc_upd c ?f (procs s))"
    unfolding waits_ok_def
  proof (intro allI impI)
    fix i j
    assume i: "i < NPROC"
      and *: "p_state (proc_upd c ?f (procs s) ! i) = SLEEPING \<and> p_chan (proc_upd c ?f (procs s) ! i) = ChProc j"
    have "j = i \<and> (\<forall>k < NPROC. p_parent (procs s ! k) = Some i \<longrightarrow> p_state (procs s ! k) \<noteq> ZOMBIE)"
    proof (cases "i = c")
      case True
      with * i len nozom show ?thesis by (simp add: nth_proc_upd)
    next
      case False
      with * i len D(2) show ?thesis unfolding waits_ok_def by (simp add: proc_upd_other)
    qed
    then show "j = i \<and> (\<forall>k < NPROC. p_parent (proc_upd c ?f (procs s) ! k) = Some i \<longrightarrow>
        p_state (proc_upd c ?f (procs s) ! k) \<noteq> ZOMBIE)"
      using len by (auto simp: nth_proc_upd)
  qed
  moreover have "cpus_ok ((pm_cpu s)(n := None)) (proc_upd c ?f (procs s))"
    using D(4) len c by (rule cpus_leave) simp
  moreover have "accts_ok (pm_tick s) (pt_ticks (pm_tab s)) (proc_upd c ?f (procs s))"
    using D(5) sh len by (rule accts_same) (simp add: nth_proc_upd len same_clock_def used_ticks_def)
  ultimately show ?thesis
    using family_shape [OF D(1) sh] pids_shape [OF D(3) sh len] by (simp add: pm_inv_def sleep_mark_def)
qed

lemma inv_kill:
  assumes inv: "pm_inv s" and k: "kill_scan pid (procs s) = Some qs"
  shows "pm_inv (pm_upd (\<lambda>_. qs) s)"
proof -
  from k obtain i where "qs = proc_upd i kill_mark (procs s)"
    by (auto simp: kill_scan_eq)
  moreover have "pm_inv (pm_upd (proc_upd i kill_mark) s)"
    using inv by (rule inv_own) (auto simp: same_shape_def same_clock_def used_ticks_def kill_mark_def)
  ultimately show ?thesis by simp
qed

lemma inv_dispatch:
  assumes inv: "pm_inv s" and "pm_cpu s n = None" and i: "i < NPROC" "p_state (procs s ! i) = RUNNABLE"
  shows "pm_inv (s\<lparr>pm_tab := tab_upd (run_mark i) (pm_tab s)\<lparr>pt_seed := seed\<rparr>, pm_cpu := (pm_cpu s)(n := Some i)\<rparr>)"
proof (rule inv_upd [OF inv, where i = i and f = "\<lambda>p. p\<lparr>p_state := RUNNING\<rparr>" and seed = seed])
  show "cpus_ok ((pm_cpu s)(n := Some i)) (proc_upd i (\<lambda>p. p\<lparr>p_state := RUNNING\<rparr>) (procs s))"
    using pm_invD(4,6) [OF inv] assms(2) i(1) by (rule cpus_enter) (use i in simp_all)
qed (use i in \<open>simp_all add: same_shape_simps same_clock_def used_ticks_def run_mark_def\<close>)

text \<open>The table after \<^verbatim>\<open>exit\<close>: the entries of the others, and the zombie.\<close>

definition exit_other :: "nat \<Rightarrow> ptab \<Rightarrow> proc \<Rightarrow> proc" where
  "exit_other c t p =
     reparented c (pt_initproc t) (\<exists>k < NPROC. p_parent (pt_procs t ! k) = Some c \<and> p_state (pt_procs t ! k) = ZOMBIE)
       (woken (proc_chan (p_parent (pt_procs t ! c))) p)"

lemma exit_table_entry:
  assumes "length (pt_procs t) = NPROC" and "j < NPROC"
  shows "pt_procs (exit_table c t) ! j =
    (if j = c then (exit_other c t (pt_procs t ! c))\<lparr>p_etime := pt_ticks t, p_state := ZOMBIE\<rparr>
     else exit_other c t (pt_procs t ! j))"
  using assms by (auto simp: exit_table_def Let_def exit_mark_def entry_simps exit_other_def cong: conj_cong)

lemma exit_other_simps:
  "p_parent (exit_other c t p) = (if p_parent p = Some c then pt_initproc t else p_parent p)"
  "p_kstack (exit_other c t p) = p_kstack p" "p_pid (exit_other c t p) = p_pid p"
  "p_state (exit_other c t p) = UNUSED \<longleftrightarrow> p_state p = UNUSED"
  "p_state (exit_other c t p) = ZOMBIE \<longleftrightarrow> p_state p = ZOMBIE"
  "p_state (exit_other c t p) = RUNNING \<longleftrightarrow> p_state p = RUNNING"
  "live (exit_other c t p) = live p"
  "p_ctime (exit_other c t p) = p_ctime p" "p_etime (exit_other c t p) = p_etime p"
  "used_ticks (exit_other c t p) = used_ticks p" "p_chan (exit_other c t p) = p_chan p"
  by (auto simp: exit_other_def reparented_def live_def used_ticks_def woken_state)

lemma exit_other_asleep:
  assumes "p_state (exit_other c t p) = SLEEPING"
  shows "p_state p = SLEEPING" and "p_chan p \<noteq> proc_chan (p_parent (pt_procs t ! c))"
    and "k < NPROC \<Longrightarrow> p_parent (pt_procs t ! k) = Some c \<Longrightarrow> p_state (pt_procs t ! k) = ZOMBIE \<Longrightarrow>
      p_chan p \<noteq> proc_chan (pt_initproc t)"
  using assms by (auto simp: exit_other_def reparented_def woken_state split: if_splits)

lemma family_exit:
  assumes fam: "family_ok (pt_initproc t) (pt_procs t)" and c: "c < NPROC" "p_state (pt_procs t ! c) = RUNNING"
    and ni: "pt_initproc t \<noteq> Some c"
  shows "family_ok (pt_initproc t) (pt_procs (exit_table c t))"
proof -
  note len = family_okD(1) [OF fam] and ent = exit_table_entry [OF family_okD(1) [OF fam]]
  from family_okD(2) [OF fam] obtain r where
    r: "r < NPROC" "pt_initproc t = Some r" "live (pt_procs t ! r)" "p_parent (pt_procs t ! r) = None" by blast
  have lv: "live (pt_procs (exit_table c t) ! q)" if "q < NPROC" "q \<noteq> c" "live (pt_procs t ! q)" for q
    using that by (simp add: ent exit_other_simps)
  have cp: "p_parent (pt_procs t ! c) \<noteq> None" using family_okD(5) [OF fam c(1)] c(2) ni by (simp add: live_def)
  have "length (pt_procs (exit_table c t)) = NPROC" using len by (simp add: exit_table_def Let_def)
  from this r(1,2) show ?thesis
  proof (rule family_okI)
    have "r \<noteq> c" using r(2) ni by blast
    with lv r show "live (pt_procs (exit_table c t) ! r) \<and> p_parent (pt_procs (exit_table c t) ! r) = None"
      by (simp add: ent exit_other_simps)
  next
    fix i
    assume i: "i < NPROC"
    show "p_state (pt_procs (exit_table c t) ! i) = UNUSED \<Longrightarrow>
        p_parent (pt_procs (exit_table c t) ! i) = None \<and> p_kstack (pt_procs (exit_table c t) ! i) = 0"
      using family_okD(3) [OF fam i] by (auto simp: ent i exit_other_simps split: if_splits)
    show "live (pt_procs (exit_table c t) ! i) \<or> p_state (pt_procs (exit_table c t) ! i) = ZOMBIE \<Longrightarrow>
        pt_initproc t = Some i \<or> p_parent (pt_procs (exit_table c t) ! i) \<noteq> None"
      using family_okD(5) [OF fam i] cp r(2) by (auto simp: ent i exit_other_simps split: if_splits)
  next
    fix i q
    assume i: "i < NPROC" and q: "p_parent (pt_procs (exit_table c t) ! i) = Some q"
    have ks: "p_kstack (pt_procs (exit_table c t) ! i) = p_kstack (pt_procs t ! i)"
      by (simp add: ent i exit_other_simps)
    show "q < NPROC \<and> q \<noteq> i \<and> live (pt_procs (exit_table c t) ! q) \<and> p_kstack (pt_procs (exit_table c t) ! i) \<noteq> 0"
    proof (cases "p_parent (pt_procs t ! i) = Some c")
      case True
      with q i r have "q = r" by (auto simp: ent exit_other_simps split: if_splits)
      moreover have "i \<noteq> r" "r \<noteq> c" using True r(2,4) ni by auto
      ultimately show ?thesis using r lv family_okD(4) [OF fam i True] ks by simp
    next
      case False
      with q i have old: "p_parent (pt_procs t ! i) = Some q" by (auto simp: ent exit_other_simps split: if_splits)
      with False have "q \<noteq> c" by blast
      with family_okD(4) [OF fam i old] lv ks show ?thesis by simp
    qed
  qed
qed

lemma waits_exit:
  assumes fam: "family_ok (pt_initproc t) (pt_procs t)" and wt: "waits_ok (pt_procs t)" and c: "c < NPROC"
  shows "waits_ok (pt_procs (exit_table c t))"
  unfolding waits_ok_def
proof (intro allI impI)
  note ent = exit_table_entry [OF family_okD(1) [OF fam]]
  fix i j
  assume i: "i < NPROC"
    and as: "p_state (pt_procs (exit_table c t) ! i) = SLEEPING \<and> p_chan (pt_procs (exit_table c t) ! i) = ChProc j"
  then have "i \<noteq> c" and sl: "p_state (exit_other c t (pt_procs t ! i)) = SLEEPING" and ch: "p_chan (pt_procs t ! i) = ChProc j"
    by (auto simp: ent exit_other_simps split: if_splits)
  note asleep = exit_other_asleep [OF sl]
  from wt i asleep(1) ch have ji: "j = i"
    and none: "\<And>k. k < NPROC \<Longrightarrow> p_parent (pt_procs t ! k) = Some i \<Longrightarrow> p_state (pt_procs t ! k) \<noteq> ZOMBIE"
    unfolding waits_ok_def by blast+
  have "p_state (pt_procs (exit_table c t) ! k) \<noteq> ZOMBIE"
    if k: "k < NPROC" and pk: "p_parent (pt_procs (exit_table c t) ! k) = Some i" for k
  proof
    assume z: "p_state (pt_procs (exit_table c t) ! k) = ZOMBIE"
    show False
    proof (cases "k = c")
      case True
      have "p_parent (pt_procs t ! c) \<noteq> Some c" using family_okD(4) [OF fam c, of c] by blast
      with True pk k have "p_parent (pt_procs t ! c) = Some i" by (simp add: ent exit_other_simps)
      with asleep(2) ch ji show False by (simp add: proc_chan_def)
    next
      case False
      with z pk k have zk: "p_state (pt_procs t ! k) = ZOMBIE"
        and par: "p_parent (pt_procs t ! k) = Some i \<or> p_parent (pt_procs t ! k) = Some c \<and> pt_initproc t = Some i"
        by (auto simp: ent exit_other_simps split: if_splits)
      with none [OF k] have "p_parent (pt_procs t ! k) = Some c" "pt_initproc t = Some i" by blast+
      with asleep(3) [OF k _ zk] ch ji show False by (simp add: proc_chan_def)
    qed
  qed
  with ji show "j = i \<and> (\<forall>k < NPROC. p_parent (pt_procs (exit_table c t) ! k) = Some i \<longrightarrow>
      p_state (pt_procs (exit_table c t) ! k) \<noteq> ZOMBIE)" by blast
qed

lemma used_ticks_exit [simp]: "used_ticks (p\<lparr>p_etime := n, p_state := st\<rparr>) = used_ticks p"
  by (simp add: used_ticks_def)

lemma cpus_exit:
  assumes "cpus_ok cpu (pt_procs t)" and len: "length (pt_procs t) = NPROC" and c: "cpu n = Some c"
  shows "cpus_ok (cpu(n := None)) (pt_procs (exit_table c t))"
proof -
  let ?ps = "reparent c (pt_initproc t) (wakeup1 (proc_chan (p_parent (pt_procs t ! c))) (pt_procs t))"
  have "?ps ! i = exit_other c t (pt_procs t ! i)" if "i < NPROC" for i
    using that len by (simp add: entry_simps exit_other_def cong: conj_cong)
  with assms(1) have "cpus_ok cpu ?ps" by (intro cpus_states [OF assms(1)]) (simp add: exit_other_simps)
  from cpus_leave [OF this _ c, of "\<lambda>p. p\<lparr>p_etime := pt_ticks t, p_state := ZOMBIE\<rparr>"] len
  show ?thesis by (simp add: exit_table_def Let_def exit_mark_def)
qed

lemma inv_exit:
  assumes inv: "pm_inv s" and c: "pm_cpu s n = Some c" and ni: "pt_initproc (pm_tab s) \<noteq> Some c"
  shows "pm_inv (s\<lparr>pm_tab := exit_table c (pm_tab s), pm_cpu := (pm_cpu s)(n := None)\<rparr>)"
proof -
  note D = pm_invD [OF inv] and len = pm_invD(6) [OF inv] and run = pm_invD(7,8) [OF inv c]
  note ent = exit_table_entry [OF len, of _ c]
  let ?qs = "pt_procs (exit_table c (pm_tab s))"
  have "pids_ok (pt_nextpid (pm_tab s)) ?qs"
  proof -
    have u: "p_state (?qs ! i) = UNUSED \<longleftrightarrow> p_state (procs s ! i) = UNUSED"
      and pid: "p_pid (?qs ! i) = p_pid (procs s ! i)" if "i < NPROC" for i
      using that run by (auto simp: ent exit_other_simps)
    show ?thesis using pids_okD [OF D(3)] by (intro pids_okI) (simp_all add: u pid)
  qed
  moreover have "accts_ok (pm_tick s) (pt_ticks (pm_tab s)) ?qs"
  proof -
    have "p_kstack (procs s ! c) \<noteq> 0"
      using family_okD(4,5) [OF D(1) run(1)] run(2) ni by (auto simp: live_def)
    then have "acct_ok (pm_tick s) (pt_ticks (pm_tab s)) (?qs ! i)" if "i < NPROC" for i
      using that run D(9) [OF that] by (auto simp: ent acct_ok_def exit_other_simps split: if_splits)
    with D(5) show ?thesis by (simp add: accts_ok_def)
  qed
  moreover have "pt_initproc (exit_table c (pm_tab s)) = pt_initproc (pm_tab s)"
    "pt_nextpid (exit_table c (pm_tab s)) = pt_nextpid (pm_tab s)"
    "pt_ticks (exit_table c (pm_tab s)) = pt_ticks (pm_tab s)"
    by (simp_all add: exit_table_def Let_def)
  ultimately show ?thesis
    using family_exit [OF D(1) run ni] waits_exit [OF D(1,2) run(1)] cpus_exit [OF D(4) len c]
    by (simp add: pm_inv_def)
qed

lemmas clock_shape_simps = same_shape_simps same_clock_def used_ticks_def

lemma pm_inv_step:
  assumes inv: "pm_inv s" and st: "pstep s t"
  shows "pm_inv t"
  using st
proof cases
  case (alloc n c k t')
  with inv show ?thesis by (simp add: inv_alloc)
next
  case (alloc_fill k ks fr tf)
  with inv show ?thesis by (simp add: inv_alloc_fill)
next
  case (alloc_undo k)
  with inv show ?thesis by (simp add: inv_alloc_undo)
next
  case (fork_adopt n c k pg tf fs wd nm)
  with inv show ?thesis by (simp add: inv_fork_adopt)
next
  case (fork_start k)
  with inv show ?thesis by (simp add: inv_fork_start)
next
  case (exit n c)
  with inv show ?thesis by (simp add: inv_exit)
next
  case (wait_reap n c k b)
  with inv show ?thesis by (simp add: inv_wait_reap)
next
  case (wait_sleep n c)
  with inv show ?thesis by (simp add: inv_wait_sleep)
next
  case (sleep n c ch)
  from pm_invD(8) [OF inv sleep(2)] sleep(2,3) show ?thesis
    unfolding sleep(1) sleep_mark_def by (intro inv_leave [OF inv]) (simp_all add: clock_shape_simps)
next
  case (tidy n c)
  from pm_invD(8) [OF inv tidy(2)] show ?thesis
    unfolding tidy(1) sleep_tidy_def by (intro inv_own [OF inv]) (simp_all add: clock_shape_simps)
next
  case (wake ch)
  with inv show ?thesis by (simp add: inv_wake)
next
  case (kill pid qs)
  with inv show ?thesis by (simp add: inv_kill)
next
  case (killed n c)
  show ?thesis
    unfolding killed(1) mark_killed_def by (rule inv_own [OF inv]) (simp_all add: clock_shape_simps)
next
  case (yield n c)
  from pm_invD(8) [OF inv yield(2)] yield(2) show ?thesis
    unfolding yield(1) yield_mark_def by (intro inv_leave [OF inv]) (simp_all add: clock_shape_simps)
next
  case (dispatch n i seed)
  with inv show ?thesis by (simp add: inv_dispatch)
next
  case tick
  with inv show ?thesis by (simp add: inv_tick)
next
  case tick_acct
  with inv show ?thesis by (simp add: inv_tick_acct)
next
  case (settickets n c w)
  show ?thesis
    unfolding settickets(1) set_tickets_mark_def by (rule inv_own [OF inv]) (simp_all add: clock_shape_simps)
next
  case (setpolicy w)
  with inv show ?thesis by (simp add: pm_inv_def setpolicy_def)
qed

lemma proc0_simps [simp]:
  "p_state proc0 = UNUSED" "p_parent proc0 = None" "p_kstack proc0 = 0" "p_pid proc0 = 0" "p_killed proc0 = False"
  by (simp_all add: proc0_def)

lemma pm_inv_start:
  assumes "ks \<noteq> 0" shows "pm_inv (pm_start ks)"
proof -
  have ent: "procs (pm_start ks) ! i = (if i = 0 then init_entry ks 0 else proc0)" if "i < NPROC" for i
    using that by (auto simp: pm_start_def nth_Cons')
  have i0: "p_state (init_entry ks 0) = RUNNABLE" "p_parent (init_entry ks 0) = None"
    "p_kstack (init_entry ks 0) = ks" "p_pid (init_entry ks 0) = 1" "used_ticks (init_entry ks 0) = 0"
    "p_ctime (init_entry ks 0) = 0"
    by (simp_all add: init_entry_def alloc_init_def used_ticks_def)
  have N: "0 < NPROC" by (simp add: NPROC_def)
  have len: "length (procs (pm_start ks)) = NPROC" using N by (simp add: pm_start_def)
  have "family_ok (Some 0) (procs (pm_start ks))"
    using len N by (rule family_okI) (auto simp: N ent i0 live_def split: if_splits)
  moreover have "waits_ok (procs (pm_start ks))" by (simp add: waits_ok_def ent i0)
  moreover have "pids_ok 2 (procs (pm_start ks))"
    by (rule pids_okI) (simp_all add: ent i0 split: if_splits)
  moreover have "cpus_ok (\<lambda>_. None) (procs (pm_start ks))" by (simp add: cpus_ok_def ent i0)
  moreover have "accts_ok False 0 (procs (pm_start ks))"
    using assms by (simp add: accts_ok_def acct_ok_def ent i0)
  ultimately show ?thesis by (simp add: pm_inv_def pm_start_def)
qed

lemma preach_inv: "preach s \<Longrightarrow> pm_inv s"
  by (induction rule: preach.induct) (auto intro: pm_inv_start pm_inv_step)

section \<open>A run\<close>

text \<open>
  A run for the examples: init runs on CPU 0, forks a child and waits; the child runs on CPU 0 for
  a tick and exits.
\<close>

definition ex_pm :: "proc \<Rightarrow> proc \<Rightarrow> u32 \<Rightarrow> nat option \<Rightarrow> u32 \<Rightarrow> bool \<Rightarrow> pm" where
  "ex_pm p q next c ticks pending =
     \<lparr>pm_tab = \<lparr>pt_procs = p # q # replicate 62 proc0, pt_nextpid = next, pt_initproc = Some 0,
                pt_policy = 0, pt_seed = 1, pt_first = True, pt_ticks = ticks\<rparr>,
      pm_cpu = (\<lambda>_. None)(0 := c), pm_tick = pending\<rparr>"

definition ex_init :: "procstate \<Rightarrow> chan \<Rightarrow> u32 \<Rightarrow> proc" where
  "ex_init st ch slept = (init_entry 4096 0)\<lparr>p_state := st, p_chan := ch, p_stime := slept\<rparr>"

definition ex_child :: "procstate \<Rightarrow> u32 \<Rightarrow> u32 \<Rightarrow> proc" where
  "ex_child st rt ended =
     (adopt 0 (ex_init RUNNING ChNull 0) 8192 trapframe0 (replicate NOFILE None) None (replicate 16 0)
       (alloc_init 12288 0 trapframe0 0 (proc0\<lparr>p_state := EMBRYO, p_pid := 2\<rparr>)))
     \<lparr>p_state := st, p_rtime := rt, p_etime := ended\<rparr>"

definition ex_waiting :: pm where
  "ex_waiting = ex_pm (ex_init SLEEPING (ChProc 0) 0) (ex_child RUNNABLE 0 0) 3 None 0 False"

definition ex_running :: pm where
  "ex_running = ex_pm (ex_init SLEEPING (ChProc 0) 0) (ex_child RUNNING 0 0) 3 (Some 1) 0 False"

definition ex_exited :: pm where
  "ex_exited = ex_pm (ex_init RUNNABLE (ChProc 0) 1) (ex_child ZOMBIE 1 1) 3 None 1 False"

lemmas ex_defs = ex_pm_def ex_init_def ex_child_def init_entry_def alloc_init_def adopt_def fork_tickets_def

lemma replicate_63: "replicate 63 x = x # replicate 62 x"
  by (simp add: numeral_eq_Suc)

lemma ex_start: "pm_start 4096 = ex_pm (ex_init RUNNABLE ChNull 0) proc0 2 None 0 False"
  by (simp add: pm_start_def ex_defs NPROC_def replicate_63 proc0_def fun_upd_idem)

lemma ex_reach_fork:
  "preach (ex_pm (ex_init RUNNING ChNull 0) (ex_child RUNNABLE 0 0) 3 (Some 0) 0 False)"
proof -
  let ?i = "ex_init RUNNING ChNull 0"
  have "preach (ex_pm (ex_init RUNNABLE ChNull 0) proc0 2 None 0 False)"
    using preach.start [of 4096] by (simp add: ex_start)
  moreover have "pstep (ex_pm (ex_init RUNNABLE ChNull 0) proc0 2 None 0 False) (ex_pm ?i proc0 2 (Some 0) 0 False)"
    using pstep.dispatch [of "ex_pm (ex_init RUNNABLE ChNull 0) proc0 2 None 0 False" 0 0 1]
    by (simp add: ex_defs proc0_def run_mark_def proc_upd_def NPROC_def)
  moreover have "pstep (ex_pm ?i proc0 2 (Some 0) 0 False)
      (ex_pm ?i (proc0\<lparr>p_state := EMBRYO, p_pid := 2\<rparr>) 3 (Some 0) 0 False)"
    using pstep.alloc [of "ex_pm ?i proc0 2 (Some 0) 0 False" 0 0 1]
    by (simp add: ex_defs proc0_def alloc_slot_def proc_upd_def)
  moreover have "pstep (ex_pm ?i (proc0\<lparr>p_state := EMBRYO, p_pid := 2\<rparr>) 3 (Some 0) 0 False)
      (ex_pm ?i (alloc_init 12288 0 trapframe0 0 (proc0\<lparr>p_state := EMBRYO, p_pid := 2\<rparr>)) 3 (Some 0) 0 False)"
    using pstep.alloc_fill [of 1 "ex_pm ?i (proc0\<lparr>p_state := EMBRYO, p_pid := 2\<rparr>) 3 (Some 0) 0 False" 12288 0 trapframe0]
    by (simp add: ex_pm_def proc0_def alloc_init_def proc_upd_def NPROC_def)
  moreover have "pstep (ex_pm ?i (alloc_init 12288 0 trapframe0 0 (proc0\<lparr>p_state := EMBRYO, p_pid := 2\<rparr>)) 3 (Some 0) 0 False)
      (ex_pm ?i (ex_child EMBRYO 0 0) 3 (Some 0) 0 False)"
    using pstep.fork_adopt [of "ex_pm ?i (alloc_init 12288 0 trapframe0 0 (proc0\<lparr>p_state := EMBRYO, p_pid := 2\<rparr>)) 3 (Some 0) 0 False"
      0 0 1 8192 trapframe0 "replicate NOFILE None" None "replicate 16 0"]
    by (simp add: ex_defs proc0_def proc_upd_def NPROC_def)
  moreover have "pstep (ex_pm ?i (ex_child EMBRYO 0 0) 3 (Some 0) 0 False) (ex_pm ?i (ex_child RUNNABLE 0 0) 3 (Some 0) 0 False)"
    using pstep.fork_start [of 1 "ex_pm ?i (ex_child EMBRYO 0 0) 3 (Some 0) 0 False"]
    by (simp add: ex_defs proc0_def start_mark_def proc_upd_def NPROC_def)
  ultimately show ?thesis by (meson preach.step)
qed
lemma ex_reach_waiting: "preach ex_waiting"
  unfolding ex_waiting_def
proof (rule preach.step [OF ex_reach_fork])
  show "pstep (ex_pm (ex_init RUNNING ChNull 0) (ex_child RUNNABLE 0 0) 3 (Some 0) 0 False)
      (ex_pm (ex_init SLEEPING (ChProc 0) 0) (ex_child RUNNABLE 0 0) 3 None 0 False)"
    using pstep.wait_sleep [of "ex_pm (ex_init RUNNING ChNull 0) (ex_child RUNNABLE 0 0) 3 (Some 0) 0 False" 0 0]
    by (simp add: ex_defs proc0_def sleep_mark_def proc_upd_def wait_scan_None)
qed

lemma ex_reach_running: "preach ex_running"
  unfolding ex_running_def
proof (rule preach.step [OF ex_reach_waiting])
  show "pstep ex_waiting (ex_pm (ex_init SLEEPING (ChProc 0) 0) (ex_child RUNNING 0 0) 3 (Some 1) 0 False)"
    using pstep.dispatch [of ex_waiting 0 1 1]
    by (simp add: ex_waiting_def ex_defs proc0_def run_mark_def proc_upd_def NPROC_def)
qed

lemma reparent_none:
  assumes "\<forall>p \<in> set ps. p_parent p \<noteq> Some cur"
  shows "reparent cur init ps = ps"
proof -
  have "p_parent (ps ! i) \<noteq> Some cur" if "i < length ps" for i using assms that by (simp add: nth_mem)
  then show ?thesis by (intro nth_equalityI) (auto simp: entry_simps reparented_def)
qed

lemma ex_reach_exited: "preach ex_exited"
proof -
  let ?s = "ex_pm (ex_init SLEEPING (ChProc 0) 0) (ex_child RUNNING 0 0) 3 (Some 1) 1 True"
  let ?t = "ex_pm (ex_init SLEEPING (ChProc 0) 1) (ex_child RUNNING 1 0) 3 (Some 1) 1 False"
  have "pstep ex_running ?s"
    using pstep.tick [of ex_running]
    by (simp add: ex_running_def ex_defs proc0_def tick_count_def wakeup1_def)
  moreover have "pstep ?s ?t"
    using pstep.tick_acct [of ?s] by (simp add: ex_defs proc0_def tick_account_def account_def)
  moreover have "pstep ?t ex_exited"
  proof -
    have "exit_table 1 (pm_tab ?t) = pm_tab ex_exited"
      by (simp add: ex_exited_def ex_defs proc0_def exit_table_def reparent_none wakeup1_def proc_chan_def exit_mark_def proc_upd_def)
    then show ?thesis using pstep.exit [of ?t 0 1] by (simp add: ex_exited_def ex_pm_def)
  qed
  ultimately show ?thesis using ex_reach_running by (meson preach.step)
qed

section \<open>Properties of every reachable state\<close>

text \<open>
  C8: Wakeups for \<^verbatim>\<open>wait\<close> are not lost. In every reachable state, on any number of CPUs and under
  any interleaving of forks, exits, waits, kills, wakeups and clock interrupts, a process that sleeps
  in \<^verbatim>\<open>wait\<close> (on its own entry as channel) has no zombie child: its scan of the table would still
  find nothing to collect.
\<close>
theorem wait_no_lost_wakeup:
  assumes "preach s" and "i < NPROC"
    and "p_state (procs s ! i) = SLEEPING" and "p_chan (procs s ! i) = ChProc i"
  shows "fst (wait_scan i (procs s) 0 False) = None"
proof (cases rule: wait_scan_cases [of i "procs s"])
  case (reap k)
  note inv = preach_inv [OF assms(1)]
  from pm_invD(2) [OF inv] assms(2-4) have "\<forall>k < NPROC. p_parent (procs s ! k) = Some i \<longrightarrow> p_state (procs s ! k) \<noteq> ZOMBIE"
    unfolding waits_ok_def by blast
  with reap pm_invD(6) [OF inv] show ?thesis by auto
qed simp

theorem wait_no_lost_wakeup_witness:
  "p_state (procs ex_waiting ! 0) = SLEEPING \<and> fst (wait_scan 0 (procs ex_waiting) 0 False) = None"
proof -
  have "p_state (procs ex_waiting ! 0) = SLEEPING" "p_chan (procs ex_waiting ! 0) = ChProc 0"
    by (simp_all add: ex_waiting_def ex_defs)
  with wait_no_lost_wakeup [OF ex_reach_waiting, of 0] show ?thesis by (simp add: NPROC_def)
qed

text \<open>
  C9: No process is abandoned. In every reachable state, every process other than init that has started (zombies included)
  has a parent that is alive, so that some process can always collect it, and init is alive as long as there is such a process; in particular
  \<^verbatim>\<open>exit\<close> hands all children over.
\<close>
theorem parents_alive:
  assumes "preach s" and "i < NPROC" and "live (procs s ! i) \<or> p_state (procs s ! i) = ZOMBIE"
    and "pt_initproc (pm_tab s) \<noteq> Some i"
  shows "\<exists>r q. pt_initproc (pm_tab s) = Some r \<and> live (procs s ! r) \<and>
    p_parent (procs s ! i) = Some q \<and> q < NPROC \<and> q \<noteq> i \<and> live (procs s ! q)"
proof -
  note fam = pm_invD(1) [OF preach_inv [OF assms(1)]]
  from family_okD(5) [OF fam assms(2,3)] assms(4) obtain q where q: "p_parent (procs s ! i) = Some q" by auto
  from family_okD(2) [OF fam] family_okD(4) [OF fam assms(2) q] q show ?thesis by blast
qed

theorem parents_alive_witness:
  "p_state (procs ex_exited ! 1) = ZOMBIE \<and> (\<exists>q. p_parent (procs ex_exited ! 1) = Some q \<and> live (procs ex_exited ! q))"
proof -
  have "p_state (procs ex_exited ! 1) = ZOMBIE" "pt_initproc (pm_tab ex_exited) \<noteq> Some 1"
    by (simp_all add: ex_exited_def ex_defs)
  with parents_alive [OF ex_reach_exited, of 1] show ?thesis by (auto simp: NPROC_def)
qed

text \<open>
  C10: Pids identify processes. In every reachable state two entries in use with the same pid are the
  same entry, so \<^verbatim>\<open>kill\<close> on the pid of a process marks exactly that process among those in use.
\<close>
theorem pids_unique:
  assumes "preach s" and "i < NPROC" and "j < NPROC"
    and "p_state (procs s ! i) \<noteq> UNUSED" and "p_state (procs s ! j) \<noteq> UNUSED" and "i \<noteq> j"
  shows "p_pid (procs s ! i) \<noteq> p_pid (procs s ! j)"
  using pids_okD(4) [OF pm_invD(3) [OF preach_inv [OF assms(1)]]] assms by blast

theorem pids_unique_witness: "p_pid (procs ex_exited ! 0) \<noteq> p_pid (procs ex_exited ! 1)"
  by (rule pids_unique [OF ex_reach_exited]) (simp_all add: NPROC_def ex_exited_def ex_defs)

text \<open>
  C11: A process runs on at most one CPU. In every reachable state the CPUs run distinct processes,
  and the processes in state \<open>RUNNING\<close> are exactly those that some CPU runs.
\<close>
theorem running_on_one_cpu:
  assumes "preach s" and "i < NPROC"
  shows "p_state (procs s ! i) = RUNNING \<longleftrightarrow> (\<exists>!n. pm_cpu s n = Some i)"
proof -
  note cp = cpus_okD [OF pm_invD(4) [OF preach_inv [OF assms(1)]]]
  show ?thesis using cp(2) [of _ i] cp(3) [of _ i] cp(4) [OF assms(2)] by blast
qed

theorem running_on_one_cpu_witness: "\<exists>!n. pm_cpu ex_running n = Some 1"
proof -
  have "p_state (procs ex_running ! 1) = RUNNING" by (simp add: ex_running_def ex_defs)
  with running_on_one_cpu [OF ex_reach_running, of 1] show ?thesis by (simp add: NPROC_def)
qed

end
