(* ===== verification/Spinlock.thy ===== *)
theory Spinlock
  imports Xv6_Types
begin

text \<open>
  Mutual exclusion on one CPU and between CPUs (\<^verbatim>\<open>spinlock.c\<close>, and \<^verbatim>\<open>mycpu\<close>, \<^verbatim>\<open>cpuid\<close> and
  \<^verbatim>\<open>myproc\<close> of \<^verbatim>\<open>proc.c\<close>). The first part is the code as executed by one CPU, with every
  \<^verbatim>\<open>panic\<close> a branch; the second part splits \<^verbatim>\<open>acquire\<close> and \<^verbatim>\<open>release\<close> into their atomic
  memory accesses and lets any number of CPUs interleave.
\<close>

section \<open>The operations\<close>

definition initlock :: "lockid \<Rightarrow> string \<Rightarrow> (sync, unit) op" where
  "initlock lk name =
     modM (\<lambda>y. y\<lparr>locks := (locks y)(lk := \<lparr>lk_locked = 0, lk_name = name, lk_cpu = None\<rparr>)\<rparr>)"

text \<open>The interrupt flag of the executing CPU, and the \<^verbatim>\<open>cli\<close> and \<^verbatim>\<open>sti\<close> instructions.\<close>

definition readeflags :: "sync \<Rightarrow> bool" where
  "readeflags y = hw_if y (hw_lapicid y)"

definition cli :: "sync \<Rightarrow> sync" where
  "cli y = y\<lparr>hw_if := (hw_if y)(hw_lapicid y := False)\<rparr>"

definition sti :: "sync \<Rightarrow> sync" where
  "sti y = y\<lparr>hw_if := (hw_if y)(hw_lapicid y := True)\<rparr>"

definition cpu_upd :: "nat \<Rightarrow> (cpu \<Rightarrow> cpu) \<Rightarrow> sync \<Rightarrow> sync" where
  "cpu_upd i f y = y\<lparr>cpus := (cpus y)[i := f (cpus y ! i)]\<rparr>"

definition find_cpu :: "sync \<Rightarrow> nat option" where
  "find_cpu y = first_idx (\<lambda>c. c_apicid c = hw_lapicid y) (take (ncpu y) (cpus y)) 0"

definition mycpu :: "(sync, nat) op" where
  "mycpu y =
     (if readeflags y then Inl (Panic (''mycpu called with interrupts enabled'' @ [CHR 0x0A]))
      else case find_cpu y of
          Some i \<Rightarrow> Inr (i, y)
        | None \<Rightarrow> Inl (Panic (''unknown apicid'' @ [CHR 0x0A])))"

definition cpuid :: "(sync, nat) op" where
  "cpuid = mycpu"

definition pushcli :: "(sync, unit) op" where
  "pushcli =
     bindM (getM readeflags) (\<lambda>eflags.
     bindM (modM cli) (\<lambda>_.
     bindM mycpu (\<lambda>i.
     bindM (getM (\<lambda>y. c_ncli (cpus y ! i))) (\<lambda>n.
     bindM (modM (cpu_upd i (\<lambda>c. c\<lparr>c_ncli := n + 1\<rparr>))) (\<lambda>_.
     if n = 0
     then bindM mycpu (\<lambda>j. modM (cpu_upd j (\<lambda>c. c\<lparr>c_intena := eflags\<rparr>)))
     else retM ())))))"

definition popcli :: "(sync, unit) op" where
  "popcli =
     bindM (getM readeflags) (\<lambda>eflags.
     if eflags then failM (Panic ''popcli - interruptible'')
     else
     bindM mycpu (\<lambda>i.
     bindM (modM (cpu_upd i (\<lambda>c. c\<lparr>c_ncli := c_ncli c - 1\<rparr>))) (\<lambda>_.
     bindM (getM (\<lambda>y. cpus y ! i)) (\<lambda>c.
     if c_ncli c < 0 then failM (Panic ''popcli'')
     else if c_ncli c = 0 \<and> c_intena c then modM sti
     else retM ()))))"

definition holding :: "lockid \<Rightarrow> (sync, bool) op" where
  "holding lk =
     bindM pushcli (\<lambda>_.
     bindM (getM (\<lambda>y. locks y lk)) (\<lambda>l.
     bindM (if lk_locked l \<noteq> 0 then bindM mycpu (\<lambda>i. retM (lk_cpu l = Some i)) else retM False) (\<lambda>r.
     bindM popcli (\<lambda>_. retM r))))"

definition lock_upd :: "lockid \<Rightarrow> (spinlock \<Rightarrow> spinlock) \<Rightarrow> sync \<Rightarrow> sync" where
  "lock_upd lk f y = y\<lparr>locks := (locks y)(lk := f (locks y lk))\<rparr>"

definition xchg_locked :: "lockid \<Rightarrow> u32 \<Rightarrow> (sync, u32) op" where
  "xchg_locked lk v =
     bindM (getM (\<lambda>y. lk_locked (locks y lk))) (\<lambda>old.
     bindM (modM (lock_upd lk (\<lambda>l. l\<lparr>lk_locked := v\<rparr>))) (\<lambda>_. retM old))"

definition acquire :: "lockid \<Rightarrow> (sync, unit) op" where
  "acquire lk =
     bindM pushcli (\<lambda>_.
     bindM (holding lk) (\<lambda>h.
     if h then failM (Panic ''acquire'')
     else
     bindM (xchg_locked lk 1) (\<lambda>old.
     if old \<noteq> 0 then failM (Spins lk)
     else
     bindM mycpu (\<lambda>i. modM (lock_upd lk (\<lambda>l. l\<lparr>lk_cpu := Some i\<rparr>))))))"

definition release :: "lockid \<Rightarrow> (sync, unit) op" where
  "release lk =
     bindM (holding lk) (\<lambda>h.
     if \<not> h then failM (Panic ''release'')
     else
     bindM (modM (lock_upd lk (\<lambda>l. l\<lparr>lk_cpu := None\<rparr>))) (\<lambda>_.
     bindM (xchg_locked lk 0) (\<lambda>_. popcli)))"

definition myproc :: "(sync, nat option) op" where
  "myproc =
     bindM pushcli (\<lambda>_.
     bindM mycpu (\<lambda>i.
     bindM (getM (\<lambda>y. c_proc (cpus y ! i))) (\<lambda>p.
     bindM popcli (\<lambda>_. retM p))))"

text \<open>
  A critical section: \<^verbatim>\<open>acquire(lk)\<close>, the body, \<^verbatim>\<open>release(lk)\<close>. Kernel functions that release
  the lock on each of their return paths are written with it.
\<close>

definition with_lock :: "lockid \<Rightarrow> 'a kop \<Rightarrow> 'a kop" where
  "with_lock lk body =
     bindM (liftS (acquire lk)) (\<lambda>_. bindM body (\<lambda>r. bindM (liftS (release lk)) (\<lambda>_. retM r)))"

section \<open>The locking discipline\<close>

text \<open>
  \<open>calm y\<close>: the executing CPU is known; with no lock held its saved flag \<^verbatim>\<open>intena\<close> agrees with
  the interrupt flag (as it does after any \<^verbatim>\<open>pushcli\<close>/\<^verbatim>\<open>popcli\<close> pair), and with a lock held
  interrupts are off. \<open>quiet y\<close>: moreover no lock is held anywhere.
\<close>

definition calm :: "sync \<Rightarrow> bool" where
  "calm y \<longleftrightarrow>
     (case find_cpu y of
        None \<Rightarrow> False
      | Some i \<Rightarrow>
          0 \<le> c_ncli (cpus y ! i) \<and>
          (c_ncli (cpus y ! i) = 0 \<longrightarrow> c_intena (cpus y ! i) = readeflags y) \<and>
          (0 < c_ncli (cpus y ! i) \<longrightarrow> \<not> readeflags y))"

definition lock_free :: "lockid \<Rightarrow> sync \<Rightarrow> bool" where
  "lock_free lk y \<longleftrightarrow> lk_locked (locks y lk) = 0 \<and> lk_cpu (locks y lk) = None"

definition quiet :: "sync \<Rightarrow> bool" where
  "quiet y \<longleftrightarrow> calm y \<and> (\<forall>lk. lock_free lk y)"

text \<open>The state inside a critical section entered from \<open>y\<close>.\<close>

definition pushed :: "sync \<Rightarrow> sync" where
  "pushed y = cpu_upd (the (find_cpu y)) (\<lambda>c. c\<lparr>c_ncli := c_ncli c + 1\<rparr>) (cli y)"

definition acquired :: "lockid \<Rightarrow> sync \<Rightarrow> sync" where
  "acquired lk y =
     lock_upd lk (\<lambda>l. l\<lparr>lk_locked := 1, lk_cpu := find_cpu y\<rparr>) (pushed y)"

lemma find_cpu_lt: "find_cpu y = Some i \<Longrightarrow> i < length (cpus y)"
  by (auto simp: find_cpu_def first_idx_0_Some)

lemma find_cpu_ncli [simp]:
  assumes "\<And>c. c_apicid (f c) = c_apicid c"
  shows "find_cpu (cpu_upd i f y) = find_cpu y"
proof -
  have *: "first_idx (\<lambda>c. c_apicid c = a) (take n (cs[i := f (cs ! i)])) k =
      first_idx (\<lambda>c. c_apicid c = a) (take n cs) k" for a n cs k
  proof (induction cs arbitrary: n i k)
    case Nil
    then show ?case by simp
  next
    case (Cons c cs)
    then show ?case
      using assms by (cases i; cases n) (auto simp: take_Cons')
  qed
  show ?thesis by (simp add: find_cpu_def cpu_upd_def *)
qed

lemma find_cpu_hw [simp]: "find_cpu (cli y) = find_cpu y" "find_cpu (sti y) = find_cpu y"
  by (simp_all add: find_cpu_def cli_def sti_def)

lemma find_cpu_lock [simp]: "find_cpu (lock_upd lk f y) = find_cpu y"
  by (simp add: find_cpu_def lock_upd_def)

lemma readeflags_simps [simp]:
  "\<not> readeflags (cli y)" "readeflags (sti y)"
  "readeflags (cpu_upd i f y) = readeflags y" "readeflags (lock_upd lk g y) = readeflags y"
  by (simp_all add: readeflags_def cli_def sti_def cpu_upd_def lock_upd_def)

lemma sync_fields [simp]:
  "cpus (cli y) = cpus y" "cpus (sti y) = cpus y" "cpus (lock_upd lk g y) = cpus y"
  "locks (cli y) = locks y" "locks (sti y) = locks y" "locks (cpu_upd i f y) = locks y"
  "cpus (cpu_upd i f y) = (cpus y)[i := f (cpus y ! i)]"
  "locks (lock_upd lk g y) = (locks y)(lk := g (locks y lk))"
  by (simp_all add: cli_def sti_def cpu_upd_def lock_upd_def)

lemma calmD:
  assumes "calm y"
  obtains i where "find_cpu y = Some i" and "i < length (cpus y)"
    and "0 \<le> c_ncli (cpus y ! i)"
    and "c_ncli (cpus y ! i) = 0 \<longrightarrow> c_intena (cpus y ! i) = readeflags y"
    and "0 < c_ncli (cpus y ! i) \<longrightarrow> \<not> readeflags y"
  using assms by (auto simp: calm_def dest: find_cpu_lt split: option.splits)

lemma find_cpu_pushed [simp]: "find_cpu (pushed y) = find_cpu y"
  by (simp add: pushed_def)

lemma readeflags_pushed [simp]: "\<not> readeflags (pushed y)"
  by (simp add: pushed_def)

lemma mycpu_found: "\<not> readeflags y \<Longrightarrow> find_cpu y = Some i \<Longrightarrow> mycpu y = Inr (i, y)"
  by (simp add: mycpu_def)

lemma pushcli_calm:
  assumes "calm y"
  shows "pushcli y = Inr ((), pushed y)"
proof -
  obtain i where i: "find_cpu y = Some i" "i < length (cpus y)"
    and same: "c_ncli (cpus y ! i) = 0 \<longrightarrow> c_intena (cpus y ! i) = readeflags y"
    using assms by (rule calmD)
  have "cpu_upd i (\<lambda>c. c\<lparr>c_intena := readeflags y\<rparr>) (pushed y) = pushed y"
    if "c_ncli (cpus y ! i) = 0"
  proof -
    from same that have r: "readeflags y = c_intena (cpus y ! i)" by simp
    show ?thesis unfolding r using i by (simp add: pushed_def cpu_upd_def)
  qed
  moreover have "cpu_upd i (\<lambda>c. c\<lparr>c_ncli := c_ncli (cpus y ! i) + 1\<rparr>) (cli y) = pushed y"
    using i by (simp add: pushed_def cpu_upd_def)
  ultimately show ?thesis
    using i by (simp add: pushcli_def bindM_def getM_def modM_def retM_def mycpu_found)
qed

lemma popcli_pushed:
  assumes "calm y"
  shows "popcli (pushed y) = Inr ((), y)"
proof -
  obtain i where i: "find_cpu y = Some i" "i < length (cpus y)"
    and n: "0 \<le> c_ncli (cpus y ! i)"
    and same: "c_ncli (cpus y ! i) = 0 \<longrightarrow> c_intena (cpus y ! i) = readeflags y"
    and off: "0 < c_ncli (cpus y ! i) \<longrightarrow> \<not> readeflags y"
    using assms by (rule calmD)
  let ?z = "cpu_upd i (\<lambda>c. c\<lparr>c_ncli := c_ncli c - 1\<rparr>) (pushed y)"
  have z: "?z = cli y"
    using i by (simp add: pushed_def cpu_upd_def cli_def)
  have restored: "(if c_ncli (cpus y ! i) = 0 \<and> c_intena (cpus y ! i) then sti (cli y) else cli y) = y"
    using n same off by (auto simp: sti_def cli_def readeflags_def fun_upd_idem)
  show ?thesis
    using i n restored z by (auto simp: popcli_def bindM_def getM_def modM_def retM_def failM_def mycpu_found
        split: if_splits)
qed

lemma calm_pushed [intro]: "calm y \<Longrightarrow> calm (pushed y)"
  by (auto simp: calm_def pushed_def find_cpu_lt split: option.splits)

lemma calm_lock_upd [simp]: "calm (lock_upd lk f y) = calm y"
  by (simp add: calm_def split: option.splits)

lemma pushed_lock_upd: "pushed (lock_upd lk f y) = lock_upd lk f (pushed y)"
  by (simp add: pushed_def cpu_upd_def lock_upd_def cli_def find_cpu_def)

lemma holding_calm:
  assumes "calm y"
  shows "holding lk y =
     Inr (lk_locked (locks y lk) \<noteq> 0 \<and> lk_cpu (locks y lk) = find_cpu y, y)"
proof -
  obtain i where i: "find_cpu y = Some i" using assms by (rule calmD)
  have l: "locks (pushed y) = locks y" by (simp add: pushed_def)
  show ?thesis
    using assms i l
    by (simp add: holding_def bindM_def getM_def retM_def pushcli_calm popcli_pushed mycpu_found)
qed

lemma lock_upd_lock_upd: "lock_upd lk f (lock_upd lk g y) = lock_upd lk (f \<circ> g) y"
  by (simp add: lock_upd_def)

lemma lock_upd_id: "f (locks y lk) = locks y lk \<Longrightarrow> lock_upd lk f y = y"
  by (simp add: lock_upd_def fun_upd_idem)

lemma acquire_calm:
  assumes "calm y" and "lk_locked (locks y lk) = 0"
  shows "acquire lk y = Inr ((), acquired lk y)"
proof -
  obtain i where i: "find_cpu y = Some i" using assms(1) by (rule calmD)
  have l: "locks (pushed y) = locks y" by (simp add: pushed_def)
  from calm_pushed [OF assms(1)] have "holding lk (pushed y) = Inr (False, pushed y)"
    using assms(2) by (simp add: holding_calm l)
  then show ?thesis
    using assms i l
    by (simp add: acquire_def xchg_locked_def bindM_def getM_def modM_def retM_def pushcli_calm
        mycpu_found lock_upd_lock_upd acquired_def comp_def)
qed

lemma acquire_busy:
  assumes "calm y" and "lk_locked (locks y lk) \<noteq> 0"
  shows "acquire lk y =
    Inl (if lk_cpu (locks y lk) = find_cpu y then Panic ''acquire'' else Spins lk)"
proof -
  have l: "locks (pushed y) = locks y" by (simp add: pushed_def)
  from calm_pushed [OF assms(1)]
  have "holding lk (pushed y) = Inr (lk_cpu (locks y lk) = find_cpu y, pushed y)"
    using assms(2) by (simp add: holding_calm l)
  then show ?thesis
    using assms l
    by (simp add: acquire_def xchg_locked_def bindM_def getM_def modM_def retM_def failM_def
        pushcli_calm)
qed

lemma calm_acquired: "calm y \<Longrightarrow> calm (acquired lk y)"
  by (simp add: acquired_def calm_pushed)

lemma find_cpu_acquired [simp]: "find_cpu (acquired lk y) = find_cpu y"
  by (simp add: acquired_def)

lemma locks_acquired:
  "locks (acquired lk y) = (locks y)(lk := (locks y lk)\<lparr>lk_locked := 1, lk_cpu := find_cpu y\<rparr>)"
  by (simp add: acquired_def pushed_def)

lemma lock_free_acquired: "lk' \<noteq> lk \<Longrightarrow> lock_free lk' (acquired lk y) = lock_free lk' y"
  by (simp add: lock_free_def locks_acquired)

lemma release_acquired:
  assumes "calm y" and "lock_free lk y"
  shows "release lk (acquired lk y) = Inr ((), y)"
proof -
  have "lock_upd lk (\<lambda>l. l\<lparr>lk_cpu := None, lk_locked := 0\<rparr>) y = y"
    using assms(2) by (intro lock_upd_id) (simp add: lock_free_def)
  then have undo: "lock_upd lk (\<lambda>l. l\<lparr>lk_locked := 0\<rparr>) (lock_upd lk (\<lambda>l. l\<lparr>lk_cpu := None\<rparr>) (acquired lk y)) = pushed y"
    by (simp add: acquired_def lock_upd_lock_upd comp_def pushed_lock_upd [symmetric])
  show ?thesis
    using assms(1) calm_acquired [OF assms(1), of lk] undo
    by (simp add: release_def holding_calm locks_acquired xchg_locked_def bindM_def getM_def modM_def
        retM_def failM_def popcli_pushed)
qed

lemma release_not_held:
  assumes "calm y" and "\<not> (lk_locked (locks y lk) \<noteq> 0 \<and> lk_cpu (locks y lk) = find_cpu y)"
  shows "release lk y = Inl (Panic ''release'')"
  using assms by (simp add: release_def holding_calm bindM_def failM_def)

lemma myproc_calm:
  assumes "calm y"
  shows "myproc y = Inr (c_proc (cpus y ! the (find_cpu y)), y)"
proof -
  obtain i where i: "find_cpu y = Some i" "i < length (cpus y)" using assms by (rule calmD)
  then have "c_proc (cpus (pushed y) ! i) = c_proc (cpus y ! i)"
    by (simp add: pushed_def)
  then show ?thesis
    using assms i
    by (simp add: myproc_def bindM_def getM_def retM_def pushcli_calm popcli_pushed mycpu_found)
qed

section \<open>Critical sections\<close>

text \<open>
  In a calm state a critical section on a free lock is its body: the locks and the interrupt
  state come back as they were. Bodies may contain further critical sections on other locks.
\<close>

lemma with_lock_Inr:
  assumes "calm (k_sync s)" and "lock_free lk (k_sync s)"
    and "body (s\<lparr>k_sync := acquired lk (k_sync s)\<rparr>) = Inr (r, t\<lparr>k_sync := acquired lk (k_sync s)\<rparr>)"
  shows "with_lock lk body s = Inr (r, t\<lparr>k_sync := k_sync s\<rparr>)"
  using assms release_acquired [OF assms(1,2)]
  by (simp add: with_lock_def bindM_def liftS_def retM_def acquire_calm lock_free_def)

lemma with_lock_Inl:
  assumes "calm (k_sync s)" and "lock_free lk (k_sync s)"
    and "body (s\<lparr>k_sync := acquired lk (k_sync s)\<rparr>) = Inl e"
  shows "with_lock lk body s = Inl e"
  using assms by (simp add: with_lock_def bindM_def liftS_def acquire_calm lock_free_def)

lemma with_lock_calm:
  assumes "sync_indep body" and "calm (k_sync s)" and "lock_free lk (k_sync s)"
  shows "with_lock lk body s = body s"
proof (cases "body s")
  case (Inl e)
  from with_lock_Inl [OF assms(2,3), of body, OF sync_indep_InlD [OF assms(1) Inl]] Inl
  show ?thesis by simp
next
  case (Inr p)
  obtain r t where p: "p = (r, t)" by force
  with Inr have b: "body s = Inr (r, t)" by simp
  have "t\<lparr>k_sync := k_sync s\<rparr> = t"
    using sync_indep_keeps [OF assms(1) b] by simp
  with with_lock_Inr [OF assms(2,3), of body, OF sync_indepD [OF assms(1) b]] b
  show ?thesis by simp
qed

lemma with_lock_quiet:
  "sync_indep body \<Longrightarrow> quiet (k_sync s) \<Longrightarrow> with_lock lk body s = body s"
  by (simp add: with_lock_calm quiet_def)

lemma with_lock_held_by_self:
  assumes "calm (k_sync s)" and "lk_locked (locks (k_sync s) lk) \<noteq> 0"
    and "lk_cpu (locks (k_sync s) lk) = find_cpu (k_sync s)"
  shows "with_lock lk body s = Inl (Panic ''acquire'')"
  using assms by (simp add: with_lock_def bindM_def liftS_def acquire_busy)

lemma quiet_sync0: "quiet sync0"
  by (simp add: quiet_def calm_def lock_free_def sync0_def cpu0_def find_cpu_def readeflags_def NCPU_def numeral_eq_Suc)

section \<open>Nesting of pushcli and popcli\<close>

text \<open>Repeated execution of an operation that returns nothing.\<close>

fun repeatM :: "nat \<Rightarrow> ('s, unit) op \<Rightarrow> ('s, unit) op" where
  "repeatM 0 m = retM ()"
| "repeatM (Suc n) m = bindM m (\<lambda>_. repeatM n m)"

lemma repeatM_append: "repeatM (m + n) f = bindM (repeatM m f) (\<lambda>_. repeatM n f)"
  by (induction m) (simp_all add: bindM_assoc)

lemma pushcli_many:
  "calm y \<Longrightarrow> repeatM n pushcli y = Inr ((), (pushed ^^ n) y) \<and> calm ((pushed ^^ n) y)"
proof (induction n arbitrary: y)
  case 0
  then show ?case by (simp add: retM_def)
next
  case (Suc n)
  then have "repeatM n pushcli (pushed y) = Inr ((), (pushed ^^ n) (pushed y)) \<and>
      calm ((pushed ^^ n) (pushed y))"
    by (blast intro: calm_pushed)
  with Suc.prems show ?case
    by (simp add: bindM_def pushcli_calm funpow_swap1)
qed

lemma popcli_many:
  "calm y \<Longrightarrow> repeatM n popcli ((pushed ^^ n) y) = Inr ((), y)"
proof (induction n)
  case 0
  then show ?case by (simp add: retM_def)
next
  case (Suc n)
  from pushcli_many [OF Suc.prems, of n] have "calm ((pushed ^^ n) y)" by simp
  then have "popcli ((pushed ^^ Suc n) y) = Inr ((), (pushed ^^ n) y)"
    by (simp add: popcli_pushed)
  with Suc show ?case by (simp add: bindM_def)
qed

lemma pushed_many_off: "0 < n \<Longrightarrow> \<not> readeflags ((pushed ^^ n) y)"
  by (cases n) simp_all

section \<open>Several CPUs: the atomic steps of acquire and release\<close>

text \<open>
  Between CPUs the unit of execution is one memory access of the lock word. A CPU outside
  (\<open>Idle\<close>) that calls \<^verbatim>\<open>acquire\<close> passes the \<^verbatim>\<open>holding\<close> check, then executes the atomic
  \<^verbatim>\<open>xchg\<close> until it returns 0 (\<open>Trying\<close> to \<open>Grabbed\<close>), then stores \<^verbatim>\<open>lk->cpu\<close> and is in its
  critical section. \<^verbatim>\<open>release\<close> checks \<^verbatim>\<open>holding\<close>, clears \<^verbatim>\<open>lk->cpu\<close> (\<open>Clearing\<close>) and
  executes the \<^verbatim>\<open>xchg\<close> that stores 0.
\<close>

datatype lkpc = Idle | Trying | Grabbed | Critical | Clearing

record smp =
  sm_lock :: spinlock
  sm_pc :: "nat \<Rightarrow> lkpc"

definition holds :: "spinlock \<Rightarrow> nat \<Rightarrow> bool" where
  "holds l i \<longleftrightarrow> lk_locked l \<noteq> 0 \<and> lk_cpu l = Some i"

text \<open>
  The callers are disciplined, as in the kernel: a CPU calls \<^verbatim>\<open>release\<close> only in its critical section, and interrupts are off between
  \<^verbatim>\<open>acquire\<close> and \<^verbatim>\<open>release\<close>. The two reads of \<^verbatim>\<open>holding\<close>, of \<^verbatim>\<open>locked\<close> and of \<^verbatim>\<open>cpu\<close>, are one step.
\<close>

inductive lock_step :: "smp \<Rightarrow> smp \<Rightarrow> bool" where
  call: "sm_pc s i = Idle \<Longrightarrow> \<not> holds (sm_lock s) i \<Longrightarrow>
     lock_step s (s\<lparr>sm_pc := (sm_pc s)(i := Trying)\<rparr>)"
| spin: "sm_pc s i = Trying \<Longrightarrow> lk_locked (sm_lock s) \<noteq> 0 \<Longrightarrow>
     lock_step s (s\<lparr>sm_lock := (sm_lock s)\<lparr>lk_locked := 1\<rparr>\<rparr>)"
| grab: "sm_pc s i = Trying \<Longrightarrow> lk_locked (sm_lock s) = 0 \<Longrightarrow>
     lock_step s (s\<lparr>sm_lock := (sm_lock s)\<lparr>lk_locked := 1\<rparr>, sm_pc := (sm_pc s)(i := Grabbed)\<rparr>)"
| own: "sm_pc s i = Grabbed \<Longrightarrow>
     lock_step s (s\<lparr>sm_lock := (sm_lock s)\<lparr>lk_cpu := Some i\<rparr>, sm_pc := (sm_pc s)(i := Critical)\<rparr>)"
| disown: "sm_pc s i = Critical \<Longrightarrow> holds (sm_lock s) i \<Longrightarrow>
     lock_step s (s\<lparr>sm_lock := (sm_lock s)\<lparr>lk_cpu := None\<rparr>, sm_pc := (sm_pc s)(i := Clearing)\<rparr>)"
| unlock: "sm_pc s i = Clearing \<Longrightarrow>
     lock_step s (s\<lparr>sm_lock := (sm_lock s)\<lparr>lk_locked := 0\<rparr>, sm_pc := (sm_pc s)(i := Idle)\<rparr>)"

inductive_cases lock_stepE: "lock_step s t"

definition smp_init :: "string \<Rightarrow> smp" where
  "smp_init name = \<lparr>sm_lock = \<lparr>lk_locked = 0, lk_name = name, lk_cpu = None\<rparr>, sm_pc = (\<lambda>_. Idle)\<rparr>"

inductive lock_reach :: "string \<Rightarrow> smp \<Rightarrow> bool" for name where
  start: "lock_reach name (smp_init name)"
| step: "lock_reach name s \<Longrightarrow> lock_step s t \<Longrightarrow> lock_reach name t"

text \<open>
  The invariant: the word is non-zero exactly when some CPU is past its successful exchange and
  has not executed the releasing one, there is at most one such CPU, and \<^verbatim>\<open>lk->cpu\<close> names the
  CPU that is in its critical section.
\<close>

definition inside :: "lkpc \<Rightarrow> bool" where
  "inside c \<longleftrightarrow> c = Grabbed \<or> c = Critical \<or> c = Clearing"

definition smp_inv :: "smp \<Rightarrow> bool" where
  "smp_inv s \<longleftrightarrow>
     (lk_locked (sm_lock s) \<noteq> 0 \<longleftrightarrow> (\<exists>i. inside (sm_pc s i))) \<and>
     (\<forall>i j. inside (sm_pc s i) \<longrightarrow> inside (sm_pc s j) \<longrightarrow> i = j) \<and>
     (\<forall>i. lk_cpu (sm_lock s) = Some i \<longleftrightarrow> sm_pc s i = Critical)"

lemma smp_inv_init: "smp_inv (smp_init name)"
  by (simp add: smp_inv_def smp_init_def inside_def)

lemma smp_inv_step:
  assumes "lock_step s t" and "smp_inv s"
  shows "smp_inv t"
  using assms
proof (induction rule: lock_step.induct)
  case (call s i)
  let ?pc = "(sm_pc s)(i := Trying)"
  have "inside (?pc j) = inside (sm_pc s j)" and "?pc j = Critical \<longleftrightarrow> sm_pc s j = Critical" for j
    using call by (simp_all add: inside_def)
  with call show ?case by (simp add: smp_inv_def del: fun_upd_apply)
next
  case (spin s i)
  then show ?case by (auto simp: smp_inv_def)
next
  case (grab s i)
  then have "\<not> inside (sm_pc s j)" for j by (auto simp: smp_inv_def)
  with grab show ?case by (auto simp: smp_inv_def inside_def split: if_splits)
next
  case (own s i)
  then have "inside (sm_pc s j) \<longleftrightarrow> j = i" for j
    unfolding smp_inv_def by (metis inside_def)
  with own show ?case by (auto simp: smp_inv_def inside_def split: if_splits)
next
  case (disown s i)
  then have "inside (sm_pc s j) \<longleftrightarrow> j = i" for j
    unfolding smp_inv_def by (metis inside_def)
  with disown show ?case by (auto simp: smp_inv_def inside_def split: if_splits)
next
  case (unlock s i)
  then have "inside (sm_pc s j) \<longleftrightarrow> j = i" for j
    unfolding smp_inv_def by (metis inside_def)
  with unlock show ?case by (auto simp: smp_inv_def inside_def split: if_splits)
qed

lemma lock_reach_inv: "lock_reach name s \<Longrightarrow> smp_inv s"
  by (induction rule: lock_reach.induct) (auto intro: smp_inv_init smp_inv_step)

text \<open>
  The steps are those of the code: a successful \<open>acquire\<close> in a calm state changes the lock as the
  steps \<open>call\<close>, \<open>grab\<close>, \<open>own\<close> of that CPU do, and \<open>release\<close> as \<open>disown\<close>, \<open>unlock\<close> do.
\<close>

definition smp_of :: "lockid \<Rightarrow> sync \<Rightarrow> (nat \<Rightarrow> lkpc) \<Rightarrow> smp" where
  "smp_of lk y pc = \<lparr>sm_lock = locks y lk, sm_pc = pc\<rparr>"

lemma acquire_steps:
  assumes "calm y" and "acquire lk y = Inr ((), y')" and "find_cpu y = Some i" and "pc i = Idle"
  shows "lock_step\<^sup>*\<^sup>* (smp_of lk y pc) (smp_of lk y' (pc(i := Critical)))"
proof -
  have free: "lk_locked (locks y lk) = 0"
    using acquire_busy [OF assms(1)] assms(2) by force
  with acquire_calm [OF assms(1)] assms(2) have y': "y' = acquired lk y" by simp
  let ?l = "locks y lk"
  have "lock_step (smp_of lk y pc) \<lparr>sm_lock = ?l, sm_pc = pc(i := Trying)\<rparr>"
    using lock_step.call [of "smp_of lk y pc" i] assms(4) free by (simp add: smp_of_def holds_def)
  moreover have "lock_step \<lparr>sm_lock = ?l, sm_pc = pc(i := Trying)\<rparr>
      \<lparr>sm_lock = ?l\<lparr>lk_locked := 1\<rparr>, sm_pc = pc(i := Grabbed)\<rparr>"
    using lock_step.grab [of "\<lparr>sm_lock = ?l, sm_pc = pc(i := Trying)\<rparr>" i] free by simp
  moreover have "lock_step \<lparr>sm_lock = ?l\<lparr>lk_locked := 1\<rparr>, sm_pc = pc(i := Grabbed)\<rparr>
      (smp_of lk y' (pc(i := Critical)))"
    using lock_step.own [of "\<lparr>sm_lock = ?l\<lparr>lk_locked := 1\<rparr>, sm_pc = pc(i := Grabbed)\<rparr>" i] assms(3)
    by (simp add: smp_of_def y' locks_acquired)
  ultimately show ?thesis by (meson converse_rtranclp_into_rtranclp r_into_rtranclp)
qed

lemma release_steps:
  assumes "calm y" and "lock_free lk y" and "find_cpu y = Some i" and "pc i = Critical"
  shows "release lk (acquired lk y) = Inr ((), y)"
    and "lock_step\<^sup>*\<^sup>* (smp_of lk (acquired lk y) pc) (smp_of lk y (pc(i := Idle)))"
proof -
  show "release lk (acquired lk y) = Inr ((), y)"
    by (rule release_acquired [OF assms(1,2)])
  let ?l = "locks (acquired lk y) lk"
  have "lock_step (smp_of lk (acquired lk y) pc)
      \<lparr>sm_lock = ?l\<lparr>lk_cpu := None\<rparr>, sm_pc = pc(i := Clearing)\<rparr>"
    using lock_step.disown [of "smp_of lk (acquired lk y) pc" i] assms(3,4)
    by (simp add: smp_of_def holds_def locks_acquired)
  moreover have "(locks y lk)\<lparr>lk_cpu := None, lk_locked := 0\<rparr> = locks y lk"
    using assms(2) by (simp add: lock_free_def)
  then have "lock_step \<lparr>sm_lock = ?l\<lparr>lk_cpu := None\<rparr>, sm_pc = pc(i := Clearing)\<rparr>
      (smp_of lk y (pc(i := Idle)))"
    using lock_step.unlock [of "\<lparr>sm_lock = ?l\<lparr>lk_cpu := None\<rparr>, sm_pc = pc(i := Clearing)\<rparr>" i]
    by (simp add: smp_of_def locks_acquired)
  ultimately show "lock_step\<^sup>*\<^sup>* (smp_of lk (acquired lk y) pc) (smp_of lk y (pc(i := Idle)))"
    by (meson converse_rtranclp_into_rtranclp r_into_rtranclp)
qed

section \<open>Properties\<close>

text \<open>
  C6: mutual exclusion between CPUs, under every interleaving of the memory accesses of
  \<^verbatim>\<open>acquire\<close> and \<^verbatim>\<open>release\<close>: two CPUs are never both in the critical section of a lock, and the
  checks with which the two functions would panic never fail: a CPU outside the section does not
  find itself to be the holder, and a CPU inside does.
\<close>

theorem lock_mutual_exclusion:
  assumes "lock_reach name s"
  shows "\<not> (i \<noteq> j \<and> sm_pc s i = Critical \<and> sm_pc s j = Critical) \<and>
    (sm_pc s i = Idle \<longrightarrow> \<not> holds (sm_lock s) i) \<and>
    (sm_pc s i = Critical \<longrightarrow> holds (sm_lock s) i)"
proof -
  from assms have inv: "smp_inv s" by (rule lock_reach_inv)
  then have "\<not> (i \<noteq> j \<and> sm_pc s i = Critical \<and> sm_pc s j = Critical)"
    unfolding smp_inv_def inside_def by blast
  moreover from inv have "sm_pc s i = Idle \<longrightarrow> \<not> holds (sm_lock s) i"
    by (auto simp: smp_inv_def holds_def)
  moreover from inv have "sm_pc s i = Critical \<longrightarrow> holds (sm_lock s) i"
    unfolding smp_inv_def holds_def inside_def by blast
  ultimately show ?thesis by blast
qed

text \<open>The witness: CPU 0 has taken the lock, CPU 1 is about to spin on it.\<close>

definition smp_ex :: smp where
  "smp_ex = \<lparr>sm_lock = \<lparr>lk_locked = 1, lk_name = ''ptable'', lk_cpu = Some 0\<rparr>,
     sm_pc = (\<lambda>_. Idle)(0 := Critical, 1 := Trying)\<rparr>"

lemma smp_ex_reach: "lock_reach ''ptable'' smp_ex"
proof -
  let ?l = "\<lparr>lk_locked = 0, lk_name = ''ptable'', lk_cpu = None\<rparr>"
  have 1: "lock_reach ''ptable'' \<lparr>sm_lock = ?l, sm_pc = (\<lambda>_. Idle)(0 := Trying)\<rparr>"
    using lock_reach.step [OF lock_reach.start lock_step.call [of "smp_init ''ptable''" 0]]
    by (simp add: smp_init_def holds_def)
  have 2: "lock_reach ''ptable'' \<lparr>sm_lock = ?l\<lparr>lk_locked := 1\<rparr>, sm_pc = (\<lambda>_. Idle)(0 := Grabbed)\<rparr>"
    using lock_reach.step [OF 1 lock_step.grab [of _ 0]] by simp
  have 3: "lock_reach ''ptable''
      \<lparr>sm_lock = ?l\<lparr>lk_locked := 1, lk_cpu := Some 0\<rparr>, sm_pc = (\<lambda>_. Idle)(0 := Critical)\<rparr>"
    using lock_reach.step [OF 2 lock_step.own [of _ 0]] by simp
  show ?thesis
    using lock_reach.step [OF 3 lock_step.call [of _ 1]] by (simp add: smp_ex_def holds_def)
qed

theorem lock_mutual_exclusion_witness:
  "lock_reach ''ptable'' smp_ex \<and> sm_pc smp_ex 0 = Critical \<and> holds (sm_lock smp_ex) 0 \<and>
     sm_pc smp_ex 1 \<noteq> Critical"
proof -
  have "sm_pc smp_ex 0 = Critical" by (simp add: smp_ex_def)
  with smp_ex_reach lock_mutual_exclusion [OF smp_ex_reach, of 0 1] show ?thesis by auto
qed

end
