(* ===== verification/Memory.thy ===== *)
theory Memory
  imports Xv6_Types
begin

text \<open>
  Memory as bytes at 32-bit addresses, little-endian words in it, and \<^verbatim>\<open>string.c\<close>. The functions
  that write memory are state transformers on it; the functions that only read take what a pointer
  points at as a function from the offset to the byte, so that they apply to memory and to the byte
  lists that model buffers.
\<close>

unbundle bit_operations_syntax

type_synonym mem = "u32 \<Rightarrow> u8"

section \<open>Little-endian integers\<close>

definition u16_le :: "u8 \<Rightarrow> u8 \<Rightarrow> u16" where
  "u16_le b0 b1 = ucast b0 OR push_bit 8 (ucast b1)"

definition u32_le :: "u8 \<Rightarrow> u8 \<Rightarrow> u8 \<Rightarrow> u8 \<Rightarrow> u32" where
  "u32_le b0 b1 b2 b3 = ucast b0 OR push_bit 8 (ucast b1) OR push_bit 16 (ucast b2) OR push_bit 24 (ucast b3)"

definition byte_at :: "nat \<Rightarrow> 'a::len word \<Rightarrow> u8" where
  "byte_at i w = ucast (drop_bit (8 * i) w)"

lemma u16_le_bytes [simp]: "u16_le (byte_at 0 w) (byte_at 1 w) = (w::u16)"
  unfolding u16_le_def byte_at_def
  by (rule bit_word_eqI) (auto simp: bit_simps)

lemma u32_le_bytes [simp]: "u32_le (byte_at 0 w) (byte_at 1 w) (byte_at 2 w) (byte_at 3 w) = (w::u32)"
proof (rule bit_word_eqI)
  fix n
  assume n: "n < LENGTH(32)"
  consider "n < 8" | "8 \<le> n" "n < 16" | "16 \<le> n" "n < 24" | "24 \<le> n" by linarith
  then show "bit (u32_le (byte_at 0 w) (byte_at 1 w) (byte_at 2 w) (byte_at 3 w)) n = bit w n"
    using n by cases (auto simp: u32_le_def byte_at_def bit_simps)
qed

lemma byte_at_u32_le [simp]:
  "byte_at 0 (u32_le a b c d) = a" "byte_at 1 (u32_le a b c d) = b"
  "byte_at 2 (u32_le a b c d) = c" "byte_at 3 (u32_le a b c d) = d"
  unfolding u32_le_def byte_at_def
  by (rule bit_word_eqI, auto simp: bit_simps dest: bit_imp_le_length)+

lemma byte_at_u16_le [simp]: "byte_at 0 (u16_le a b) = a" "byte_at 1 (u16_le a b) = b"
  unfolding u16_le_def byte_at_def
  by (rule bit_word_eqI, auto simp: bit_simps dest: bit_imp_le_length)+

definition ld32 :: "mem \<Rightarrow> u32 \<Rightarrow> u32" where
  "ld32 m a = u32_le (m a) (m (a + 1)) (m (a + 2)) (m (a + 3))"

definition st32 :: "u32 \<Rightarrow> u32 \<Rightarrow> mem \<Rightarrow> mem" where
  "st32 a w m = m(a := byte_at 0 w, a + 1 := byte_at 1 w, a + 2 := byte_at 2 w, a + 3 := byte_at 3 w)"

lemma ld32_st32 [simp]: "ld32 (st32 a w m) a = w"
  using u32_le_bytes [of w] by (simp add: ld32_def st32_def del: u32_le_bytes)

text \<open>Two words overlap only if their addresses are less than four apart (modulo \<open>2 ^ 32\<close>).\<close>

definition word_apart :: "u32 \<Rightarrow> u32 \<Rightarrow> bool" where
  "word_apart a b \<longleftrightarrow> 4 \<le> unat (a - b) \<and> 4 \<le> unat (b - a)"

lemma st32_other:
  assumes "4 \<le> unat (x - a)" shows "st32 a w m x = m x"
proof -
  have "x - a \<noteq> 0" "x - a \<noteq> 1" "x - a \<noteq> 2" "x - a \<noteq> 3" using assms by auto
  then have "x \<noteq> a" "x \<noteq> a + 1" "x \<noteq> a + 2" "x \<noteq> a + 3" by auto
  then show ?thesis by (simp add: st32_def)
qed

lemma st32_at: "st32 a w m (a + of_nat i) = (if i < 4 then byte_at i w else m (a + of_nat i))" if "i < 4294967296"
proof (cases "i < 4")
  case True
  then consider "i = 0" | "i = 1" | "i = 2" | "i = 3" by linarith
  then show ?thesis by cases (simp_all add: st32_def)
next
  case False
  have "unat (of_nat i :: u32) = i" using that by (simp add: unat_of_nat)
  with False show ?thesis by (simp add: st32_other)
qed

section \<open>memset\<close>

text \<open>\<^verbatim>\<open>rep stosb\<close> and \<^verbatim>\<open>rep stosl\<close> of \<^verbatim>\<open>x86.h\<close>: fill with bytes or 32-bit words, upwards.\<close>

fun stosb :: "nat \<Rightarrow> u32 \<Rightarrow> u8 \<Rightarrow> mem \<Rightarrow> mem" where
  "stosb 0 a d m = m"
| "stosb (Suc n) a d m = stosb n (a + 1) d (m(a := d))"

fun stosl :: "nat \<Rightarrow> u32 \<Rightarrow> u32 \<Rightarrow> mem \<Rightarrow> mem" where
  "stosl 0 a d m = m"
| "stosl (Suc n) a d m = stosl n (a + 4) d (st32 a d m)"

definition memset :: "u32 \<Rightarrow> u32 \<Rightarrow> u32 \<Rightarrow> mem \<Rightarrow> mem" where
  "memset dst c n m =
     (if dst mod 4 = 0 \<and> n mod 4 = 0 then
        let c = c AND 0xFF in
        stosl (unat (n div 4)) dst (push_bit 24 c OR push_bit 16 c OR push_bit 8 c OR c) m
      else stosb (unat n) dst (ucast c) m)"

text \<open>What a fill of \<open>n\<close> bytes from \<open>dst\<close> leaves in memory.\<close>

definition filled :: "u32 \<Rightarrow> nat \<Rightarrow> u8 \<Rightarrow> mem \<Rightarrow> mem" where
  "filled dst n b m = (\<lambda>a. if unat (a - dst) < n then b else m a)"

lemma filled_0 [simp]: "filled a 0 b m = m"
  by (simp add: filled_def)

lemma unat_minus_1: "(w::u32) \<noteq> 0 \<Longrightarrow> unat (w - 1) = unat w - 1"
  using unat_diff_u32 [of 1 w] by (simp add: unat_gt_0 Suc_leI)

lemma filled_Suc:
  assumes "Suc n \<le> 2 ^ 32"
  shows "filled (a + 1) n b (m(a := b)) = filled a (Suc n) b m"
proof
  fix x
  show "filled (a + 1) n b (m(a := b)) x = filled a (Suc n) b m x"
  proof (cases "x = a")
    case True
    then show ?thesis by (simp add: filled_def)
  next
    case False
    then have "x - a \<noteq> 0" by simp
    then have "unat (x - (a + 1)) = unat (x - a) - 1" "0 < unat (x - a)"
      using unat_minus_1 [of "x - a"] by (simp_all add: algebra_simps unat_gt_0)
    with False show ?thesis by (auto simp: filled_def)
  qed
qed

lemma stosb_filled: "n \<le> 2 ^ 32 \<Longrightarrow> stosb n a b m = filled a n b m"
proof (induction n arbitrary: a m)
  case (Suc n)
  then show ?case by (simp add: filled_Suc del: power_numeral)
qed simp

lemma stosl_stosb:
  assumes "byte_at 0 d = b" "byte_at 1 d = b" "byte_at 2 d = b" "byte_at 3 d = b"
  shows "stosl n a d m = stosb (4 * n) a b m"
proof (induction n arbitrary: a m)
  case (Suc n)
  have e: "4 * Suc n = Suc (Suc (Suc (Suc (4 * n))))" by simp
  have "stosb (4 * Suc n) a b m = stosb (4 * n) (a + 4) b (m(a := b, a + 1 := b, a + 2 := b, a + 3 := b))"
    by (simp only: e stosb.simps) (simp add: add.assoc)
  also have "\<dots> = stosl n (a + 4) d (st32 a d m)" by (simp only: assms Suc.IH st32_def)
  finally show ?case by simp
qed simp

lemma memset_pattern:
  fixes c e :: u32
  assumes e: "e = c AND 0xFF"
  shows "byte_at 0 (push_bit 24 e OR push_bit 16 e OR push_bit 8 e OR e) = ucast c"
    "byte_at 1 (push_bit 24 e OR push_bit 16 e OR push_bit 8 e OR e) = ucast c"
    "byte_at 2 (push_bit 24 e OR push_bit 16 e OR push_bit 8 e OR e) = ucast c"
    "byte_at 3 (push_bit 24 e OR push_bit 16 e OR push_bit 8 e OR e) = ucast c"
proof -
  have "bit (0xFF :: u32) n \<longleftrightarrow> n < 8" for n
    using bit_mask_iff [of 8 n, where 'a = u32] by (auto simp: mask_eq_exp_minus_1)
  then have b: "bit e n \<longleftrightarrow> n < 8 \<and> bit c n" for n by (auto simp: e bit_and_iff)
  show "byte_at 0 (push_bit 24 e OR push_bit 16 e OR push_bit 8 e OR e) = ucast c"
    "byte_at 1 (push_bit 24 e OR push_bit 16 e OR push_bit 8 e OR e) = ucast c"
    "byte_at 2 (push_bit 24 e OR push_bit 16 e OR push_bit 8 e OR e) = ucast c"
    "byte_at 3 (push_bit 24 e OR push_bit 16 e OR push_bit 8 e OR e) = ucast c"
    unfolding byte_at_def by (rule bit_word_eqI, auto simp: bit_simps b)+
qed

lemma unat_mod4: "(w::u32) mod 4 = 0 \<longleftrightarrow> unat w mod 4 = 0"
  by (simp add: word_unat_eq_iff unat_mod)

lemma memset_filled: "memset dst c n m = filled dst (unat n) (ucast c) m"
proof -
  have f: "stosb (unat n) dst (ucast c) m = filled dst (unat n) (ucast c) m"
    using unsigned_less [of n, where ?'a = nat] by (intro stosb_filled) simp
  show ?thesis
  proof (cases "dst mod 4 = 0 \<and> n mod 4 = 0")
    case True
    then have "4 * unat (n div 4) = unat n" by (simp add: unat_mod4 unat_div mod_eq_0_iff_dvd)
    with f stosl_stosb [OF memset_pattern, OF refl refl refl refl, of "unat (n div 4)" dst c m] True show ?thesis
      unfolding memset_def Let_def by (simp only: if_True simp_thms)
  next
    case False
    with f show ?thesis unfolding memset_def by (simp only: if_False)
  qed
qed

section \<open>memmove\<close>

fun copy_fwd :: "nat \<Rightarrow> u32 \<Rightarrow> u32 \<Rightarrow> mem \<Rightarrow> mem" where
  "copy_fwd 0 d s m = m"
| "copy_fwd (Suc n) d s m = copy_fwd n (d + 1) (s + 1) (m(d := m s))"

fun copy_bwd :: "nat \<Rightarrow> u32 \<Rightarrow> u32 \<Rightarrow> mem \<Rightarrow> mem" where
  "copy_bwd 0 d s m = m"
| "copy_bwd (Suc n) d s m = copy_bwd n (d - 1) (s - 1) (m(d - 1 := m (s - 1)))"

definition memmove :: "u32 \<Rightarrow> u32 \<Rightarrow> u32 \<Rightarrow> mem \<Rightarrow> mem" where
  "memmove dst src n m =
     (if src < dst \<and> dst < src + n then copy_bwd (unat n) (dst + n) (src + n) m
      else copy_fwd (unat n) dst src m)"

definition memcpy :: "u32 \<Rightarrow> u32 \<Rightarrow> u32 \<Rightarrow> mem \<Rightarrow> mem" where
  "memcpy dst src n m = memmove dst src n m"

text \<open>The specification: every byte of the target gets the byte that the source had before.\<close>

definition moved :: "u32 \<Rightarrow> u32 \<Rightarrow> nat \<Rightarrow> mem \<Rightarrow> mem" where
  "moved dst src n m = (\<lambda>a. if unat (a - dst) < n then m (src + (a - dst)) else m a)"

lemma copy_fwd_moved:
  assumes "n \<le> 4294967296" and "\<And>j. 0 < j \<Longrightarrow> j < n \<Longrightarrow> s + of_nat j \<noteq> d"
    and "\<And>i j. i < j \<Longrightarrow> j < n \<Longrightarrow> d + of_nat i \<noteq> s + of_nat j"
  shows "copy_fwd n d s m = moved d s n m"
  using assms
proof (induction n arbitrary: d s m)
  case 0
  then show ?case by (simp add: moved_def)
next
  case (Suc n)
  have "copy_fwd n (d + 1) (s + 1) (m(d := m s)) = moved (d + 1) (s + 1) n (m(d := m s))"
  proof (rule Suc.IH)
    fix i j :: nat
    assume "i < j" "j < n"
    with Suc.prems(3) [of "Suc i" "Suc j"] show "d + 1 + of_nat i \<noteq> s + 1 + of_nat j" by (simp add: algebra_simps)
  next
    fix j :: nat
    assume "0 < j" "j < n"
    with Suc.prems(3) [of 1 "Suc j"] show "s + 1 + of_nat j \<noteq> d + 1" by (auto simp: algebra_simps)
  qed (use Suc.prems in simp)
  moreover have "moved (d + 1) (s + 1) n (m(d := m s)) a = moved d s (Suc n) m a" for a
  proof (cases "a = d")
    case True
    have "unat (- 1 :: u32) = 4294967295" by (simp add: unsigned_minus_1_eq_mask mask_eq_exp_minus_1)
    with True Suc.prems(1) show ?thesis by (simp add: moved_def)
  next
    case False
    then have nz: "a - d \<noteq> 0" by simp
    then have u: "unat (a - (d + 1)) = unat (a - d) - 1" "0 < unat (a - d)"
      using unat_minus_1 [of "a - d"] by (simp_all add: algebra_simps unat_gt_0)
    have src: "s + 1 + (a - (d + 1)) = s + (a - d)" by (simp add: algebra_simps)
    have "s + (a - d) \<noteq> d" if "unat (a - d) < Suc n"
      using Suc.prems(2) [of "unat (a - d)"] that u by simp
    with False u src show ?thesis by (auto simp: moved_def)
  qed
  ultimately show ?case by auto
qed

lemma copy_bwd_moved:
  assumes "n \<le> 4294967296" and "\<And>i j. i < j \<Longrightarrow> j < n \<Longrightarrow> d + of_nat j \<noteq> s + of_nat i"
  shows "copy_bwd n (d + of_nat n) (s + of_nat n) m = moved d s n m"
  using assms
proof (induction n arbitrary: m)
  case 0
  then show ?case by (simp add: moved_def)
next
  case (Suc n)
  let ?m = "m(d + of_nat n := m (s + of_nat n))"
  have n: "unat (of_nat n :: u32) = n" using Suc.prems(1) by (simp add: unat_of_nat)
  have "copy_bwd (Suc n) (d + of_nat (Suc n)) (s + of_nat (Suc n)) m = moved d s n ?m"
    using Suc.prems by (simp add: Suc.IH algebra_simps fun_upd_def)
  moreover have "moved d s n ?m a = moved d s (Suc n) m a" for a
  proof (cases "a = d + of_nat n")
    case True
    with n show ?thesis by (simp add: moved_def)
  next
    case False
    then have "a - d \<noteq> of_nat n" by (auto simp: algebra_simps)
    then have ne: "unat (a - d) \<noteq> n" using n by (metis word_unat_eq_iff)
    have "d + of_nat n \<noteq> s + (a - d)" if "unat (a - d) < n"
      using Suc.prems(2) [of "unat (a - d)" n] that by simp
    with False ne show ?thesis by (auto simp: moved_def less_Suc_eq)
  qed
  ultimately show ?case by auto
qed

lemma no_wrap_neq:
  assumes "unat a + i < 4294967296" and "unat b + j < 4294967296" and "unat a + i \<noteq> unat b + j"
  shows "a + of_nat i \<noteq> (b + of_nat j :: u32)"
proof
  have "unat (of_nat i :: u32) = i" "unat (of_nat j :: u32) = j" using assms(1,2) by (simp_all add: unat_of_nat)
  then have "unat (a + of_nat i) = unat a + i" "unat (b + of_nat j) = unat b + j"
    using assms(1,2) by (simp_all add: unat_add_u32)
  moreover assume "a + of_nat i = b + of_nat j"
  ultimately show False using assms(3) by simp
qed

text \<open>
  C13: \<^verbatim>\<open>memmove\<close> copies correctly however the two regions overlap: after it every byte of the
  target region is the byte that the source region had before the call, and every other byte of
  memory is unchanged, for regions that do not run past the end of the address space.
\<close>
theorem memmove_correct:
  assumes "unat src + unat n < 4294967296" and "unat dst + unat n < 4294967296"
  shows "memmove dst src n m = moved dst src (unat n) m"
proof (cases "src < dst \<and> dst < src + n")
  case True
  then have "unat src < unat dst" by (simp add: word_less_nat_alt)
  then have "copy_bwd (unat n) (dst + of_nat (unat n)) (src + of_nat (unat n)) m = moved dst src (unat n) m"
    using assms by (intro copy_bwd_moved no_wrap_neq) auto
  with True show ?thesis by (simp add: memmove_def)
next
  case False
  have "unat (src + n) = unat src + unat n" using assms(1) by (rule unat_add_u32)
  with False have apart: "unat dst \<le> unat src \<or> unat src + unat n \<le> unat dst"
    by (auto simp: word_less_nat_alt not_less)
  have "copy_fwd (unat n) dst src m = moved dst src (unat n) m"
  proof (rule copy_fwd_moved)
    fix i j :: nat
    assume "i < j" "j < unat n"
    with apart assms show "dst + of_nat i \<noteq> src + of_nat j" by (intro no_wrap_neq) auto
  next
    fix j :: nat
    assume "0 < j" "j < unat n"
    with apart assms no_wrap_neq [of src j dst 0] show "src + of_nat j \<noteq> dst" by auto
  qed (use assms in simp)
  with False show ?thesis by (simp only: memmove_def if_False)
qed

theorem memmove_correct_witness:
  "memmove 11 10 3 (\<lambda>a. ucast a) = moved 11 10 3 (\<lambda>a. ucast a)"
  using memmove_correct [of 10 3 11 "\<lambda>a. ucast a"] by simp

section \<open>Comparing and copying strings\<close>

text \<open>A string argument is the function from the offset to the byte there.\<close>

fun memcmp :: "(nat \<Rightarrow> u8) \<Rightarrow> (nat \<Rightarrow> u8) \<Rightarrow> nat \<Rightarrow> nat \<Rightarrow> int" where
  "memcmp s1 s2 i 0 = 0"
| "memcmp s1 s2 i (Suc n) = (if s1 i \<noteq> s2 i then uint (s1 i) - uint (s2 i) else memcmp s1 s2 (Suc i) n)"

fun strncmp :: "(nat \<Rightarrow> u8) \<Rightarrow> (nat \<Rightarrow> u8) \<Rightarrow> nat \<Rightarrow> nat \<Rightarrow> int" where
  "strncmp p q i 0 = 0"
| "strncmp p q i (Suc n) =
     (if p i \<noteq> 0 \<and> p i = q i then strncmp p q (Suc i) n else uint (p i) - uint (q i))"

text \<open>The bytes that \<^verbatim>\<open>strncpy\<close> and \<^verbatim>\<open>safestrcpy\<close> write from the start of the target on.\<close>

fun strncpy :: "(nat \<Rightarrow> u8) \<Rightarrow> nat \<Rightarrow> nat \<Rightarrow> u8 list" where
  "strncpy t i 0 = []"
| "strncpy t i (Suc n) = t i # (if t i \<noteq> 0 then strncpy t (Suc i) n else replicate n 0)"

fun safestrcpy :: "(nat \<Rightarrow> u8) \<Rightarrow> nat \<Rightarrow> nat \<Rightarrow> u8 list" where
  "safestrcpy t i 0 = []"
| "safestrcpy t i (Suc 0) = [0]"
| "safestrcpy t i (Suc (Suc n)) = t i # (if t i \<noteq> 0 then safestrcpy t (Suc i) (Suc n) else [0])"

partial_function (option) strlen :: "(nat \<Rightarrow> u8) \<Rightarrow> nat \<Rightarrow> nat option" where
  "strlen s n = (if s n \<noteq> 0 then strlen s (Suc n) else Some n)"

text \<open>The string at a pointer, up to the terminating zero, of at most \<open>n\<close> characters.\<close>

fun cstr :: "(nat \<Rightarrow> u8) \<Rightarrow> nat \<Rightarrow> nat \<Rightarrow> u8 list" where
  "cstr s i 0 = []"
| "cstr s i (Suc n) = (if s i = 0 then [] else s i # cstr s (Suc i) n)"

lemma length_strncpy [simp]: "length (strncpy t i n) = n"
  by (induction t i n rule: strncpy.induct) auto

lemma length_safestrcpy: "length (safestrcpy t i n) \<le> n"
  by (induction t i n rule: safestrcpy.induct) auto

lemma uint_diff_0: "uint (a::u8) - uint b = 0 \<longleftrightarrow> a = b"
  by (auto simp: word_uint_eq_iff)

lemma strncmp_eq_0: "strncmp p q i n = 0 \<longleftrightarrow> cstr p i n = cstr q i n"
  by (induction p q i n rule: strncmp.induct) (auto simp: word_uint_eq_iff)

lemma memcmp_eq_0: "memcmp p q i n = 0 \<longleftrightarrow> (\<forall>k. i \<le> k \<and> k < i + n \<longrightarrow> p k = q k)"
proof (induction n arbitrary: i)
  case (Suc n)
  have "(\<forall>k. i \<le> k \<and> k < i + Suc n \<longrightarrow> p k = q k) \<longleftrightarrow>
      p i = q i \<and> (\<forall>k. Suc i \<le> k \<and> k < Suc i + n \<longrightarrow> p k = q k)"
    by (auto simp: Suc_le_eq) (metis le_neq_implies_less)
  with Suc show ?case by (simp add: uint_diff_0 del: right_minus_eq)
qed auto

lemma cstr_strncpy: "cstr (\<lambda>k. strncpy t i n ! k) 0 n = cstr t i n"
proof -
  have "cstr (\<lambda>k. (xs @ strncpy t i n) ! k) (length xs) n = cstr t i n" for xs
  proof (induction n arbitrary: i xs)
    case (Suc n)
    from Suc.IH [of "xs @ [t i]" "Suc i"] show ?case by simp
  qed simp
  from this [of "[]"] show ?thesis by simp
qed

end
