(* ===== verification/Mmu.thy ===== *)
theory Mmu
  imports Memory
begin

text \<open>
  The constants and macros of \<^verbatim>\<open>memlayout.h\<close> and \<^verbatim>\<open>mmu.h\<close>: the address space layout, page
  table indices and flags, segment and gate descriptors, with the arithmetic of page rounding.
\<close>

section \<open>Memory layout\<close>

definition EXTMEM :: u32 where "EXTMEM = 0x100000"

definition PHYSTOP :: u32 where "PHYSTOP = 0xE000000"

definition DEVSPACE :: u32 where "DEVSPACE = 0xFE000000"

definition KERNBASE :: u32 where "KERNBASE = 0x80000000"

definition KERNLINK :: u32 where "KERNLINK = KERNBASE + EXTMEM"

definition V2P :: "u32 \<Rightarrow> u32" where "V2P a = a - KERNBASE"

definition P2V :: "u32 \<Rightarrow> u32" where "P2V a = a + KERNBASE"

lemmas layout_defs = EXTMEM_def PHYSTOP_def DEVSPACE_def KERNBASE_def KERNLINK_def

lemma V2P_P2V [simp]: "V2P (P2V a) = a" and P2V_V2P [simp]: "P2V (V2P a) = a"
  by (simp_all add: V2P_def P2V_def)

section \<open>Pages\<close>

definition PGSIZE :: u32 where "PGSIZE = 4096"

definition PTXSHIFT :: nat where "PTXSHIFT = 12"

definition PDXSHIFT :: nat where "PDXSHIFT = 22"

definition NPDENTRIES :: nat where "NPDENTRIES = 1024"

definition PDX :: "u32 \<Rightarrow> u32" where "PDX va = drop_bit PDXSHIFT va AND 0x3FF"

definition PTX :: "u32 \<Rightarrow> u32" where "PTX va = drop_bit PTXSHIFT va AND 0x3FF"

definition PGADDR :: "u32 \<Rightarrow> u32 \<Rightarrow> u32 \<Rightarrow> u32" where
  "PGADDR d t o' = push_bit PDXSHIFT d OR push_bit PTXSHIFT t OR o'"

definition PGROUNDUP :: "u32 \<Rightarrow> u32" where "PGROUNDUP sz = (sz + PGSIZE - 1) AND NOT (PGSIZE - 1)"

definition PGROUNDDOWN :: "u32 \<Rightarrow> u32" where "PGROUNDDOWN a = a AND NOT (PGSIZE - 1)"

definition PTE_P :: u32 where "PTE_P = 0x001"

definition PTE_W :: u32 where "PTE_W = 0x002"

definition PTE_U :: u32 where "PTE_U = 0x004"

definition PTE_PS :: u32 where "PTE_PS = 0x080"

definition PTE_ADDR :: "u32 \<Rightarrow> u32" where "PTE_ADDR pte = pte AND NOT 0xFFF"

definition PTE_FLAGS :: "u32 \<Rightarrow> u32" where "PTE_FLAGS pte = pte AND 0xFFF"

lemmas pte_flag_defs = PTE_P_def PTE_W_def PTE_U_def PTE_PS_def

lemma FFF_mask: "(0xFFF :: u32) = mask 12"
  by (simp add: mask_eq_exp_minus_1)

lemma x3FF_mask: "(0x3FF :: u32) = mask 10"
  by (simp add: mask_eq_exp_minus_1)

lemma PGSIZE_mask: "PGSIZE - 1 = mask 12"
  by (simp add: PGSIZE_def mask_eq_exp_minus_1)

lemma PGROUNDDOWN_eq: "PGROUNDDOWN a = push_bit 12 (drop_bit 12 a)"
  unfolding PGROUNDDOWN_def PGSIZE_mask
  by (rule bit_word_eqI) (auto simp: bit_simps)

lemma unat_PGROUNDDOWN: "unat (PGROUNDDOWN a) = unat a div 4096 * 4096"
proof -
  have le: "unat a div 4096 * 4096 \<le> unat a" by simp
  have "PGROUNDDOWN a = a div 4096 * 4096"
    by (simp add: PGROUNDDOWN_eq push_bit_eq_mult drop_bit_eq_div)
  then have "unat (PGROUNDDOWN a) = unat a div 4096 * 4096 mod 2 ^ 32"
    by (simp add: unat_word_ariths unat_div mod_mult_left_eq)
  with le show ?thesis using unsigned_less [of a, where ?'a = nat] by simp
qed

lemma PGROUNDUP_eq: "PGROUNDUP a = PGROUNDDOWN (a + 4095)"
  by (simp add: PGROUNDUP_def PGROUNDDOWN_def PGSIZE_def add.commute)

lemma unat_PGROUNDUP: "unat a + 4095 < 4294967296 \<Longrightarrow> unat (PGROUNDUP a) = (unat a + 4095) div 4096 * 4096"
  by (simp add: PGROUNDUP_eq unat_PGROUNDDOWN unat_add_u32)

definition page_aligned :: "u32 \<Rightarrow> bool" where
  "page_aligned a \<longleftrightarrow> unat a mod 4096 = 0"

lemma page_aligned_PGROUNDDOWN [simp]: "page_aligned (PGROUNDDOWN a)"
  by (simp add: page_aligned_def unat_PGROUNDDOWN)

lemma PTE_ADDR_PGROUNDDOWN: "PTE_ADDR a = PGROUNDDOWN a"
  by (simp add: PTE_ADDR_def PGROUNDDOWN_def PGSIZE_def)

lemma page_aligned_PTE_ADDR [simp]: "page_aligned (PTE_ADDR a)"
  by (simp add: PTE_ADDR_PGROUNDDOWN)

lemma page_aligned_bits: "page_aligned a \<longleftrightarrow> (\<forall>n < 12. \<not> bit a n)"
proof -
  have "page_aligned a \<longleftrightarrow> PGROUNDDOWN a = a"
    unfolding page_aligned_def word_unat_eq_iff unat_PGROUNDDOWN minus_mod_eq_div_mult [symmetric]
    using mod_less_eq_dividend [of "unat a" 4096] by linarith
  also have "\<dots> \<longleftrightarrow> (\<forall>n < 12. \<not> bit a n)"
  proof
    assume "PGROUNDDOWN a = a"
    then have e: "bit a n = bit (push_bit 12 (drop_bit 12 a)) n" for n by (metis PGROUNDDOWN_eq)
    have "\<not> bit (push_bit 12 (drop_bit 12 a)) n" if "n < 12" for n using that by (simp add: bit_push_bit_iff)
    with e show "\<forall>n < 12. \<not> bit a n" by blast
  next
    assume "\<forall>n < 12. \<not> bit a n"
    then have lo: "bit a n \<Longrightarrow> 12 \<le> n" for n by (meson leI)
    have "12 + (n - 12) = n" if "bit a n" for n using lo [OF that] by simp
    then show "PGROUNDDOWN a = a"
      unfolding PGROUNDDOWN_eq by (intro bit_word_eqI) (auto simp: bit_simps dest: lo)
  qed
  finally show ?thesis .
qed

text \<open>A page table entry built from an aligned address and flags below 4096 gives both back.\<close>

lemma pte_roundtrip:
  assumes "page_aligned pa" and "\<And>n. 12 \<le> n \<Longrightarrow> \<not> bit perm n"
  shows "PTE_ADDR (pa OR perm) = pa" and "PTE_FLAGS (pa OR perm) = perm"
proof -
  have "bit pa n \<Longrightarrow> 12 \<le> n" for n using assms(1) by (simp add: page_aligned_bits) (meson leI)
  moreover have "12 \<le> n \<Longrightarrow> \<not> bit perm n" for n by (rule assms(2))
  ultimately show "PTE_ADDR (pa OR perm) = pa" "PTE_FLAGS (pa OR perm) = perm"
    unfolding PTE_ADDR_def PTE_FLAGS_def FFF_mask
    by (auto intro!: bit_word_eqI simp: bit_simps) (meson leI leD)+
qed

section \<open>Segment and gate descriptors\<close>

definition SEG_KCODE :: nat where "SEG_KCODE = 1"

definition SEG_KDATA :: nat where "SEG_KDATA = 2"

definition SEG_UCODE :: nat where "SEG_UCODE = 3"

definition SEG_UDATA :: nat where "SEG_UDATA = 4"

definition SEG_TSS :: nat where "SEG_TSS = 5"

definition NSEGS :: nat where "NSEGS = 6"

definition DPL_USER :: u32 where "DPL_USER = 3"

definition FL_IF :: u32 where "FL_IF = 0x200"

definition STA_X :: "4 word" where "STA_X = 8"

definition STA_W :: "4 word" where "STA_W = 2"

definition STA_R :: "4 word" where "STA_R = 2"

definition STS_T32A :: "4 word" where "STS_T32A = 9"

definition STS_IG32 :: "4 word" where "STS_IG32 = 0xE"

definition STS_TG32 :: "4 word" where "STS_TG32 = 0xF"

definition SEG :: "4 word \<Rightarrow> u32 \<Rightarrow> u32 \<Rightarrow> 2 word \<Rightarrow> segdesc" where
  "SEG ty base lim dpl =
     \<lparr>lim_15_0 = ucast (drop_bit 12 lim), base_15_0 = ucast base, base_23_16 = ucast (drop_bit 16 base),
      seg_type = ty, seg_s = 1, seg_dpl = dpl, seg_p = 1, lim_19_16 = ucast (drop_bit 28 lim),
      seg_avl = 0, seg_rsv1 = 0, seg_db = 1, seg_g = 1, base_31_24 = ucast (drop_bit 24 base)\<rparr>"

definition SEG16 :: "4 word \<Rightarrow> u32 \<Rightarrow> u32 \<Rightarrow> 2 word \<Rightarrow> segdesc" where
  "SEG16 ty base lim dpl =
     \<lparr>lim_15_0 = ucast lim, base_15_0 = ucast base, base_23_16 = ucast (drop_bit 16 base),
      seg_type = ty, seg_s = 1, seg_dpl = dpl, seg_p = 1, lim_19_16 = ucast (drop_bit 16 lim),
      seg_avl = 0, seg_rsv1 = 0, seg_db = 1, seg_g = 0, base_31_24 = ucast (drop_bit 24 base)\<rparr>"

record gatedesc =
  off_15_0 :: "16 word"
  g_cs :: "16 word"
  g_args :: "5 word"
  g_rsv1 :: "3 word"
  g_type :: "4 word"
  g_s :: "1 word"
  g_dpl :: "2 word"
  g_p :: "1 word"
  off_31_16 :: "16 word"

definition SETGATE :: "bool \<Rightarrow> 16 word \<Rightarrow> u32 \<Rightarrow> 2 word \<Rightarrow> gatedesc" where
  "SETGATE istrap sel off d =
     \<lparr>off_15_0 = ucast off, g_cs = sel, g_args = 0, g_rsv1 = 0,
      g_type = (if istrap then STS_TG32 else STS_IG32), g_s = 0, g_dpl = d, g_p = 1,
      off_31_16 = ucast (drop_bit 16 off)\<rparr>"

text \<open>The code address that the processor loads from a gate.\<close>

definition gate_off :: "gatedesc \<Rightarrow> u32" where
  "gate_off g = ucast (off_15_0 g) OR push_bit 16 (ucast (off_31_16 g))"

lemma gate_off_SETGATE [simp]: "gate_off (SETGATE t sel off d) = off"
  unfolding gate_off_def SETGATE_def
  by (rule bit_word_eqI) (auto simp: bit_simps)

end
