(* ===== verification/Kalloc.thy ===== *)
theory Kalloc
  imports Spinlock Mmu
begin

text \<open>
  The physical page allocator \<^verbatim>\<open>kalloc.c\<close>: a list of free pages threaded through the pages
  themselves, in byte-addressed memory. The first address after the kernel, \<^verbatim>\<open>end\<close>, is set by the
  linker and is a parameter. The allocator refines a list of pages.
\<close>

abbreviation mem_upd :: "(mem \<Rightarrow> mem) \<Rightarrow> kernel \<Rightarrow> kernel" where
  "mem_upd f s \<equiv> s\<lparr>k_mem := f (k_mem s)\<rparr>"

text \<open>Code that takes a lock only once locking has been switched on.\<close>

definition when_lock :: "bool \<Rightarrow> lockid \<Rightarrow> 'a kop \<Rightarrow> 'a kop" where
  "when_lock b lk body = (if b then with_lock lk body else body)"

section \<open>Operations\<close>

definition kfree_list :: "u32 \<Rightarrow> kernel \<Rightarrow> kernel" where
  "kfree_list v s =
     s\<lparr>k_mem := st32 v (km_freelist (k_kmem s)) (k_mem s), k_kmem := (k_kmem s)\<lparr>km_freelist := v\<rparr>\<rparr>"

definition kfree :: "u32 \<Rightarrow> u32 \<Rightarrow> unit kop" where
  "kfree kend v =
     bindM (assertM (\<not> (v mod PGSIZE \<noteq> 0 \<or> v < kend \<or> PHYSTOP \<le> V2P v)) (Panic ''kfree'')) (\<lambda>_.
     bindM (modM (mem_upd (memset v 1 PGSIZE))) (\<lambda>_.
     bindM (getM (\<lambda>s. km_use_lock (k_kmem s))) (\<lambda>use_lock.
     when_lock use_lock LkKmem (modM (kfree_list v)))))"

definition kalloc_list :: "kernel \<Rightarrow> u32 \<times> kernel" where
  "kalloc_list s =
     (let r = km_freelist (k_kmem s) in
      if r \<noteq> 0 then (r, s\<lparr>k_kmem := (k_kmem s)\<lparr>km_freelist := ld32 (k_mem s) r\<rparr>\<rparr>) else (r, s))"

definition kalloc :: "u32 kop" where
  "kalloc =
     bindM (getM (\<lambda>s. km_use_lock (k_kmem s))) (\<lambda>use_lock.
     when_lock use_lock LkKmem (\<lambda>s. Inr (kalloc_list s)))"

text \<open>
  The loop of \<^verbatim>\<open>freerange\<close>. \<^verbatim>\<open>kfree\<close> stops before the address could wrap around, so the guard
  against it is never taken.
\<close>

function freerange_loop :: "u32 \<Rightarrow> u32 \<Rightarrow> u32 \<Rightarrow> unit kop" where
  "freerange_loop kend p vend =
     (if p + PGSIZE \<le> vend then
        bindM (kfree kend p) (\<lambda>_.
        if 4294967296 \<le> unat p + 4096 then failM Loops else freerange_loop kend (p + PGSIZE) vend)
      else retM ())"
  by pat_completeness auto
termination
proof (relation "measure (\<lambda>(kend, p, vend). 4294967296 - unat p)")
  fix kend p vend :: u32
  assume "\<not> 4294967296 \<le> unat p + 4096"
  then show "((kend, p + PGSIZE, vend), kend, p, vend) \<in> measure (\<lambda>(kend, p, vend). 4294967296 - unat p)"
    by (simp add: PGSIZE_def unat_add_u32)
qed simp

declare freerange_loop.simps [simp del]

definition freerange :: "u32 \<Rightarrow> u32 \<Rightarrow> u32 \<Rightarrow> unit kop" where
  "freerange kend vstart vend = freerange_loop kend (PGROUNDUP vstart) vend"

definition kinit1 :: "u32 \<Rightarrow> u32 \<Rightarrow> u32 \<Rightarrow> unit kop" where
  "kinit1 kend vstart vend =
     bindM (liftS (initlock LkKmem ''kmem'')) (\<lambda>_.
     bindM (modM (\<lambda>s. s\<lparr>k_kmem := (k_kmem s)\<lparr>km_use_lock := False\<rparr>\<rparr>)) (\<lambda>_.
     freerange kend vstart vend))"

definition kinit2 :: "u32 \<Rightarrow> u32 \<Rightarrow> u32 \<Rightarrow> unit kop" where
  "kinit2 kend vstart vend =
     bindM (freerange kend vstart vend) (\<lambda>_.
     modM (\<lambda>s. s\<lparr>k_kmem := (k_kmem s)\<lparr>km_use_lock := True\<rparr>\<rparr>))"

section \<open>Pages\<close>

definition in_page :: "u32 \<Rightarrow> u32 \<Rightarrow> bool" where
  "in_page p a \<longleftrightarrow> unat (a - p) < 4096"

definition kpage :: "u32 \<Rightarrow> u32 \<Rightarrow> bool" where
  "kpage kend v \<longleftrightarrow> v mod PGSIZE = 0 \<and> kend \<le> v \<and> V2P v < PHYSTOP"

lemma page_aligned_mod: "v mod PGSIZE = 0 \<longleftrightarrow> page_aligned v"
  by (simp add: page_aligned_def PGSIZE_def word_unat_eq_iff unat_mod)

lemma kpage_aligned: "kpage kend v \<Longrightarrow> page_aligned v"
  by (simp add: kpage_def page_aligned_mod)

lemma kpage_nonzero: "kpage kend v \<Longrightarrow> v \<noteq> 0"
  by (auto simp: kpage_def V2P_def KERNBASE_def PHYSTOP_def word_less_nat_alt)

lemma page_aligned_bound:
  assumes "page_aligned p" shows "unat p + 4096 \<le> 4294967296"
proof -
  have "unat p < 4294967296" using unsigned_less [of p, where ?'a = nat] by simp
  moreover obtain k where "unat p = 4096 * k" using assms by (auto simp: page_aligned_def mod_eq_0_iff_dvd)
  moreover from calculation have "k < 1048576" by linarith
  ultimately show ?thesis by linarith
qed

lemma in_page_unat:
  assumes "page_aligned p" and "in_page p a"
  shows "unat a = unat p + unat (a - p)"
proof -
  have "unat (p + (a - p)) = unat p + unat (a - p)"
    using assms page_aligned_bound [OF assms(1)] by (intro unat_add_u32) (simp add: in_page_def)
  then show ?thesis by simp
qed

lemma in_page_iff: "page_aligned p \<Longrightarrow> in_page p a \<longleftrightarrow> PGROUNDDOWN a = p"
proof
  assume al: "page_aligned p" and "in_page p a"
  from in_page_unat [OF this] this have "unat a div 4096 * 4096 = unat p"
    by (simp add: in_page_def page_aligned_def mod_eq_0_iff_dvd) fastforce
  then show "PGROUNDDOWN a = p" by (simp add: word_unat_eq_iff unat_PGROUNDDOWN)
next
  assume "PGROUNDDOWN a = p"
  then have "unat p = unat a div 4096 * 4096" by (auto simp: unat_PGROUNDDOWN)
  then have "unat (a - p) = unat a mod 4096"
    by (subst unat_diff_u32) (simp_all add: minus_div_mult_eq_mod)
  then show "in_page p a" by (simp add: in_page_def)
qed

lemma pages_disjoint:
  "page_aligned p \<Longrightarrow> page_aligned q \<Longrightarrow> in_page p a \<Longrightarrow> in_page q a \<Longrightarrow> p = q"
  by (simp add: in_page_iff)

text \<open>\<open>mem_same P m n\<close>: memories \<open>m\<close> and \<open>n\<close> agree on the pages in \<open>P\<close>.\<close>

definition mem_same :: "u32 set \<Rightarrow> mem \<Rightarrow> mem \<Rightarrow> bool" where
  "mem_same P m n \<longleftrightarrow> (\<forall>p \<in> P. \<forall>a. in_page p a \<longrightarrow> n a = m a)"

lemma mem_sameD: "mem_same P m n \<Longrightarrow> p \<in> P \<Longrightarrow> in_page p a \<Longrightarrow> n a = m a"
  by (simp add: mem_same_def)

lemma mem_same_refl [simp]: "mem_same P m m"
  by (simp add: mem_same_def)

lemma mem_same_trans: "mem_same P a b \<Longrightarrow> mem_same P b c \<Longrightarrow> mem_same P a c"
  by (simp add: mem_same_def)

lemma mem_same_mono: "mem_same P m n \<Longrightarrow> Q \<subseteq> P \<Longrightarrow> mem_same Q m n"
  by (auto simp: mem_same_def)

lemma in_page_offset: "unat i < 4096 \<Longrightarrow> in_page p (p + i)"
  by (simp add: in_page_def)

lemma ld32_same:
  assumes "mem_same P m n" and "p \<in> P" and "unat i + 4 \<le> 4096"
  shows "ld32 n (p + i) = ld32 m (p + i)"
proof -
  have "n (p + i + k) = m (p + i + k)" if "unat k < 4" for k
  proof -
    have "unat (i + k) = unat i + unat k" using assms(3) that by (intro unat_add_u32) simp
    with assms(3) that have "in_page p (p + (i + k))" by (intro in_page_offset) simp
    with assms(1,2) show ?thesis by (simp add: mem_same_def add.assoc)
  qed
  from this [of 0] this [of 1] this [of 2] this [of 3] show ?thesis by (simp add: ld32_def)
qed

section \<open>The interface of the allocator\<close>

text \<open>
  What clients rely on: the allocator holds a list of distinct pages, allocation takes the first,
  freeing puts a page back, and writing to pages that are not free does not disturb it.
\<close>

locale page_allocator =
  fixes free_pages :: "'s \<Rightarrow> u32 list \<Rightarrow> bool"
    and alloc :: "'s \<Rightarrow> u32 \<times> 's"
    and free :: "u32 \<Rightarrow> 's \<Rightarrow> 's"
    and is_page :: "u32 \<Rightarrow> bool"
  assumes pages: "free_pages s ps \<Longrightarrow> distinct ps \<and> (\<forall>p \<in> set ps. is_page p)"
    and page_nonzero: "is_page p \<Longrightarrow> p \<noteq> 0"
    and alloc_none: "free_pages s [] \<Longrightarrow> alloc s = (0, s)"
    and alloc_some: "free_pages s (p # ps) \<Longrightarrow> \<exists>t. alloc s = (p, t) \<and> free_pages t ps"
    and free_push: "free_pages s ps \<Longrightarrow> is_page p \<Longrightarrow> p \<notin> set ps \<Longrightarrow> free_pages (free p s) (p # ps)"
begin

fun alloc_many :: "nat \<Rightarrow> 's \<Rightarrow> u32 list \<times> 's" where
  "alloc_many 0 s = ([], s)"
| "alloc_many (Suc n) s = (case alloc s of (p, t) \<Rightarrow> case alloc_many n t of (ps, u) \<Rightarrow> (p # ps, u))"

lemma alloc_many_takes:
  "free_pages s ps \<Longrightarrow> n \<le> length ps \<Longrightarrow>
     \<exists>t. alloc_many n s = (take n ps, t) \<and> free_pages t (drop n ps)"
proof (induction n arbitrary: s ps)
  case (Suc n)
  then obtain p qs where ps: "ps = p # qs" by (cases ps) auto
  with alloc_some Suc.prems obtain t where t: "alloc s = (p, t)" "free_pages t qs" by blast
  with Suc.IH [of t qs] Suc.prems ps show ?case by auto
qed simp

lemma alloc_many_distinct:
  assumes "free_pages s ps" and "n \<le> length ps" and "alloc_many n s = (qs, t)"
  shows "distinct qs \<and> length qs = n \<and> 0 \<notin> set qs"
proof -
  from alloc_many_takes [OF assms(1,2)] assms(3) have "qs = take n ps" by auto
  with pages [OF assms(1)] assms(2) page_nonzero show ?thesis
    by (auto dest: in_set_takeD)
qed

lemma alloc_free:
  assumes "free_pages s (p # ps)" and "alloc s = (p, t)"
  shows "free_pages (free p t) (p # ps)"
  using alloc_some [OF assms(1)] assms(2) pages [OF assms(1)] free_push by auto

end

section \<open>The free list in memory\<close>

fun chain :: "mem \<Rightarrow> u32 \<Rightarrow> u32 list \<Rightarrow> bool" where
  "chain m h [] \<longleftrightarrow> h = 0"
| "chain m h (p # ps) \<longleftrightarrow> h = p \<and> p \<noteq> 0 \<and> chain m (ld32 m p) ps"

definition free_list :: "u32 \<Rightarrow> kernel \<Rightarrow> u32 list \<Rightarrow> bool" where
  "free_list kend s ps \<longleftrightarrow>
     chain (k_mem s) (km_freelist (k_kmem s)) ps \<and> distinct ps \<and> (\<forall>p \<in> set ps. kpage kend p)"

lemma chain_same: "mem_same (set ps) m n \<Longrightarrow> chain n h ps = chain m h ps"
proof (induction ps arbitrary: h)
  case (Cons p ps)
  have "ld32 n p = ld32 m p" using ld32_same [OF Cons.prems, of p 0] by simp
  moreover have "mem_same (set ps) m n" using Cons.prems by (rule mem_same_mono) auto
  ultimately show ?case using Cons.IH by simp
qed simp

text \<open>Writes outside the free pages keep the free list.\<close>

lemma free_list_same:
  assumes "free_list kend s ps" and "mem_same (set ps) (k_mem s) (k_mem t)" and "k_kmem t = k_kmem s"
  shows "free_list kend t ps"
  using assms chain_same [OF assms(2)] by (simp add: free_list_def)

text \<open>\<open>changes_in p m n\<close>: only bytes of page \<open>p\<close> differ.\<close>

definition changes_in :: "u32 \<Rightarrow> mem \<Rightarrow> mem \<Rightarrow> bool" where
  "changes_in p m n \<longleftrightarrow> (\<forall>a. \<not> in_page p a \<longrightarrow> n a = m a)"

lemma changes_in_same:
  assumes "changes_in p m n" and "page_aligned p" and "p \<notin> P" and "\<And>q. q \<in> P \<Longrightarrow> page_aligned q"
  shows "mem_same P m n"
  using assms pages_disjoint unfolding changes_in_def mem_same_def by metis

lemma changes_in_refl [simp]: "changes_in p m m"
  by (simp add: changes_in_def)

lemma changes_in_trans: "changes_in p a b \<Longrightarrow> changes_in p b c \<Longrightarrow> changes_in p a c"
  by (simp add: changes_in_def)

lemma changes_in_memset: "unat n \<le> 4096 \<Longrightarrow> changes_in p m (memset p c n m)"
  by (auto simp: changes_in_def memset_filled filled_def in_page_def)

lemma changes_in_st32:
  assumes "unat i + 4 \<le> 4096"
  shows "changes_in p m (st32 (p + i) w m)"
  unfolding changes_in_def
proof (intro allI impI)
  fix a
  assume "\<not> in_page p a"
  show "st32 (p + i) w m a = m a"
  proof (rule st32_other, rule ccontr)
    assume "\<not> 4 \<le> unat (a - (p + i))"
    then have "unat (i + (a - (p + i))) = unat i + unat (a - (p + i))"
      using assms by (intro unat_add_u32) simp
    then have "unat (a - p) < 4096" using assms \<open>\<not> 4 \<le> unat (a - (p + i))\<close> by (simp add: algebra_simps)
    with \<open>\<not> in_page p a\<close> show False by (simp add: in_page_def)
  qed
qed

lemma kfree_list_push:
  assumes "free_list kend s ps" and "kpage kend v" and "v \<notin> set ps"
  shows "free_list kend (kfree_list v (mem_upd (memset v 1 PGSIZE) s)) (v # ps)"
proof -
  let ?m = "st32 v (km_freelist (k_kmem s)) (memset v 1 PGSIZE (k_mem s))"
  have "changes_in v (k_mem s) (memset v 1 PGSIZE (k_mem s))" by (rule changes_in_memset) (simp add: PGSIZE_def)
  then have "changes_in v (k_mem s) ?m"
    by (rule changes_in_trans) (use changes_in_st32 [of 0 v] in simp)
  then have "mem_same (set ps) (k_mem s) ?m"
    using assms by (intro changes_in_same [of v]) (auto simp: free_list_def kpage_aligned)
  then have "chain ?m (km_freelist (k_kmem s)) ps"
    using assms(1) chain_same by (simp add: free_list_def)
  then show ?thesis
    using assms kpage_nonzero [OF assms(2)] by (simp add: free_list_def kfree_list_def)
qed

lemma kalloc_list_pop:
  assumes "free_list kend s (p # ps)"
  shows "\<exists>t. kalloc_list s = (p, t) \<and> free_list kend t ps"
  using assms by (simp add: kalloc_list_def free_list_def Let_def)

lemma kalloc_list_none: "free_list kend s [] \<Longrightarrow> kalloc_list s = (0, s)"
  by (simp add: kalloc_list_def free_list_def)

interpretation ka: page_allocator "free_list kend" kalloc_list
  "\<lambda>v s. kfree_list v (mem_upd (memset v 1 PGSIZE) s)" "kpage kend" for kend
proof unfold_locales
  show "distinct ps \<and> (\<forall>p \<in> set ps. kpage kend p)" if "free_list kend s ps" for s ps
    using that by (simp add: free_list_def)
qed (use kpage_nonzero kalloc_list_none kalloc_list_pop kfree_list_push in blast)+

section \<open>The operations with their locking\<close>

lemma sync_indep_kfree_list [sync_indep_intros]: "sync_indep (modM (kfree_list v))"
  by (rule sync_indep_modM) (simp add: kfree_list_def)

lemma sync_indep_kalloc_list [sync_indep_intros]: "sync_indep (\<lambda>s. Inr (kalloc_list s))"
  by (simp add: sync_indep_def kalloc_list_def Let_def)

lemma when_lock_quiet: "sync_indep body \<Longrightarrow> quiet (k_sync s) \<Longrightarrow> when_lock b lk body s = body s"
  by (simp add: when_lock_def with_lock_quiet)

lemma kalloc_quiet [run_simps]: "quiet (k_sync s) \<Longrightarrow> kalloc s = Inr (kalloc_list s)"
  by (simp add: kalloc_def bindM_def getM_def when_lock_quiet sync_indep_kalloc_list)

lemma kfree_quiet [run_simps]:
  "quiet (k_sync s) \<Longrightarrow> kfree kend v s =
     (if kpage kend v then Inr ((), kfree_list v (mem_upd (memset v 1 PGSIZE) s)) else Inl (Panic ''kfree''))"
  by (auto simp: kfree_def bindM_def getM_def modM_def assertM_def when_lock_quiet sync_indep_kfree_list kpage_def not_less not_le)

text \<open>
  C14: The page allocator implements a list of distinct pages. In a state with no lock held whose
  free list (threaded through memory) holds \<open>ps\<close>: \<^verbatim>\<open>kalloc\<close> returns 0 if \<open>ps\<close> is empty, and
  otherwise its first page, which is then no longer in the list; \<^verbatim>\<open>kfree\<close> of any other page of
  allocatable memory succeeds and puts it in front; and \<^verbatim>\<open>kfree\<close> of an address that is not such a
  page panics.
\<close>
theorem kalloc_kfree_refine_list:
  assumes "quiet (k_sync s)" and "free_list kend s ps"
  shows "(case ps of
       [] \<Rightarrow> kalloc s = Inr (0, s)
     | p # qs \<Rightarrow> \<exists>t. kalloc s = Inr (p, t) \<and> p \<noteq> 0 \<and> p \<notin> set qs \<and> free_list kend t qs)
   \<and> (kpage kend v \<and> v \<notin> set ps \<longrightarrow> (\<exists>t. kfree kend v s = Inr ((), t) \<and> free_list kend t (v # ps)))
   \<and> (\<not> kpage kend v \<longrightarrow> kfree kend v s = Inl (Panic ''kfree''))"
proof (intro conjI impI)
  show "case ps of [] \<Rightarrow> kalloc s = Inr (0, s)
     | p # qs \<Rightarrow> \<exists>t. kalloc s = Inr (p, t) \<and> p \<noteq> 0 \<and> p \<notin> set qs \<and> free_list kend t qs"
    using assms ka.alloc_some [of kend s] ka.alloc_none [of kend s] ka.pages [OF assms(2)] kpage_nonzero
    by (cases ps) (fastforce simp: kalloc_quiet)+
qed (use assms ka.free_push [OF assms(2)] in \<open>auto simp: kfree_quiet\<close>)

definition ex_pages :: kernel where
  "ex_pages = kfree_list 0x80400000 (kfree_list 0x80401000 (kernel0 (\<lambda>_. 0) []))"

lemma ex_pages_list: "free_list 0x80110000 ex_pages [0x80400000, 0x80401000]"
proof -
  have "ld32 (st32 0x80401000 0 (\<lambda>_. 0)) 0x80401000 = 0" by simp
  moreover have "ld32 (st32 0x80400000 0x80401000 (st32 0x80401000 0 (\<lambda>_. 0))) 0x80401000 = 0"
    by (simp add: ld32_def st32_def u32_le_def byte_at_def)
  ultimately show ?thesis
    by (simp add: free_list_def ex_pages_def kfree_list_def kernel0_def kpage_def PGSIZE_def V2P_def KERNBASE_def PHYSTOP_def)
qed

theorem kalloc_kfree_refine_list_witness:
  "\<exists>t. kalloc ex_pages = Inr (0x80400000, t) \<and> free_list 0x80110000 t [0x80401000]"
proof -
  have "quiet (k_sync ex_pages)" by (simp add: ex_pages_def kfree_list_def kernel0_def quiet_sync0)
  from kalloc_kfree_refine_list [OF this ex_pages_list, of 0] show ?thesis by auto
qed

end
