(* ===== verification/Vm.thy ===== *)
theory Vm
  imports Kalloc
begin

text \<open>
  Virtual memory, \<^verbatim>\<open>vm.c\<close>: two-level page tables in byte-addressed memory. \<^verbatim>\<open>loaduvm\<close>, which
  reads a file, is in the theory of the file system's clients. Page tables and pages are named by
  their kernel virtual address. Messages printed to the console are left out.
\<close>

section \<open>What the linker and the assembler provide\<close>

text \<open>
  Addresses in the kernel image (\<^verbatim>\<open>end\<close>, \<^verbatim>\<open>data\<close>, \<^verbatim>\<open>forkret\<close>, the task state segment of each
  CPU) and the code of the first process, \<^verbatim>\<open>initcode\<close>.
\<close>

record image =
  im_end :: u32
  im_data :: u32
  im_forkret :: u32
  im_ts :: "nat \<Rightarrow> u32"
  im_initcode :: "u8 list"

section \<open>Loops over addresses\<close>

text \<open>
  \<open>for_up lim a body\<close> is \<^verbatim>\<open>for(; a < lim; a = next) body\<close>: the body gives the next address or
  returns from the function. If the address wraps around the loop does not end.
\<close>

datatype 'a iter = Continue u32 | Return 'a

function for_up :: "u32 \<Rightarrow> u32 \<Rightarrow> (u32 \<Rightarrow> ('s, 'a iter) op) \<Rightarrow> ('s, 'a option) op" where
  "for_up lim a body =
     (if a < lim then
        bindM (body a) (\<lambda>r.
        case r of
          Return v \<Rightarrow> retM (Some v)
        | Continue b \<Rightarrow> if b \<le> a then failM Loops else for_up lim b body)
      else retM None)"
  by pat_completeness auto
termination
  by (relation "measure (\<lambda>(lim, a, body). unat lim - unat a)") (auto simp: word_less_nat_alt word_le_nat_alt)

declare for_up.simps [simp del]

section \<open>Bytes in memory\<close>

fun wr_bytes :: "u32 \<Rightarrow> u8 list \<Rightarrow> mem \<Rightarrow> mem" where
  "wr_bytes a [] m = m"
| "wr_bytes a (b # bs) m = wr_bytes (a + 1) bs (m(a := b))"

definition rd_bytes :: "mem \<Rightarrow> u32 \<Rightarrow> nat \<Rightarrow> u8 list" where
  "rd_bytes m a n = map (\<lambda>i. m (a + of_nat i)) [0..<n]"

section \<open>Segments\<close>

definition seginit :: "unit kop" where
  "seginit =
     bindM (liftS cpuid) (\<lambda>i.
     liftS (modM (cpu_upd i (\<lambda>c. c\<lparr>c_gdt := (c_gdt c)
       [SEG_KCODE := SEG (STA_X OR STA_R) 0 0xffffffff 0,
        SEG_KDATA := SEG STA_W 0 0xffffffff 0,
        SEG_UCODE := SEG (STA_X OR STA_R) 0 0xffffffff (ucast DPL_USER),
        SEG_UDATA := SEG STA_W 0 0xffffffff (ucast DPL_USER)]\<rparr>))))"

section \<open>Page tables\<close>

definition pde_ref :: "u32 \<Rightarrow> u32 \<Rightarrow> u32" where
  "pde_ref pgdir va = pgdir + 4 * PDX va"

definition pte_ref :: "u32 \<Rightarrow> u32 \<Rightarrow> u32" where
  "pte_ref pgtab va = pgtab + 4 * PTX va"

definition walkpgdir :: "u32 \<Rightarrow> u32 \<Rightarrow> bool \<Rightarrow> u32 kop" where
  "walkpgdir pgdir va alloc =
     bindM (getM (\<lambda>s. ld32 (k_mem s) (pde_ref pgdir va))) (\<lambda>pde.
     if pde AND PTE_P \<noteq> 0 then retM (pte_ref (P2V (PTE_ADDR pde)) va)
     else if \<not> alloc then retM 0
     else bindM kalloc (\<lambda>pgtab.
       if pgtab = 0 then retM 0
       else
         bindM (modM (mem_upd (memset pgtab 0 PGSIZE))) (\<lambda>_.
         bindM (modM (mem_upd (st32 (pde_ref pgdir va) (V2P pgtab OR PTE_P OR PTE_W OR PTE_U)))) (\<lambda>_.
         retM (pte_ref pgtab va)))))"

text \<open>
  The endless loop of \<^verbatim>\<open>mappages\<close> stops at the last page; both addresses are page-aligned, so
  that it is met after finitely many pages.
\<close>

function mappages_loop :: "u32 \<Rightarrow> u32 \<Rightarrow> u32 \<Rightarrow> u32 \<Rightarrow> u32 \<Rightarrow> int kop" where
  "mappages_loop pgdir a la pa perm =
     bindM (walkpgdir pgdir a True) (\<lambda>pte.
     if pte = 0 then retM (- 1)
     else
       bindM (getM (\<lambda>s. ld32 (k_mem s) pte)) (\<lambda>old.
       if old AND PTE_P \<noteq> 0 then failM (Panic ''remap'')
       else
         bindM (modM (mem_upd (st32 pte (pa OR perm OR PTE_P)))) (\<lambda>_.
         if a = la then retM 0
         else if unat (la - a) < 4096 then failM Loops
         else mappages_loop pgdir (a + PGSIZE) la (pa + PGSIZE) perm)))"
  by pat_completeness auto
termination
proof (relation "measure (\<lambda>(pgdir, a, la, pa, perm). unat (la - a))", goal_cases)
  case (2 pgdir a la pa perm)
  then have "unat (la - a - PGSIZE) < unat (la - a)"
    by (subst unat_diff_u32) (simp_all add: PGSIZE_def)
  then show ?case by (simp add: diff_diff_add)
qed simp

declare mappages_loop.simps [simp del]

definition mappages :: "u32 \<Rightarrow> u32 \<Rightarrow> u32 \<Rightarrow> u32 \<Rightarrow> u32 \<Rightarrow> int kop" where
  "mappages pgdir va sz pa perm =
     mappages_loop pgdir (PGROUNDDOWN va) (PGROUNDDOWN (va + sz - 1)) pa perm"

section \<open>Freeing address spaces\<close>

definition deallocuvm :: "image \<Rightarrow> u32 \<Rightarrow> u32 \<Rightarrow> u32 \<Rightarrow> u32 kop" where
  "deallocuvm im pgdir oldsz newsz =
     (if oldsz \<le> newsz then retM oldsz
      else
        bindM (for_up oldsz (PGROUNDUP newsz) (\<lambda>a.
          bindM (walkpgdir pgdir a False) (\<lambda>pte.
          if pte = 0 then retM (Continue (PGADDR (PDX a + 1) 0 0 - PGSIZE + PGSIZE))
          else
            bindM (getM (\<lambda>s. ld32 (k_mem s) pte)) (\<lambda>e.
            if e AND PTE_P \<noteq> 0 then
              bindM (assertM (PTE_ADDR e \<noteq> 0) (Panic ''kfree'')) (\<lambda>_.
              bindM (kfree (im_end im) (P2V (PTE_ADDR e))) (\<lambda>_.
              bindM (modM (mem_upd (st32 pte 0))) (\<lambda>_.
              retM (Continue (a + PGSIZE)))))
            else retM (Continue (a + PGSIZE))))
          :: (kernel, unit iter) op)) (\<lambda>_.
        retM newsz))"

fun free_tables :: "image \<Rightarrow> u32 \<Rightarrow> nat list \<Rightarrow> unit kop" where
  "free_tables im pgdir [] = retM ()"
| "free_tables im pgdir (i # is) =
     bindM (getM (\<lambda>s. ld32 (k_mem s) (pgdir + 4 * of_nat i))) (\<lambda>pde.
     bindM (if pde AND PTE_P \<noteq> 0 then kfree (im_end im) (P2V (PTE_ADDR pde)) else retM ()) (\<lambda>_.
     free_tables im pgdir is))"

definition freevm :: "image \<Rightarrow> u32 \<Rightarrow> unit kop" where
  "freevm im pgdir =
     bindM (assertM (pgdir \<noteq> 0) (Panic ''freevm: no pgdir'')) (\<lambda>_.
     bindM (deallocuvm im pgdir KERNBASE 0) (\<lambda>_.
     bindM (free_tables im pgdir [0..<NPDENTRIES]) (\<lambda>_.
     kfree (im_end im) pgdir)))"

section \<open>Kernel mappings\<close>

record kmap =
  km_virt :: u32
  km_phys_start :: u32
  km_phys_end :: u32
  km_perm :: u32

definition kmaps :: "image \<Rightarrow> kmap list" where
  "kmaps im =
     [\<lparr>km_virt = KERNBASE, km_phys_start = 0, km_phys_end = EXTMEM, km_perm = PTE_W\<rparr>,
      \<lparr>km_virt = KERNLINK, km_phys_start = V2P KERNLINK, km_phys_end = V2P (im_data im), km_perm = 0\<rparr>,
      \<lparr>km_virt = im_data im, km_phys_start = V2P (im_data im), km_phys_end = PHYSTOP, km_perm = PTE_W\<rparr>,
      \<lparr>km_virt = DEVSPACE, km_phys_start = DEVSPACE, km_phys_end = 0, km_perm = PTE_W\<rparr>]"

fun map_kernel :: "u32 \<Rightarrow> kmap list \<Rightarrow> bool kop" where
  "map_kernel pgdir [] = retM True"
| "map_kernel pgdir (k # ks) =
     bindM (mappages pgdir (km_virt k) (km_phys_end k - km_phys_start k) (km_phys_start k) (km_perm k)) (\<lambda>r.
     if r < 0 then retM False else map_kernel pgdir ks)"

definition setupkvm :: "image \<Rightarrow> u32 kop" where
  "setupkvm im =
     bindM kalloc (\<lambda>pgdir.
     if pgdir = 0 then retM 0
     else
       bindM (modM (mem_upd (memset pgdir 0 PGSIZE))) (\<lambda>_.
       bindM (assertM (P2V PHYSTOP \<le> DEVSPACE) (Panic ''PHYSTOP too high'')) (\<lambda>_.
       bindM (map_kernel pgdir (kmaps im)) (\<lambda>ok.
       if ok then retM pgdir else bindM (freevm im pgdir) (\<lambda>_. retM 0)))))"

text \<open>Loading \<^verbatim>\<open>%cr3\<close> sets the current page table.\<close>

definition lcr3 :: "u32 \<Rightarrow> unit kop" where
  "lcr3 v = modM (\<lambda>s. s\<lparr>k_cr3 := v\<rparr>)"

definition switchkvm :: "unit kop" where
  "switchkvm = bindM (getM k_kpgdir) (\<lambda>d. lcr3 (V2P d))"

definition kvmalloc :: "image \<Rightarrow> unit kop" where
  "kvmalloc im = bindM (setupkvm im) (\<lambda>d. bindM (modM (\<lambda>s. s\<lparr>k_kpgdir := d\<rparr>)) (\<lambda>_. switchkvm))"

definition switchuvm :: "image \<Rightarrow> nat option \<Rightarrow> unit kop" where
  "switchuvm im pp =
     bindM (theM (Panic ''switchuvm: no process'') pp) (\<lambda>i.
     bindM (getM (\<lambda>s. pt_procs (k_ptab s) ! i)) (\<lambda>p.
     bindM (assertM (p_kstack p \<noteq> 0) (Panic ''switchuvm: no kstack'')) (\<lambda>_.
     bindM (assertM (p_pgdir p \<noteq> 0) (Panic ''switchuvm: no pgdir'')) (\<lambda>_.
     bindM (liftS pushcli) (\<lambda>_.
     bindM (liftS mycpu) (\<lambda>c.
     bindM (liftS (modM (cpu_upd c (\<lambda>u. u\<lparr>
       c_gdt := (c_gdt u)[SEG_TSS := (SEG16 STS_T32A (im_ts im c) 103 0)\<lparr>seg_s := 0\<rparr>],
       c_ss0 := of_nat (SEG_KDATA * 8), c_esp0 := p_kstack p + of_nat KSTACKSIZE, c_iomb := 0xFFFF\<rparr>)))) (\<lambda>_.
     bindM (lcr3 (V2P (p_pgdir p))) (\<lambda>_.
     liftS popcli))))))))"

section \<open>User memory\<close>

definition inituvm :: "u32 \<Rightarrow> u8 list \<Rightarrow> u32 \<Rightarrow> unit kop" where
  "inituvm pgdir init sz =
     bindM (assertM (sz < PGSIZE) (Panic ''inituvm: more than a page'')) (\<lambda>_.
     bindM kalloc (\<lambda>mem.
     bindM (assertM (mem \<noteq> 0) Wild) (\<lambda>_.
     bindM (modM (mem_upd (memset mem 0 PGSIZE))) (\<lambda>_.
     bindM (mappages pgdir 0 PGSIZE (V2P mem) (PTE_W OR PTE_U)) (\<lambda>_.
     modM (mem_upd (wr_bytes mem (take (unat sz) init))))))))"

text \<open>
  The two messages of \<^verbatim>\<open>allocuvm\<close> about a lack of memory are left out.
\<close>

definition allocuvm :: "image \<Rightarrow> u32 \<Rightarrow> u32 \<Rightarrow> u32 \<Rightarrow> u32 kop" where
  "allocuvm im pgdir oldsz newsz =
     (if KERNBASE \<le> newsz then retM 0
      else if newsz < oldsz then retM oldsz
      else
        bindM (for_up newsz (PGROUNDUP oldsz) (\<lambda>a.
          bindM kalloc (\<lambda>mem.
          if mem = 0 then bindM (deallocuvm im pgdir newsz oldsz) (\<lambda>_. retM (Return 0))
          else
            bindM (modM (mem_upd (memset mem 0 PGSIZE))) (\<lambda>_.
            bindM (mappages pgdir a PGSIZE (V2P mem) (PTE_W OR PTE_U)) (\<lambda>r.
            if r < 0 then
              bindM (deallocuvm im pgdir newsz oldsz) (\<lambda>_.
              bindM (kfree (im_end im) mem) (\<lambda>_. retM (Return 0)))
            else retM (Continue (a + PGSIZE))))))) (\<lambda>r.
        retM (case r of Some v \<Rightarrow> v | None \<Rightarrow> newsz)))"

definition clearpteu :: "u32 \<Rightarrow> u32 \<Rightarrow> unit kop" where
  "clearpteu pgdir uva =
     bindM (walkpgdir pgdir uva False) (\<lambda>pte.
     bindM (assertM (pte \<noteq> 0) (Panic ''clearpteu'')) (\<lambda>_.
     modM (mem_upd (\<lambda>m. st32 pte (ld32 m pte AND NOT PTE_U) m))))"

definition copyuvm :: "image \<Rightarrow> u32 \<Rightarrow> u32 \<Rightarrow> u32 kop" where
  "copyuvm im pgdir sz =
     bindM (setupkvm im) (\<lambda>d.
     if d = 0 then retM 0
     else
       bindM (for_up sz 0 (\<lambda>i.
         bindM (walkpgdir pgdir i False) (\<lambda>pte.
         bindM (assertM (pte \<noteq> 0) (Panic ''copyuvm: pte should exist'')) (\<lambda>_.
         bindM (getM (\<lambda>s. ld32 (k_mem s) pte)) (\<lambda>e.
         bindM (assertM (e AND PTE_P \<noteq> 0) (Panic ''copyuvm: page not present'')) (\<lambda>_.
         bindM kalloc (\<lambda>mem.
         if mem = 0 then retM (Return ())
         else
           bindM (modM (mem_upd (memmove mem (P2V (PTE_ADDR e)) PGSIZE))) (\<lambda>_.
           bindM (mappages d i PGSIZE (V2P mem) (PTE_FLAGS e)) (\<lambda>r.
           if r < 0 then bindM (kfree (im_end im) mem) (\<lambda>_. retM (Return ()))
           else retM (Continue (i + PGSIZE))))))))))) (\<lambda>bad.
       if bad = None then retM d else bindM (freevm im d) (\<lambda>_. retM 0)))"

text \<open>\<^verbatim>\<open>uva2ka\<close> reads through the pointer that \<^verbatim>\<open>walkpgdir\<close> returns without testing it.\<close>

definition uva2ka :: "u32 \<Rightarrow> u32 \<Rightarrow> u32 kop" where
  "uva2ka pgdir uva =
     bindM (walkpgdir pgdir uva False) (\<lambda>pte.
     bindM (assertM (pte \<noteq> 0) Wild) (\<lambda>_.
     bindM (getM (\<lambda>s. ld32 (k_mem s) pte)) (\<lambda>e.
     if e AND PTE_P = 0 then retM 0
     else if e AND PTE_U = 0 then retM 0
     else retM (P2V (PTE_ADDR e)))))"

text \<open>The source of \<^verbatim>\<open>copyout\<close> is the list of bytes at the pointer.\<close>

lemma page_rest_pos: "0 < unat (PGSIZE - (va - PGROUNDDOWN va))"
proof -
  have "unat (va - PGROUNDDOWN va) = unat va mod 4096"
    by (subst unat_diff_u32) (simp_all add: unat_PGROUNDDOWN minus_div_mult_eq_mod)
  then have "unat (PGSIZE - (va - PGROUNDDOWN va)) = 4096 - unat va mod 4096"
    by (subst unat_diff_u32) (simp_all add: PGSIZE_def less_imp_le)
  then show ?thesis by simp
qed

function copyout :: "u32 \<Rightarrow> u32 \<Rightarrow> u8 list \<Rightarrow> int kop" where
  "copyout pgdir va buf =
     (if buf = [] then retM 0
      else
        bindM (uva2ka pgdir (PGROUNDDOWN va)) (\<lambda>pa0.
        if pa0 = 0 then retM (- 1)
        else
          bindM (modM (mem_upd (wr_bytes (pa0 + (va - PGROUNDDOWN va))
            (take (unat (PGSIZE - (va - PGROUNDDOWN va))) buf)))) (\<lambda>_.
          copyout pgdir (PGROUNDDOWN va + PGSIZE) (drop (unat (PGSIZE - (va - PGROUNDDOWN va))) buf))))"
  by pat_completeness auto
termination
  by (relation "measure (\<lambda>(pgdir, va, buf). length buf)") (auto simp: page_rest_pos)

declare copyout.simps [simp del]

section \<open>Accesses through the current page table\<close>

text \<open>
  The translation that the processor makes for an access by the kernel. Above \<^verbatim>\<open>KERNBASE\<close> the
  mappings of \<^verbatim>\<open>setupkvm\<close> are direct; below, the two levels of the table in \<^verbatim>\<open>%cr3\<close> are walked.
  With \<^verbatim>\<open>CR0_WP\<close> set, writes need \<^verbatim>\<open>PTE_W\<close> in both entries. An access without translation
  faults, and a fault in the kernel panics.
\<close>

definition kva :: "bool \<Rightarrow> kernel \<Rightarrow> u32 \<Rightarrow> u32 option" where
  "kva wr s va =
     (if KERNBASE \<le> va then Some va
      else
        let pde = ld32 (k_mem s) (pde_ref (P2V (k_cr3 s)) va);
            pte = ld32 (k_mem s) (pte_ref (P2V (PTE_ADDR pde)) va)
        in if pde AND PTE_P = 0 \<or> pte AND PTE_P = 0 then None
           else if wr \<and> (pde AND PTE_W = 0 \<or> pte AND PTE_W = 0) then None
           else Some (P2V (PTE_ADDR pte) + (va AND 0xFFF)))"

definition vload8 :: "u32 \<Rightarrow> u8 kop" where
  "vload8 va s = (case kva False s va of None \<Rightarrow> Inl (Panic ''trap'') | Some a \<Rightarrow> Inr (k_mem s a, s))"

definition vstore8 :: "u32 \<Rightarrow> u8 \<Rightarrow> unit kop" where
  "vstore8 va b s =
     (case kva True s va of None \<Rightarrow> Inl (Panic ''trap'') | Some a \<Rightarrow> Inr ((), s\<lparr>k_mem := (k_mem s)(a := b)\<rparr>))"

fun vload :: "u32 \<Rightarrow> nat \<Rightarrow> u8 list kop" where
  "vload va 0 = retM []"
| "vload va (Suc n) = bindM (vload8 va) (\<lambda>b. bindM (vload (va + 1) n) (\<lambda>bs. retM (b # bs)))"

fun vstore :: "u32 \<Rightarrow> u8 list \<Rightarrow> unit kop" where
  "vstore va [] = retM ()"
| "vstore va (b # bs) = bindM (vstore8 va b) (\<lambda>_. vstore (va + 1) bs)"

definition vload32 :: "u32 \<Rightarrow> u32 kop" where
  "vload32 va = bindM (vload va 4) (\<lambda>bs. retM (u32_le (bs ! 0) (bs ! 1) (bs ! 2) (bs ! 3)))"

definition vstore32 :: "u32 \<Rightarrow> u32 \<Rightarrow> unit kop" where
  "vstore32 va w = vstore va [byte_at 0 w, byte_at 1 w, byte_at 2 w, byte_at 3 w]"

end
