(* ===== verification/Scheduler.thy ===== *)
theory Scheduler
  imports Sched_Policy ProcMachine Vm
begin

text \<open>
  Switching between processes and the scheduler of a CPU: \<^verbatim>\<open>scheduler\<close>, \<^verbatim>\<open>sched\<close>, \<^verbatim>\<open>yield\<close>,
  \<^verbatim>\<open>sleep\<close>, \<^verbatim>\<open>wakeup\<close> of \<^verbatim>\<open>proc.c\<close>. A function that gives up the CPU is cut in two where
  \<^verbatim>\<open>swtch\<close> leaves it: the first part runs until the switch, the second when the process runs
  again. The saved registers that \<^verbatim>\<open>swtch\<close> exchanges are not part of the state.
\<close>

section \<open>Operations that ignore the locking state\<close>

text \<open>The process that the executing CPU runs.\<close>

definition cur :: "sync \<Rightarrow> nat option" where
  "cur y = c_proc (cpus y ! the (find_cpu y))"

text \<open>
  \<open>lock_neutral L m\<close>: started with the locks in \<open>L\<close> free, \<open>m\<close> gives its locks back and does the
  same whatever other locks are held. Critical sections of such operations do nothing but run them.
\<close>

definition sync_alike :: "lockid set \<Rightarrow> sync \<Rightarrow> sync \<Rightarrow> bool" where
  "sync_alike L x y \<longleftrightarrow> calm x \<and> calm y \<and> (\<forall>lk \<in> L. lock_free lk x \<and> lock_free lk y) \<and> cur y = cur x"

definition lock_neutral :: "lockid set \<Rightarrow> 'a kop \<Rightarrow> bool" where
  "lock_neutral L m \<longleftrightarrow>
     (\<forall>s y. sync_alike L (k_sync s) y \<longrightarrow>
        m (s\<lparr>k_sync := y\<rparr>) = (case m s of Inl e \<Rightarrow> Inl e | Inr (a, t) \<Rightarrow> Inr (a, t\<lparr>k_sync := y\<rparr>)) \<and>
        (\<forall>a t. m s = Inr (a, t) \<longrightarrow> k_sync t = k_sync s))"

lemma lock_neutralD:
  assumes "lock_neutral L m" and "sync_alike L (k_sync s) y"
  shows "m s = Inl e \<Longrightarrow> m (s\<lparr>k_sync := y\<rparr>) = Inl e"
    and "m s = Inr (a, t) \<Longrightarrow> m (s\<lparr>k_sync := y\<rparr>) = Inr (a, t\<lparr>k_sync := y\<rparr>)"
    and "m s = Inr (a, t) \<Longrightarrow> k_sync t = k_sync s"
proof -
  from assms have *: "m (s\<lparr>k_sync := y\<rparr>) = (case m s of Inl e \<Rightarrow> Inl e | Inr (a, t) \<Rightarrow> Inr (a, t\<lparr>k_sync := y\<rparr>))"
    and k: "\<And>a t. m s = Inr (a, t) \<Longrightarrow> k_sync t = k_sync s"
    unfolding lock_neutral_def by blast+
  show "m s = Inl e \<Longrightarrow> m (s\<lparr>k_sync := y\<rparr>) = Inl e" using * by simp
  show "m s = Inr (a, t) \<Longrightarrow> m (s\<lparr>k_sync := y\<rparr>) = Inr (a, t\<lparr>k_sync := y\<rparr>)" using * by simp
  show "m s = Inr (a, t) \<Longrightarrow> k_sync t = k_sync s" by (rule k)
qed

lemma lock_neutralI:
  assumes "\<And>s y e. sync_alike L (k_sync s) y \<Longrightarrow> m s = Inl e \<Longrightarrow> m (s\<lparr>k_sync := y\<rparr>) = Inl e"
    and "\<And>s y a t. sync_alike L (k_sync s) y \<Longrightarrow> m s = Inr (a, t) \<Longrightarrow>
      m (s\<lparr>k_sync := y\<rparr>) = Inr (a, t\<lparr>k_sync := y\<rparr>) \<and> k_sync t = k_sync s"
  shows "lock_neutral L m"
  unfolding lock_neutral_def
proof (intro allI impI)
  fix s :: kernel and y
  assume A: "sync_alike L (k_sync s) y"
  show "m (s\<lparr>k_sync := y\<rparr>) = (case m s of Inl e \<Rightarrow> Inl e | Inr (a, t) \<Rightarrow> Inr (a, t\<lparr>k_sync := y\<rparr>)) \<and>
      (\<forall>a t. m s = Inr (a, t) \<longrightarrow> k_sync t = k_sync s)"
  proof (cases "m s")
    case (Inl e)
    with assms(1) [OF A Inl] show ?thesis by simp
  next
    case (Inr p)
    obtain a t where "p = (a, t)" by force
    with Inr assms(2) [OF A, of a t] show ?thesis by simp
  qed
qed

lemma sync_alike_refl: "calm y \<Longrightarrow> (\<And>lk. lk \<in> L \<Longrightarrow> lock_free lk y) \<Longrightarrow> sync_alike L y y"
  by (simp add: sync_alike_def)

lemma lock_neutral_keeps:
  assumes "lock_neutral L m" and "calm (k_sync s)" and "\<And>lk. lk \<in> L \<Longrightarrow> lock_free lk (k_sync s)"
    and "m s = Inr (a, t)"
  shows "k_sync t = k_sync s"
  using lock_neutralD(3) [OF assms(1) sync_alike_refl [OF assms(2,3)] assms(4)] by blast

lemma cur_acquired [simp]: "calm y \<Longrightarrow> cur (acquired lk y) = cur y"
  by (auto simp: cur_def acquired_def pushed_def calm_def find_cpu_lt split: option.splits)

named_theorems neutral_intros \<open>operations that ignore the locking state\<close>

lemma neutral_sync_indep [neutral_intros]:
  assumes "sync_indep m" shows "lock_neutral L m"
  using sync_indep_InlD [OF assms] sync_indepD [OF assms] sync_indep_keeps [OF assms]
  by (intro lock_neutralI) blast+

lemma neutral_mono:
  assumes "lock_neutral L m" and "L \<subseteq> M" shows "lock_neutral M m"
proof -
  have "sync_alike M x y \<Longrightarrow> sync_alike L x y" for x y using assms(2) by (auto simp: sync_alike_def)
  then show ?thesis using lock_neutralD [OF assms(1)] by (intro lock_neutralI) blast+
qed

lemma neutral_bindM [neutral_intros]:
  assumes m: "lock_neutral L m" and f: "\<And>a. lock_neutral L (f a)"
  shows "lock_neutral L (bindM m f)"
proof (rule lock_neutralI)
  fix s y e
  assume A: "sync_alike L (k_sync s) y" and r: "bindM m f s = Inl e"
  show "bindM m f (s\<lparr>k_sync := y\<rparr>) = Inl e"
  proof (cases "m s")
    case (Inl e')
    with r lock_neutralD(1) [OF m A Inl] show ?thesis by (simp add: bindM_def)
  next
    case (Inr p)
    obtain a t where p: "p = (a, t)" by force
    with Inr r have t: "m s = Inr (a, t)" "f a t = Inl e" by (simp_all add: bindM_def)
    from A lock_neutralD(3) [OF m A t(1)] have "sync_alike L (k_sync t) y" by simp
    from lock_neutralD(1) [OF f this t(2)] lock_neutralD(2) [OF m A t(1)] show ?thesis by (simp add: bindM_def)
  qed
next
  fix s y b u
  assume A: "sync_alike L (k_sync s) y" and "bindM m f s = Inr (b, u)"
  then obtain a t where t: "m s = Inr (a, t)" "f a t = Inr (b, u)" by (auto elim: bindM_InrE)
  from lock_neutralD(3) [OF m A t(1)] have k: "k_sync t = k_sync s" .
  with A have "sync_alike L (k_sync t) y" by simp
  from lock_neutralD(2,3) [OF f this t(2)] lock_neutralD(2) [OF m A t(1)] k
  show "bindM m f (s\<lparr>k_sync := y\<rparr>) = Inr (b, u\<lparr>k_sync := y\<rparr>) \<and> k_sync u = k_sync s" by (simp add: bindM_def)
qed

lemma neutral_if [neutral_intros]: "lock_neutral L m \<Longrightarrow> lock_neutral L n \<Longrightarrow> lock_neutral L (if b then m else n)"
  by simp

lemma neutral_case_option [neutral_intros]:
  "lock_neutral L m \<Longrightarrow> (\<And>x. lock_neutral L (f x)) \<Longrightarrow> lock_neutral L (case v of None \<Rightarrow> m | Some x \<Rightarrow> f x)"
  by (simp split: option.splits)

lemma neutral_case_prod [neutral_intros]:
  "(\<And>x y. lock_neutral L (f x y)) \<Longrightarrow> lock_neutral L (case v of (x, y) \<Rightarrow> f x y)"
  by (simp split: prod.splits)

lemma neutral_myproc [neutral_intros]: "lock_neutral L (liftS myproc)"
  by (rule lock_neutralI) (auto simp: sync_alike_def liftS_def myproc_calm cur_def)

lemma with_lock_neutral:
  assumes m: "lock_neutral L m" and "lk \<notin> L" and c: "calm (k_sync s)" and lf: "lock_free lk (k_sync s)"
    and "\<And>l. l \<in> L \<Longrightarrow> lock_free l (k_sync s)"
  shows "with_lock lk m s = m s"
proof -
  let ?y = "acquired lk (k_sync s)"
  have "l \<noteq> lk" if "l \<in> L" for l using that assms(2) by blast
  then have A: "sync_alike L (k_sync s) ?y"
    using c assms(5) by (simp add: sync_alike_def calm_acquired lock_free_acquired)
  show ?thesis
  proof (cases "m s")
    case (Inl e)
    with with_lock_Inl [OF c lf, of m, OF lock_neutralD(1) [OF m A Inl]] show ?thesis by simp
  next
    case (Inr p)
    obtain a t where "p = (a, t)" by force
    with Inr have t: "m s = Inr (a, t)" by simp
    from with_lock_Inr [OF c lf, of m, OF lock_neutralD(2) [OF m A t]] lock_neutralD(3) [OF m A t] t
    show ?thesis by simp
  qed
qed

lemma neutral_with_lock [neutral_intros]:
  assumes m: "lock_neutral L m" and "lk \<notin> L"
  shows "lock_neutral (insert lk L) (with_lock lk m)"
proof -
  have run: "with_lock lk m s = m s" "with_lock lk m (s\<lparr>k_sync := y\<rparr>) = m (s\<lparr>k_sync := y\<rparr>)"
    and sub: "sync_alike L (k_sync s) y" if "sync_alike (insert lk L) (k_sync s) y" for s :: kernel and y
    using that by (auto simp: sync_alike_def intro!: with_lock_neutral [OF assms])
  show ?thesis
  proof (rule lock_neutralI)
    fix s y e
    assume A: "sync_alike (insert lk L) (k_sync s) y" and "with_lock lk m s = Inl e"
    then have "m s = Inl e" by (simp add: run(1) [OF A])
    from lock_neutralD(1) [OF m sub [OF A] this] show "with_lock lk m (s\<lparr>k_sync := y\<rparr>) = Inl e"
      by (simp add: run(2) [OF A])
  next
    fix s y a t
    assume A: "sync_alike (insert lk L) (k_sync s) y" and "with_lock lk m s = Inr (a, t)"
    then have "m s = Inr (a, t)" by (simp add: run(1) [OF A])
    from lock_neutralD(2,3) [OF m sub [OF A] this]
    show "with_lock lk m (s\<lparr>k_sync := y\<rparr>) = Inr (a, t\<lparr>k_sync := y\<rparr>) \<and> k_sync t = k_sync s"
      by (simp add: run(2) [OF A])
  qed
qed

lemma with_lock_neutral_quiet:
  "lock_neutral L m \<Longrightarrow> lk \<notin> L \<Longrightarrow> quiet (k_sync s) \<Longrightarrow> with_lock lk m s = m s"
  by (auto simp: quiet_def intro: with_lock_neutral)

lemma liftS_myproc_calm: "calm (k_sync s) \<Longrightarrow> liftS myproc s = Inr (cur (k_sync s), s)"
  by (simp add: liftS_def myproc_calm cur_def)

section \<open>Changing the process table\<close>

abbreviation kprocs :: "kernel \<Rightarrow> proc list" where
  "kprocs s \<equiv> pt_procs (k_ptab s)"

definition procsM :: "(proc list \<Rightarrow> proc list) \<Rightarrow> unit kop" where
  "procsM f = modM (\<lambda>s. s\<lparr>k_ptab := tab_upd f (k_ptab s)\<rparr>)"

lemma sync_indep_procsM [sync_indep_intros]: "sync_indep (procsM f)"
  unfolding procsM_def by (rule sync_indep_modM) simp

lemma procsM_run [run_simps]: "procsM f s = Inr ((), s\<lparr>k_ptab := tab_upd f (k_ptab s)\<rparr>)"
  by (simp add: procsM_def modM_def)

definition wakeup :: "chan \<Rightarrow> unit kop" where
  "wakeup ch = with_lock LkPtable (procsM (wakeup1 ch))"

lemma neutral_wakeup [neutral_intros]: "LkPtable \<in> L \<Longrightarrow> lock_neutral L (wakeup ch)"
  unfolding wakeup_def
  by (rule neutral_mono [OF neutral_with_lock [OF neutral_sync_indep [OF sync_indep_procsM], of _ "{}"]]) auto

lemma wakeup_calm:
  "calm (k_sync s) \<Longrightarrow> lock_free LkPtable (k_sync s) \<Longrightarrow>
     wakeup ch s = Inr ((), s\<lparr>k_ptab := tab_upd (wakeup1 ch) (k_ptab s)\<rparr>)"
  by (simp add: wakeup_def with_lock_calm sync_indep_procsM procsM_run)

section \<open>Giving up the CPU\<close>

text \<open>
  \<^verbatim>\<open>sched\<close> up to the switch: the checks, and the value of \<^verbatim>\<open>intena\<close> that it keeps; then what it
  does after the switch back.
\<close>

definition sched_leave :: "bool kop" where
  "sched_leave =
     bindM (liftS myproc) (\<lambda>pp.
     bindM (liftS (holding LkPtable)) (\<lambda>h.
     bindM (assertM h (Panic ''sched ptable.lock'')) (\<lambda>_.
     bindM (liftS mycpu) (\<lambda>i.
     bindM (getM (\<lambda>s. c_ncli (cpus (k_sync s) ! i))) (\<lambda>n.
     bindM (assertM (n = 1) (Panic ''sched locks'')) (\<lambda>_.
     bindM (theM Wild pp) (\<lambda>p.
     bindM (getM (\<lambda>s. p_state (kprocs s ! p))) (\<lambda>st.
     bindM (assertM (st \<noteq> RUNNING) (Panic ''sched running'')) (\<lambda>_.
     bindM (liftS (getM readeflags)) (\<lambda>fl.
     bindM (assertM (\<not> fl) (Panic ''sched interruptible'')) (\<lambda>_.
     bindM (liftS mycpu) (\<lambda>j.
     getM (\<lambda>s. c_intena (cpus (k_sync s) ! j))))))))))))))"

definition sched_return :: "bool \<Rightarrow> unit kop" where
  "sched_return intena =
     bindM (liftS mycpu) (\<lambda>i. liftS (modM (cpu_upd i (\<lambda>c. c\<lparr>c_intena := intena\<rparr>))))"

definition yield_leave :: "bool kop" where
  "yield_leave =
     bindM (liftS (acquire LkPtable)) (\<lambda>_.
     bindM (liftS myproc) (\<lambda>pp.
     bindM (theM Wild pp) (\<lambda>p.
     bindM (procsM (yield_mark p)) (\<lambda>_.
     sched_leave))))"

definition yield_return :: "bool \<Rightarrow> unit kop" where
  "yield_return intena = bindM (sched_return intena) (\<lambda>_. liftS (release LkPtable))"

definition sleep_leave :: "chan \<Rightarrow> lockid \<Rightarrow> bool kop" where
  "sleep_leave ch lk =
     bindM (liftS myproc) (\<lambda>pp.
     bindM (theM (Panic ''sleep'') pp) (\<lambda>p.
     bindM (if lk \<noteq> LkPtable then bindM (liftS (acquire LkPtable)) (\<lambda>_. liftS (release lk)) else retM ()) (\<lambda>_.
     bindM (procsM (sleep_mark p ch)) (\<lambda>_.
     sched_leave))))"

definition sleep_return :: "lockid \<Rightarrow> bool \<Rightarrow> unit kop" where
  "sleep_return lk intena =
     bindM (sched_return intena) (\<lambda>_.
     bindM (liftS myproc) (\<lambda>pp.
     bindM (theM Wild pp) (\<lambda>p.
     bindM (procsM (sleep_tidy p)) (\<lambda>_.
     if lk \<noteq> LkPtable then bindM (liftS (release LkPtable)) (\<lambda>_. liftS (acquire lk)) else retM ()))))"

text \<open>
  A kernel function that calls \<^verbatim>\<open>sleep\<close> stops there: it goes on only after another process has run.
\<close>

definition sleeps :: "chan \<Rightarrow> lockid \<Rightarrow> 'a kop" where
  "sleeps ch lk = bindM (sleep_leave ch lk) (\<lambda>_. failM (Sleeps ch))"

section \<open>The scheduler of a CPU\<close>

text \<open>
  The loop of \<^verbatim>\<open>scheduler\<close> from one switch to the next: \<open>sched_dispatch\<close> runs from a place in the
  loop to the switch to a process (\<open>Some\<close>) or to the end of the loop body; \<open>sched_resume\<close> runs when
  the process has switched back.
\<close>

definition set_cproc :: "nat option \<Rightarrow> unit kop" where
  "set_cproc x = bindM (liftS mycpu) (\<lambda>i. liftS (modM (cpu_upd i (\<lambda>c. c\<lparr>c_proc := x\<rparr>))))"

definition sched_dispatch :: "image \<Rightarrow> sched_pc \<Rightarrow> (nat option \<times> sched_pc) kop" where
  "sched_dispatch im pc =
     bindM (if pc = SchedTop then bindM (liftS (modM sti)) (\<lambda>_. liftS (acquire LkPtable)) else retM ()) (\<lambda>_.
     bindM (liftP (\<lambda>t. case sched_select pc t of (c, pc', t') \<Rightarrow> Inr ((c, pc'), t'))) (\<lambda>(c, pc').
     case c of
       Some i \<Rightarrow>
         bindM (set_cproc (Some i)) (\<lambda>_.
         bindM (switchuvm im (Some i)) (\<lambda>_.
         bindM (procsM (run_mark i)) (\<lambda>_.
         retM (Some i, pc'))))
     | None \<Rightarrow> bindM (liftS (release LkPtable)) (\<lambda>_. retM (None, pc'))))"

definition sched_resume :: "sched_pc \<Rightarrow> unit kop" where
  "sched_resume pc =
     bindM switchkvm (\<lambda>_.
     bindM (set_cproc None) (\<lambda>_.
     if pc = SchedTop then liftS (release LkPtable) else retM ()))"

definition scheduler_start :: "unit kop" where
  "scheduler_start = set_cproc None"

end
