(* ===== verification/Sleeplock.thy ===== *)
theory Sleeplock
  imports Scheduler
begin

text \<open>
  Long-term locks, \<^verbatim>\<open>sleeplock.c\<close>. A sleep lock lives in a buffer or an in-memory inode; its own
  spin lock has the name \<open>LkSleep\<close>, and it is the channel \<open>ChSleep\<close> that waiting processes sleep on.
\<close>

fun sl_get :: "slid \<Rightarrow> kernel \<Rightarrow> sleeplock" where
  "sl_get (SlBuf i) s = b_lock (bc_buf (k_bcache s) ! i)"
| "sl_get (SlInode i) s = i_lock (k_icache s ! i)"

fun sl_set :: "slid \<Rightarrow> sleeplock \<Rightarrow> kernel \<Rightarrow> kernel" where
  "sl_set (SlBuf i) l s =
     s\<lparr>k_bcache := (k_bcache s)\<lparr>bc_buf := (bc_buf (k_bcache s))[i := (bc_buf (k_bcache s) ! i)\<lparr>b_lock := l\<rparr>]\<rparr>\<rparr>"
| "sl_set (SlInode i) l s = s\<lparr>k_icache := (k_icache s)[i := (k_icache s ! i)\<lparr>i_lock := l\<rparr>]\<rparr>"

definition sl_upd :: "slid \<Rightarrow> (sleeplock \<Rightarrow> sleeplock) \<Rightarrow> kernel \<Rightarrow> kernel" where
  "sl_upd lk f s = sl_set lk (f (sl_get lk s)) s"

text \<open>\<^verbatim>\<open>myproc()->pid\<close>.\<close>

definition mypid :: "u32 kop" where
  "mypid = bindM (liftS myproc) (\<lambda>pp. bindM (theM Wild pp) (\<lambda>p. getM (\<lambda>s. p_pid (kprocs s ! p))))"

definition initsleeplock :: "slid \<Rightarrow> string \<Rightarrow> unit kop" where
  "initsleeplock lk name =
     bindM (liftS (initlock (LkSleep lk) ''sleep lock'')) (\<lambda>_.
     modM (sl_upd lk (\<lambda>l. l\<lparr>sl_name := name, sl_locked := 0, sl_pid := 0\<rparr>)))"

text \<open>
  The loop of \<^verbatim>\<open>acquiresleep\<close> tests the lock again whenever the process has been woken; the
  operation stops where it sleeps.
\<close>

definition acquiresleep :: "slid \<Rightarrow> unit kop" where
  "acquiresleep lk =
     with_lock (LkSleep lk) (
       bindM (getM (\<lambda>s. sl_locked (sl_get lk s))) (\<lambda>locked.
       if locked \<noteq> 0 then sleeps (ChSleep lk) (LkSleep lk)
       else
         bindM (modM (sl_upd lk (\<lambda>l. l\<lparr>sl_locked := 1\<rparr>))) (\<lambda>_.
         bindM mypid (\<lambda>pid.
         modM (sl_upd lk (\<lambda>l. l\<lparr>sl_pid := pid\<rparr>))))))"

definition releasesleep :: "slid \<Rightarrow> unit kop" where
  "releasesleep lk =
     with_lock (LkSleep lk) (
       bindM (modM (sl_upd lk (\<lambda>l. l\<lparr>sl_locked := 0, sl_pid := 0\<rparr>))) (\<lambda>_.
       wakeup (ChSleep lk)))"

definition holdingsleep :: "slid \<Rightarrow> bool kop" where
  "holdingsleep lk =
     with_lock (LkSleep lk) (
       bindM (getM (\<lambda>s. sl_get lk s)) (\<lambda>l.
       if sl_locked l \<noteq> 0 then bindM mypid (\<lambda>pid. retM (sl_pid l = pid)) else retM False))"

section \<open>On a quiet CPU\<close>

text \<open>
  \<open>at_rest s c\<close>: no spin lock is held and the executing CPU runs process \<open>c\<close>. Then the operations
  are plain state changes.
\<close>

definition at_rest :: "kernel \<Rightarrow> nat \<Rightarrow> bool" where
  "at_rest s c \<longleftrightarrow> quiet (k_sync s) \<and> cur (k_sync s) = Some c"

abbreviation pid_of :: "kernel \<Rightarrow> nat \<Rightarrow> u32" where
  "pid_of s c \<equiv> p_pid (kprocs s ! c)"

lemma at_rest_quiet: "at_rest s c \<Longrightarrow> quiet (k_sync s)"
  by (simp add: at_rest_def)

lemma at_rest_calm: "at_rest s c \<Longrightarrow> calm (k_sync s)"
  by (simp add: at_rest_def quiet_def)

lemma at_rest_free: "at_rest s c \<Longrightarrow> lock_free lk (k_sync s)"
  by (simp add: at_rest_def quiet_def)

lemma at_rest_sync: "at_rest s c \<Longrightarrow> k_sync t = k_sync s \<Longrightarrow> at_rest t c"
  by (simp add: at_rest_def)

lemma sl_set_sync [simp]: "k_sync (sl_set lk l s) = k_sync s" "k_ptab (sl_set lk l s) = k_ptab s"
  "k_disk (sl_set lk l s) = k_disk s" "k_mem (sl_set lk l s) = k_mem s" "k_log (sl_set lk l s) = k_log s"
  by (cases lk; simp)+

lemma sl_upd_sync [simp]: "k_sync (sl_upd lk f s) = k_sync s" "k_ptab (sl_upd lk f s) = k_ptab s"
  "k_disk (sl_upd lk f s) = k_disk s" "k_mem (sl_upd lk f s) = k_mem s" "k_log (sl_upd lk f s) = k_log s"
  by (simp_all add: sl_upd_def)

lemma sl_get_sync [simp]: "sl_get lk (s\<lparr>k_sync := y\<rparr>) = sl_get lk s"
  by (cases lk) simp_all

lemma sl_set_k_sync: "sl_set lk l (s\<lparr>k_sync := y\<rparr>) = (sl_set lk l s)\<lparr>k_sync := y\<rparr>"
  by (cases lk) simp_all

lemma sync_indep_sl_upd [sync_indep_intros]: "sync_indep (modM (sl_upd lk f))"
  by (rule sync_indep_modM) (simp add: sl_upd_def sl_set_k_sync)

lemma neutral_mypid [neutral_intros]: "lock_neutral L mypid"
  unfolding mypid_def by (intro neutral_intros sync_indep_intros) simp

lemma mypid_run: "at_rest s c \<Longrightarrow> mypid s = Inr (pid_of s c, s)"
  by (simp add: mypid_def bindM_def liftS_myproc_calm at_rest_calm at_rest_def theM_def getM_def)

text \<open>A value read first in a critical section can be read before it.\<close>

lemma with_lock_getM:
  assumes "calm (k_sync s)" and "lock_free lk (k_sync s)" and "\<And>y. f (s\<lparr>k_sync := y\<rparr>) = f s"
  shows "with_lock lk (bindM (getM f) g) s = with_lock lk (g (f s)) s"
  using assms by (simp add: with_lock_def bindM_def liftS_def acquire_calm lock_free_def getM_def)

lemma with_lock_rest:
  "lock_neutral L m \<Longrightarrow> lk \<notin> L \<Longrightarrow> at_rest s c \<Longrightarrow> with_lock lk m s = m s"
  by (rule with_lock_neutral_quiet) (simp_all add: at_rest_quiet)

lemma wakeup_rest: "at_rest s c \<Longrightarrow> wakeup ch s = Inr ((), s\<lparr>k_ptab := tab_upd (wakeup1 ch) (k_ptab s)\<rparr>)"
  by (simp add: wakeup_calm at_rest_calm at_rest_free)

definition sl_valid :: "slid \<Rightarrow> kernel \<Rightarrow> bool" where
  "sl_valid lk s \<longleftrightarrow> (case lk of SlBuf i \<Rightarrow> i < length (bc_buf (k_bcache s)) | SlInode i \<Rightarrow> i < length (k_icache s))"

lemma sl_upd_upd: "sl_valid lk s \<Longrightarrow> sl_upd lk g (sl_upd lk f s) = sl_upd lk (g \<circ> f) s"
  by (cases lk) (simp_all add: sl_upd_def sl_valid_def)

lemma acquiresleep_run:
  assumes rest: "at_rest s c" and free: "sl_locked (sl_get lk s) = 0" and v: "sl_valid lk s"
  shows "acquiresleep lk s = Inr ((), sl_upd lk (\<lambda>l. l\<lparr>sl_locked := 1, sl_pid := pid_of s c\<rparr>) s)"
proof -
  let ?g = "\<lambda>pid. modM (sl_upd lk (\<lambda>l. l\<lparr>sl_pid := pid\<rparr>))"
  let ?m = "bindM (modM (sl_upd lk (\<lambda>l. l\<lparr>sl_locked := 1\<rparr>))) (\<lambda>_. bindM mypid ?g)"
  have n: "lock_neutral {} ?m" by (intro neutral_intros sync_indep_intros)
  have "acquiresleep lk s = with_lock (LkSleep lk) ?m s"
    unfolding acquiresleep_def using free
    by (subst with_lock_getM) (simp_all add: at_rest_calm [OF rest] at_rest_free [OF rest])
  also have "\<dots> = ?m s" by (rule with_lock_rest [OF n _ rest]) simp
  also have "\<dots> = ?g (pid_of s c) (sl_upd lk (\<lambda>l. l\<lparr>sl_locked := 1\<rparr>) s)"
    using mypid_run [OF at_rest_sync [OF rest], of "sl_upd lk (\<lambda>l. l\<lparr>sl_locked := 1\<rparr>) s"]
    by (simp add: bindM_def modM_def)
  finally show ?thesis
    using v by (simp add: modM_def sl_upd_upd comp_def)
qed

lemma releasesleep_run:
  assumes "at_rest s c"
  shows "releasesleep lk s = Inr ((), (sl_upd lk (\<lambda>l. l\<lparr>sl_locked := 0, sl_pid := 0\<rparr>) s)
    \<lparr>k_ptab := tab_upd (wakeup1 (ChSleep lk)) (k_ptab s)\<rparr>)"
proof -
  have "lock_neutral {LkPtable} (bindM (modM (sl_upd lk (\<lambda>l. l\<lparr>sl_locked := 0, sl_pid := 0\<rparr>))) (\<lambda>_. wakeup (ChSleep lk)))"
    by (intro neutral_intros sync_indep_intros) simp
  from with_lock_rest [OF this _ assms, of "LkSleep lk"] show ?thesis
    using wakeup_rest [OF at_rest_sync [OF assms], of "sl_upd lk (\<lambda>l. l\<lparr>sl_locked := 0, sl_pid := 0\<rparr>) s"]
    by (simp add: releasesleep_def bindM_def modM_def)
qed

lemma holdingsleep_run:
  assumes "at_rest s c"
  shows "holdingsleep lk s = Inr (sl_locked (sl_get lk s) \<noteq> 0 \<and> sl_pid (sl_get lk s) = pid_of s c, s)"
proof -
  have n: "lock_neutral {} (if sl_locked l \<noteq> 0 then bindM mypid (\<lambda>pid. retM (sl_pid l = pid)) else retM False)" for l
    by (intro neutral_intros sync_indep_intros)
  have "holdingsleep lk s = (if sl_locked (sl_get lk s) \<noteq> 0
      then bindM mypid (\<lambda>pid. retM (sl_pid (sl_get lk s) = pid)) else retM False) s"
    unfolding holdingsleep_def
    by (subst with_lock_getM) (simp_all add: at_rest_calm [OF assms] at_rest_free [OF assms] with_lock_rest [OF n _ assms])
  then show ?thesis by (simp add: bindM_def retM_def mypid_run [OF assms])
qed

end
