(* ===== verification/Bio.thy ===== *)
theory Bio
  imports Sleeplock
begin

text \<open>
  The disk of \<^verbatim>\<open>memide.c\<close> (the driver of the memory disk, which completes every request at once)
  and the buffer cache \<^verbatim>\<open>bio.c\<close>: buffers in a doubly linked list, most recently used first. The
  list head has index \<open>NBUF\<close>.
\<close>

section \<open>Buffers\<close>

definition BSIZE :: nat where "BSIZE = 512"

definition B_VALID :: u32 where "B_VALID = 0x2"

definition B_DIRTY :: u32 where "B_DIRTY = 0x4"

abbreviation bufs :: "kernel \<Rightarrow> buf list" where
  "bufs s \<equiv> bc_buf (k_bcache s)"

definition buf_upd :: "nat \<Rightarrow> (buf \<Rightarrow> buf) \<Rightarrow> kernel \<Rightarrow> kernel" where
  "buf_upd i f s = s\<lparr>k_bcache := (k_bcache s)\<lparr>bc_buf := (bufs s)[i := f (bufs s ! i)]\<rparr>\<rparr>"

text \<open>The links of a node, the head included.\<close>

definition lnk_next :: "bcache \<Rightarrow> nat \<Rightarrow> nat" where
  "lnk_next bc i = (if i = NBUF then bc_head_next bc else b_next (bc_buf bc ! i))"

definition lnk_prev :: "bcache \<Rightarrow> nat \<Rightarrow> nat" where
  "lnk_prev bc i = (if i = NBUF then bc_head_prev bc else b_prev (bc_buf bc ! i))"

definition set_next :: "nat \<Rightarrow> nat \<Rightarrow> bcache \<Rightarrow> bcache" where
  "set_next i n bc =
     (if i = NBUF then bc\<lparr>bc_head_next := n\<rparr> else bc\<lparr>bc_buf := (bc_buf bc)[i := (bc_buf bc ! i)\<lparr>b_next := n\<rparr>]\<rparr>)"

definition set_prev :: "nat \<Rightarrow> nat \<Rightarrow> bcache \<Rightarrow> bcache" where
  "set_prev i n bc =
     (if i = NBUF then bc\<lparr>bc_head_prev := n\<rparr> else bc\<lparr>bc_buf := (bc_buf bc)[i := (bc_buf bc ! i)\<lparr>b_prev := n\<rparr>]\<rparr>)"

text \<open>Putting a node in front: the last four assignments of the loop of \<^verbatim>\<open>binit\<close> and of \<^verbatim>\<open>brelse\<close>.\<close>

definition push_front :: "nat \<Rightarrow> bcache \<Rightarrow> bcache" where
  "push_front i bc0 =
     (let bc1 = set_next i (lnk_next bc0 NBUF) bc0;
          bc2 = set_prev i NBUF bc1;
          bc3 = set_prev (lnk_next bc2 NBUF) i bc2
      in set_next NBUF i bc3)"

definition unlink_buf :: "nat \<Rightarrow> bcache \<Rightarrow> bcache" where
  "unlink_buf i bc0 =
     (let bc1 = set_prev (lnk_next bc0 i) (lnk_prev bc0 i) bc0
      in set_next (lnk_prev bc1 i) (lnk_next bc1 i) bc1)"

section \<open>The disk\<close>

text \<open>
  \<^verbatim>\<open>iderw\<close>: writes the buffer to the disk if it is dirty, and reads it otherwise. The size of the
  disk is the number of its blocks. This is the driver of the memory disk, \<^verbatim>\<open>memide.c\<close>, which serves a request before it returns; the
  results on the buffer cache and on the log rest on it. The driver of \<^verbatim>\<open>ide.c\<close> is modelled in theory \<open>Ide\<close>.
\<close>

definition iderw :: "nat \<Rightarrow> unit kop" where
  "iderw i =
     bindM (holdingsleep (SlBuf i)) (\<lambda>h.
     bindM (assertM h (Panic ''iderw: buf not locked'')) (\<lambda>_.
     bindM (getM (\<lambda>s. bufs s ! i)) (\<lambda>b.
     bindM (assertM (b_flags b AND (B_VALID OR B_DIRTY) \<noteq> B_VALID) (Panic ''iderw: nothing to do'')) (\<lambda>_.
     bindM (assertM (b_dev b = 1) (Panic ''iderw: request not for disk 1'')) (\<lambda>_.
     bindM (getM (\<lambda>s. length (k_disk s))) (\<lambda>disksize.
     bindM (assertM (unat (b_blockno b) < disksize) (Panic ''iderw: block out of range'')) (\<lambda>_.
     bindM (if b_flags b AND B_DIRTY \<noteq> 0
            then bindM (modM (buf_upd i (\<lambda>b. b\<lparr>b_flags := b_flags b AND NOT B_DIRTY\<rparr>))) (\<lambda>_.
                 modM (\<lambda>s. s\<lparr>k_disk := (k_disk s)[unat (b_blockno b) := b_data b],
                              k_writes := k_writes s @ [(unat (b_blockno b), b_data b)]\<rparr>))
            else modM (\<lambda>s. buf_upd i (\<lambda>b. b\<lparr>b_data := k_disk s ! unat (b_blockno b)\<rparr>) s)) (\<lambda>_.
     modM (buf_upd i (\<lambda>b. b\<lparr>b_flags := b_flags b OR B_VALID\<rparr>))))))))))"

section \<open>The cache\<close>

fun binit_loop :: "nat list \<Rightarrow> unit kop" where
  "binit_loop [] = retM ()"
| "binit_loop (i # is) =
     bindM (modM (\<lambda>s. s\<lparr>k_bcache := set_prev i NBUF (set_next i (lnk_next (k_bcache s) NBUF) (k_bcache s))\<rparr>)) (\<lambda>_.
     bindM (initsleeplock (SlBuf i) ''buffer'') (\<lambda>_.
     bindM (modM (\<lambda>s. s\<lparr>k_bcache := set_next NBUF i (set_prev (lnk_next (k_bcache s) NBUF) i (k_bcache s))\<rparr>)) (\<lambda>_.
     binit_loop is)))"

definition binit :: "unit kop" where
  "binit =
     bindM (liftS (initlock LkBcache ''bcache'')) (\<lambda>_.
     bindM (modM (\<lambda>s. s\<lparr>k_bcache := (k_bcache s)\<lparr>bc_head_prev := NBUF, bc_head_next := NBUF\<rparr>\<rparr>)) (\<lambda>_.
     binit_loop [0..<NBUF]))"

text \<open>
  The scan of the list in one direction. In a well-formed list the head is met after at most
  \<open>NBUF\<close> buffers, so \<open>NBUF + 1\<close> rounds are enough; \<open>None\<close> stands for a list that does not close.
\<close>

fun bscan :: "(bcache \<Rightarrow> nat \<Rightarrow> nat) \<Rightarrow> (buf \<Rightarrow> bool) \<Rightarrow> bcache \<Rightarrow> nat \<Rightarrow> nat \<Rightarrow> nat option option" where
  "bscan step P bc 0 i = None"
| "bscan step P bc (Suc n) i =
     (if i = NBUF then Some None
      else if P (bc_buf bc ! i) then Some (Some i)
      else bscan step P bc n (step bc i))"

definition bget_find :: "u32 \<Rightarrow> u32 \<Rightarrow> bcache \<Rightarrow> nat option option" where
  "bget_find dev blockno bc =
     bscan lnk_next (\<lambda>b. b_dev b = dev \<and> b_blockno b = blockno) bc (NBUF + 1) (lnk_next bc NBUF)"

definition bget_victim :: "bcache \<Rightarrow> nat option option" where
  "bget_victim bc = bscan lnk_prev (\<lambda>b. b_refcnt b = 0) bc (NBUF + 1) (lnk_prev bc NBUF)"

definition bget_slot :: "u32 \<Rightarrow> u32 \<Rightarrow> nat kop" where
  "bget_slot dev blockno =
     bindM (getM (\<lambda>s. bget_find dev blockno (k_bcache s))) (\<lambda>r.
     bindM (theM Loops r) (\<lambda>found.
     case found of
       Some i \<Rightarrow> bindM (modM (buf_upd i (\<lambda>b. b\<lparr>b_refcnt := b_refcnt b + 1\<rparr>))) (\<lambda>_. retM i)
     | None \<Rightarrow>
         bindM (getM (\<lambda>s. bget_victim (k_bcache s))) (\<lambda>r.
         bindM (theM Loops r) (\<lambda>victim.
         case victim of
           Some i \<Rightarrow> bindM (modM (buf_upd i (\<lambda>b. b\<lparr>b_dev := dev, b_blockno := blockno, b_flags := 0, b_refcnt := 1\<rparr>)))
             (\<lambda>_. retM i)
         | None \<Rightarrow> failM (Panic ''bget: no buffers'')))))"

definition bget :: "u32 \<Rightarrow> u32 \<Rightarrow> nat kop" where
  "bget dev blockno =
     bindM (with_lock LkBcache (bget_slot dev blockno)) (\<lambda>i.
     bindM (acquiresleep (SlBuf i)) (\<lambda>_. retM i))"

definition bread :: "u32 \<Rightarrow> u32 \<Rightarrow> nat kop" where
  "bread dev blockno =
     bindM (bget dev blockno) (\<lambda>i.
     bindM (getM (\<lambda>s. b_flags (bufs s ! i))) (\<lambda>fl.
     if fl AND B_VALID = 0
     then bindM (iderw i) (\<lambda>_. bindM (modM (buf_upd i (\<lambda>b. b\<lparr>b_flags := b_flags b OR B_VALID\<rparr>))) (\<lambda>_. retM i))
     else retM i))"

definition bwrite :: "nat \<Rightarrow> unit kop" where
  "bwrite i =
     bindM (holdingsleep (SlBuf i)) (\<lambda>h.
     bindM (assertM h (Panic ''bwrite'')) (\<lambda>_.
     bindM (modM (buf_upd i (\<lambda>b. b\<lparr>b_flags := b_flags b OR B_DIRTY\<rparr>))) (\<lambda>_.
     iderw i)))"

definition brelse :: "nat \<Rightarrow> unit kop" where
  "brelse i =
     bindM (holdingsleep (SlBuf i)) (\<lambda>h.
     bindM (assertM h (Panic ''brelse'')) (\<lambda>_.
     bindM (releasesleep (SlBuf i)) (\<lambda>_.
     with_lock LkBcache (
       bindM (modM (buf_upd i (\<lambda>b. b\<lparr>b_refcnt := b_refcnt b - 1\<rparr>))) (\<lambda>_.
       bindM (getM (\<lambda>s. b_refcnt (bufs s ! i))) (\<lambda>n.
       if n = 0 then modM (\<lambda>s. s\<lparr>k_bcache := push_front i (unlink_buf i (k_bcache s))\<rparr>)
       else retM ()))))))"

text \<open>The data of a buffer.\<close>

definition bdata :: "nat \<Rightarrow> u8 list kop" where
  "bdata i = getM (\<lambda>s. b_data (bufs s ! i))"

definition set_bdata :: "nat \<Rightarrow> u8 list \<Rightarrow> unit kop" where
  "set_bdata i d = modM (buf_upd i (\<lambda>b. b\<lparr>b_data := d\<rparr>))"

end
