(* ===== verification/Log.thy ===== *)
theory Log
  imports Bio
begin

text \<open>
  The redo log, \<^verbatim>\<open>log.c\<close>: transactions of several system calls, commit, and recovery at boot. On
  disk the log is a header block followed by copies of blocks; the header holds the number of
  logged blocks and their home locations as little-endian integers.
\<close>

section \<open>Integers in blocks\<close>

definition get32 :: "u8 list \<Rightarrow> nat \<Rightarrow> u32" where
  "get32 d o' = u32_le (d ! o') (d ! (o' + 1)) (d ! (o' + 2)) (d ! (o' + 3))"

definition put32 :: "nat \<Rightarrow> u32 \<Rightarrow> u8 list \<Rightarrow> u8 list" where
  "put32 o' w d = d[o' := byte_at 0 w, o' + 1 := byte_at 1 w, o' + 2 := byte_at 2 w, o' + 3 := byte_at 3 w]"

definition get16 :: "u8 list \<Rightarrow> nat \<Rightarrow> u16" where
  "get16 d o' = u16_le (d ! o') (d ! (o' + 1))"

definition put16 :: "nat \<Rightarrow> u16 \<Rightarrow> u8 list \<Rightarrow> u8 list" where
  "put16 o' w d = d[o' := byte_at 0 w, o' + 1 := byte_at 1 w]"

lemma length_put32 [simp]: "length (put32 o' w d) = length d"
  by (simp add: put32_def)

lemma length_put16 [simp]: "length (put16 o' w d) = length d"
  by (simp add: put16_def)

lemma get32_put32: "o' + 4 \<le> length d \<Longrightarrow> get32 (put32 o' w d) o' = w"
  using u32_le_bytes [of w] by (simp add: get32_def put32_def nth_list_update del: u32_le_bytes)

lemma get32_put32_other:
  "a + 4 \<le> length d \<Longrightarrow> b + 4 \<le> length d \<Longrightarrow> a + 4 \<le> b \<or> b + 4 \<le> a \<Longrightarrow> get32 (put32 a w d) b = get32 d b"
  by (auto simp: get32_def put32_def nth_list_update)

lemma get16_put16: "o' + 2 \<le> length d \<Longrightarrow> get16 (put16 o' w d) o' = w"
  using u16_le_bytes [of w] by (simp add: get16_def put16_def nth_list_update del: u16_le_bytes)

section \<open>Reading the super block\<close>

text \<open>\<^verbatim>\<open>readsb\<close> of \<^verbatim>\<open>fs.c\<close>, which \<^verbatim>\<open>initlog\<close> uses.\<close>

definition sb_decode :: "u8 list \<Rightarrow> superblock" where
  "sb_decode d =
     \<lparr>sb_size = get32 d 0, sb_nblocks = get32 d 4, sb_ninodes = get32 d 8, sb_nlog = get32 d 12,
      sb_logstart = get32 d 16, sb_inodestart = get32 d 20, sb_bmapstart = get32 d 24\<rparr>"

definition readsb :: "u32 \<Rightarrow> superblock kop" where
  "readsb dev =
     bindM (bread dev 1) (\<lambda>bp.
     bindM (bdata bp) (\<lambda>d.
     bindM (brelse bp) (\<lambda>_.
     retM (sb_decode d))))"

section \<open>Installing and writing the log\<close>

definition log_upd :: "(logst \<Rightarrow> logst) \<Rightarrow> unit kop" where
  "log_upd f = modM (\<lambda>s. s\<lparr>k_log := f (k_log s)\<rparr>)"

definition loop_n :: "u32 \<Rightarrow> nat list" where
  "loop_n n = [0..<nat (sint n)]"

fun install_loop :: "nat list \<Rightarrow> unit kop" where
  "install_loop [] = retM ()"
| "install_loop (tail # ts) =
     bindM (getM k_log) (\<lambda>lg.
     bindM (bread (lg_dev lg) (lg_start lg + of_nat tail + 1)) (\<lambda>lbuf.
     bindM (bread (lg_dev lg) (lh_block lg ! tail)) (\<lambda>dbuf.
     bindM (bdata lbuf) (\<lambda>d.
     bindM (set_bdata dbuf d) (\<lambda>_.
     bindM (bwrite dbuf) (\<lambda>_.
     bindM (brelse lbuf) (\<lambda>_.
     bindM (brelse dbuf) (\<lambda>_.
     install_loop ts))))))))"

definition install_trans :: "unit kop" where
  "install_trans = bindM (getM (\<lambda>s. lh_n (k_log s))) (\<lambda>n. install_loop (loop_n n))"

text \<open>
  The block numbers that \<^verbatim>\<open>read_head\<close> copies: entries beyond the in-memory header, which has
  \<^verbatim>\<open>LOGSIZE\<close> of them, would be written past its end.
\<close>

definition read_head :: "unit kop" where
  "read_head =
     bindM (getM k_log) (\<lambda>lg.
     bindM (bread (lg_dev lg) (lg_start lg)) (\<lambda>b.
     bindM (bdata b) (\<lambda>d.
     bindM (log_upd (\<lambda>l. l\<lparr>lh_n := get32 d 0\<rparr>)) (\<lambda>_.
     bindM (assertM (sint (get32 d 0) \<le> int LOGSIZE) Wild) (\<lambda>_.
     bindM (log_upd (\<lambda>l. l\<lparr>lh_block := fold (\<lambda>i bs. bs[i := get32 d (4 + 4 * i)]) (loop_n (get32 d 0)) (lh_block l)\<rparr>)) (\<lambda>_.
     brelse b))))))"

definition head_encode :: "u32 \<Rightarrow> u32 list \<Rightarrow> u8 list \<Rightarrow> u8 list" where
  "head_encode n bs d = fold (\<lambda>i. put32 (4 + 4 * i) (bs ! i)) (loop_n n) (put32 0 n d)"

definition write_head :: "unit kop" where
  "write_head =
     bindM (getM k_log) (\<lambda>lg.
     bindM (bread (lg_dev lg) (lg_start lg)) (\<lambda>b.
     bindM (bdata b) (\<lambda>d.
     bindM (set_bdata b (head_encode (lh_n lg) (lh_block lg) d)) (\<lambda>_.
     bindM (bwrite b) (\<lambda>_.
     brelse b)))))"

definition recover_from_log :: "unit kop" where
  "recover_from_log =
     bindM read_head (\<lambda>_.
     bindM install_trans (\<lambda>_.
     bindM (log_upd (\<lambda>l. l\<lparr>lh_n := 0\<rparr>)) (\<lambda>_.
     write_head)))"

definition initlog :: "u32 \<Rightarrow> unit kop" where
  "initlog dev =
     bindM (assertM (4 + 4 * LOGSIZE < BSIZE) (Panic ''initlog: too big logheader'')) (\<lambda>_.
     bindM (liftS (initlock LkLog ''log'')) (\<lambda>_.
     bindM (readsb dev) (\<lambda>sb.
     bindM (log_upd (\<lambda>l. l\<lparr>lg_start := sb_logstart sb, lg_size := sb_nlog sb, lg_dev := dev\<rparr>)) (\<lambda>_.
     recover_from_log))))"

fun write_log_loop :: "nat list \<Rightarrow> unit kop" where
  "write_log_loop [] = retM ()"
| "write_log_loop (tail # ts) =
     bindM (getM k_log) (\<lambda>lg.
     bindM (bread (lg_dev lg) (lg_start lg + of_nat tail + 1)) (\<lambda>to.
     bindM (bread (lg_dev lg) (lh_block lg ! tail)) (\<lambda>from.
     bindM (bdata from) (\<lambda>d.
     bindM (set_bdata to d) (\<lambda>_.
     bindM (bwrite to) (\<lambda>_.
     bindM (brelse from) (\<lambda>_.
     bindM (brelse to) (\<lambda>_.
     write_log_loop ts))))))))"

definition write_log :: "unit kop" where
  "write_log = bindM (getM (\<lambda>s. lh_n (k_log s))) (\<lambda>n. write_log_loop (loop_n n))"

definition commit :: "unit kop" where
  "commit =
     bindM (getM (\<lambda>s. lh_n (k_log s))) (\<lambda>n.
     if 0 < sint n then
       bindM write_log (\<lambda>_.
       bindM write_head (\<lambda>_.
       bindM install_trans (\<lambda>_.
       bindM (log_upd (\<lambda>l. l\<lparr>lh_n := 0\<rparr>)) (\<lambda>_.
       write_head))))
     else retM ())"

section \<open>Transactions\<close>

definition begin_op :: "unit kop" where
  "begin_op =
     with_lock LkLog (
       bindM (getM k_log) (\<lambda>lg.
       if lg_committing lg then sleeps ChLog LkLog
       else if sint (lh_n lg) + (sint (lg_outstanding lg) + 1) * int MAXOPBLOCKS > int LOGSIZE
       then sleeps ChLog LkLog
       else log_upd (\<lambda>l. l\<lparr>lg_outstanding := lg_outstanding l + 1\<rparr>)))"

definition end_op :: "unit kop" where
  "end_op =
     bindM (with_lock LkLog (
       bindM (log_upd (\<lambda>l. l\<lparr>lg_outstanding := lg_outstanding l - 1\<rparr>)) (\<lambda>_.
       bindM (getM k_log) (\<lambda>lg.
       bindM (assertM (\<not> lg_committing lg) (Panic ''log.committing'')) (\<lambda>_.
       if lg_outstanding lg = 0
       then bindM (log_upd (\<lambda>l. l\<lparr>lg_committing := True\<rparr>)) (\<lambda>_. retM True)
       else bindM (wakeup ChLog) (\<lambda>_. retM False)))))) (\<lambda>do_commit.
     if do_commit then
       bindM commit (\<lambda>_.
       with_lock LkLog (
         bindM (log_upd (\<lambda>l. l\<lparr>lg_committing := False\<rparr>)) (\<lambda>_.
         wakeup ChLog)))
     else retM ())"

text \<open>The position of a block in the header, or the end: the absorbing loop of \<^verbatim>\<open>log_write\<close>.\<close>

definition absorb_idx :: "logst \<Rightarrow> u32 \<Rightarrow> nat" where
  "absorb_idx lg b =
     (case first_idx (\<lambda>x. x = b) (take (nat (sint (lh_n lg))) (lh_block lg)) 0 of
        Some i \<Rightarrow> i | None \<Rightarrow> nat (sint (lh_n lg)))"

definition log_absorb :: "u32 \<Rightarrow> logst \<Rightarrow> logst" where
  "log_absorb b lg =
     (let i = absorb_idx lg b; lg1 = lg\<lparr>lh_block := (lh_block lg)[i := b]\<rparr>
      in if int i = sint (lh_n lg) then lg1\<lparr>lh_n := lh_n lg + 1\<rparr> else lg1)"

definition log_write :: "nat \<Rightarrow> unit kop" where
  "log_write i =
     bindM (getM k_log) (\<lambda>lg.
     bindM (assertM (\<not> (int LOGSIZE \<le> sint (lh_n lg) \<or> sint (lg_size lg) - 1 \<le> sint (lh_n lg)))
       (Panic ''too big a transaction'')) (\<lambda>_.
     bindM (assertM (\<not> sint (lg_outstanding lg) < 1) (Panic ''log_write outside of trans'')) (\<lambda>_.
     with_lock LkLog (
       bindM (getM (\<lambda>s. b_blockno (bufs s ! i))) (\<lambda>b.
       bindM (log_upd (log_absorb b)) (\<lambda>_.
       modM (buf_upd i (\<lambda>b. b\<lparr>b_flags := b_flags b OR B_DIRTY\<rparr>))))))))"

end
