(* ===== verification/Fs.thy ===== *)
theory Fs
  imports Log
begin

text \<open>
  The file system, \<^verbatim>\<open>fs.c\<close>: block bitmap, inodes, file contents, directories and path names. An
  in-memory inode is named by its index in the inode cache; \<open>None\<close> is the null pointer. Paths and
  names are the bytes in front of the terminating zero.
\<close>

section \<open>On-disk structures\<close>

definition ROOTINO :: u32 where "ROOTINO = 1"

definition NDIRECT :: nat where "NDIRECT = 12"

definition NINDIRECT :: nat where "NINDIRECT = BSIZE div 4"

definition MAXFILE :: nat where "MAXFILE = NDIRECT + NINDIRECT"

definition DIRSIZ :: nat where "DIRSIZ = 14"

definition BPB :: nat where "BPB = BSIZE * 8"

definition dinode_size :: nat where "dinode_size = 64"

definition IPB :: nat where "IPB = BSIZE div dinode_size"

definition IBLOCK :: "u32 \<Rightarrow> superblock \<Rightarrow> u32" where
  "IBLOCK i sb = i div of_nat IPB + sb_inodestart sb"

definition BBLOCK :: "u32 \<Rightarrow> superblock \<Rightarrow> u32" where
  "BBLOCK b sb = b div of_nat BPB + sb_bmapstart sb"

definition T_DIR :: u16 where "T_DIR = 1"

definition T_FILE :: u16 where "T_FILE = 2"

definition T_DEV :: u16 where "T_DEV = 3"

lemmas fs_consts = ROOTINO_def NDIRECT_def NINDIRECT_def MAXFILE_def DIRSIZ_def BPB_def dinode_size_def
  IPB_def BSIZE_def T_DIR_def T_FILE_def T_DEV_def

definition din_decode :: "u8 list \<Rightarrow> nat \<Rightarrow> dinode" where
  "din_decode d o' =
     \<lparr>di_type = get16 d o', di_major = get16 d (o' + 2), di_minor = get16 d (o' + 4), di_nlink = get16 d (o' + 6),
      di_size = get32 d (o' + 8), di_addrs = map (\<lambda>i. get32 d (o' + 12 + 4 * i)) [0..<NDIRECT + 1]\<rparr>"

definition din_encode :: "dinode \<Rightarrow> nat \<Rightarrow> u8 list \<Rightarrow> u8 list" where
  "din_encode di o' d =
     fold (\<lambda>i. put32 (o' + 12 + 4 * i) (di_addrs di ! i)) [0..<NDIRECT + 1]
       (put32 (o' + 8) (di_size di)
         (put16 (o' + 6) (di_nlink di) (put16 (o' + 4) (di_minor di)
           (put16 (o' + 2) (di_major di) (put16 o' (di_type di) d)))))"

text \<open>The offset of inode \<open>inum\<close> in its block.\<close>

definition din_off :: "u32 \<Rightarrow> nat" where
  "din_off inum = dinode_size * unat (inum mod of_nat IPB)"

section \<open>Inodes in memory\<close>

definition ino_upd :: "nat \<Rightarrow> (inode \<Rightarrow> inode) \<Rightarrow> unit kop" where
  "ino_upd i f = modM (\<lambda>s. s\<lparr>k_icache := (k_icache s)[i := f (k_icache s ! i)]\<rparr>)"

definition ino :: "nat \<Rightarrow> inode kop" where
  "ino i = getM (\<lambda>s. k_icache s ! i)"

definition to_dinode :: "inode \<Rightarrow> dinode" where
  "to_dinode ip =
     \<lparr>di_type = i_type ip, di_major = i_major ip, di_minor = i_minor ip, di_nlink = i_nlink ip,
      di_size = i_size ip, di_addrs = i_addrs ip\<rparr>"

definition from_dinode :: "dinode \<Rightarrow> inode \<Rightarrow> inode" where
  "from_dinode di ip =
     ip\<lparr>i_type := di_type di, i_major := di_major di, i_minor := di_minor di, i_nlink := di_nlink di,
        i_size := di_size di, i_addrs := di_addrs di\<rparr>"

section \<open>Blocks\<close>

definition bzero :: "u32 \<Rightarrow> u32 \<Rightarrow> unit kop" where
  "bzero dev bno =
     bindM (bread dev bno) (\<lambda>bp.
     bindM (set_bdata bp (replicate BSIZE 0)) (\<lambda>_.
     bindM (log_write bp) (\<lambda>_.
     brelse bp)))"

definition bit_mask :: "nat \<Rightarrow> u8" where
  "bit_mask bi = push_bit (bi mod 8) 1"

definition bit_free :: "u8 list \<Rightarrow> nat \<Rightarrow> bool" where
  "bit_free d bi \<longleftrightarrow> d ! (bi div 8) AND bit_mask bi = 0"

definition bit_mark :: "nat \<Rightarrow> u8 list \<Rightarrow> u8 list" where
  "bit_mark bi d = d[bi div 8 := d ! (bi div 8) OR bit_mask bi]"

definition bit_clear :: "nat \<Rightarrow> u8 list \<Rightarrow> u8 list" where
  "bit_clear bi d = d[bi div 8 := d ! (bi div 8) AND NOT (bit_mask bi)]"

text \<open>The inner loop of \<^verbatim>\<open>balloc\<close>: the first free bit of a bitmap block that is below the size.\<close>

definition bit_search :: "u8 list \<Rightarrow> nat \<Rightarrow> nat \<Rightarrow> nat option" where
  "bit_search d b lim = first_idx (bit_free d) [0..<min BPB (lim - b)] 0"

fun balloc_loop :: "u32 \<Rightarrow> nat list \<Rightarrow> u32 kop" where
  "balloc_loop dev [] = failM (Panic ''balloc: out of blocks'')"
| "balloc_loop dev (b # bs) =
     bindM (getM k_sb) (\<lambda>sb.
     bindM (bread dev (BBLOCK (of_nat b) sb)) (\<lambda>bp.
     bindM (bdata bp) (\<lambda>d.
     case bit_search d b (unat (sb_size sb)) of
       Some bi \<Rightarrow>
         bindM (set_bdata bp (bit_mark bi d)) (\<lambda>_.
         bindM (log_write bp) (\<lambda>_.
         bindM (brelse bp) (\<lambda>_.
         bindM (bzero dev (of_nat (b + bi))) (\<lambda>_.
         retM (of_nat (b + bi))))))
     | None \<Rightarrow> bindM (brelse bp) (\<lambda>_. balloc_loop dev bs))))"

text \<open>The block numbers \<open>0, BPB, 2 * BPB, ...\<close> below the size of the file system.\<close>

definition bitmap_starts :: "nat \<Rightarrow> nat list" where
  "bitmap_starts lim = map (\<lambda>k. k * BPB) [0..<(lim + BPB - 1) div BPB]"

definition balloc :: "u32 \<Rightarrow> u32 kop" where
  "balloc dev = bindM (getM k_sb) (\<lambda>sb. balloc_loop dev (bitmap_starts (unat (sb_size sb))))"

definition bfree :: "u32 \<Rightarrow> u32 \<Rightarrow> unit kop" where
  "bfree dev b =
     bindM (getM k_sb) (\<lambda>sb.
     bindM (bread dev (BBLOCK b sb)) (\<lambda>bp.
     bindM (bdata bp) (\<lambda>d.
     let bi = unat b mod BPB in
     bindM (assertM (\<not> bit_free d bi) (Panic ''freeing free block'')) (\<lambda>_.
     bindM (set_bdata bp (bit_clear bi d)) (\<lambda>_.
     bindM (log_write bp) (\<lambda>_.
     brelse bp))))))"

section \<open>Inodes\<close>

fun iinit_locks :: "nat list \<Rightarrow> unit kop" where
  "iinit_locks [] = retM ()"
| "iinit_locks (i # is) = bindM (initsleeplock (SlInode i) ''inode'') (\<lambda>_. iinit_locks is)"

text \<open>
  The message with the fields of the super block, at the end of \<^verbatim>\<open>iinit\<close>, is left out.
\<close>

definition iinit :: "u32 \<Rightarrow> unit kop" where
  "iinit dev =
     bindM (liftS (initlock LkIcache ''icache'')) (\<lambda>_.
     bindM (iinit_locks [0..<NINODE]) (\<lambda>_.
     bindM (readsb dev) (\<lambda>sb.
     modM (\<lambda>s. s\<lparr>k_sb := sb\<rparr>))))"

text \<open>
  \<^verbatim>\<open>iget\<close>: an entry in use for the inode if there is one, else the first entry with no references.
\<close>

definition iget_slot :: "u32 \<Rightarrow> u32 \<Rightarrow> nat kop" where
  "iget_slot dev inum =
     bindM (getM k_icache) (\<lambda>ic.
     case first_idx (\<lambda>ip. 0 < sint (i_ref ip) \<and> i_dev ip = dev \<and> i_inum ip = inum) ic 0 of
       Some i \<Rightarrow> bindM (ino_upd i (\<lambda>ip. ip\<lparr>i_ref := i_ref ip + 1\<rparr>)) (\<lambda>_. retM i)
     | None \<Rightarrow>
         (case first_idx (\<lambda>ip. i_ref ip = 0) ic 0 of
            None \<Rightarrow> failM (Panic ''iget: no inodes'')
          | Some i \<Rightarrow>
              bindM (ino_upd i (\<lambda>ip. ip\<lparr>i_dev := dev, i_inum := inum, i_ref := 1, i_valid := False\<rparr>)) (\<lambda>_. retM i)))"

definition iget :: "u32 \<Rightarrow> u32 \<Rightarrow> nat kop" where
  "iget dev inum = with_lock LkIcache (iget_slot dev inum)"

fun ialloc_loop :: "u32 \<Rightarrow> u16 \<Rightarrow> nat list \<Rightarrow> nat kop" where
  "ialloc_loop dev ty [] = failM (Panic ''ialloc: no inodes'')"
| "ialloc_loop dev ty (inum # is) =
     bindM (getM k_sb) (\<lambda>sb.
     bindM (bread dev (IBLOCK (of_nat inum) sb)) (\<lambda>bp.
     bindM (bdata bp) (\<lambda>d.
     let o' = din_off (of_nat inum) in
     if di_type (din_decode d o') = 0 then
       bindM (set_bdata bp (put16 o' ty (take o' d @ replicate dinode_size 0 @ drop (o' + dinode_size) d))) (\<lambda>_.
       bindM (log_write bp) (\<lambda>_.
       bindM (brelse bp) (\<lambda>_.
       iget dev (of_nat inum))))
     else bindM (brelse bp) (\<lambda>_. ialloc_loop dev ty is))))"

definition ialloc :: "u32 \<Rightarrow> u16 \<Rightarrow> nat kop" where
  "ialloc dev ty = bindM (getM k_sb) (\<lambda>sb. ialloc_loop dev ty [1..<unat (sb_ninodes sb)])"

definition iupdate :: "nat \<Rightarrow> unit kop" where
  "iupdate i =
     bindM (getM k_sb) (\<lambda>sb.
     bindM (ino i) (\<lambda>ip.
     bindM (bread (i_dev ip) (IBLOCK (i_inum ip) sb)) (\<lambda>bp.
     bindM (bdata bp) (\<lambda>d.
     bindM (set_bdata bp (din_encode (to_dinode ip) (din_off (i_inum ip)) d)) (\<lambda>_.
     bindM (log_write bp) (\<lambda>_.
     brelse bp))))))"

definition idup :: "nat \<Rightarrow> nat kop" where
  "idup i = bindM (with_lock LkIcache (ino_upd i (\<lambda>ip. ip\<lparr>i_ref := i_ref ip + 1\<rparr>))) (\<lambda>_. retM i)"

definition ilock :: "nat option \<Rightarrow> unit kop" where
  "ilock p =
     bindM (theM (Panic ''ilock'') p) (\<lambda>i.
     bindM (ino i) (\<lambda>ip0.
     bindM (assertM (\<not> sint (i_ref ip0) < 1) (Panic ''ilock'')) (\<lambda>_.
     bindM (acquiresleep (SlInode i)) (\<lambda>_.
     bindM (ino i) (\<lambda>ip.
     if \<not> i_valid ip then
       bindM (getM k_sb) (\<lambda>sb.
       bindM (bread (i_dev ip) (IBLOCK (i_inum ip) sb)) (\<lambda>bp.
       bindM (bdata bp) (\<lambda>d.
       bindM (ino_upd i (from_dinode (din_decode d (din_off (i_inum ip))))) (\<lambda>_.
       bindM (brelse bp) (\<lambda>_.
       bindM (ino_upd i (\<lambda>ip. ip\<lparr>i_valid := True\<rparr>)) (\<lambda>_.
       bindM (ino i) (\<lambda>ip'.
       assertM (i_type ip' \<noteq> 0) (Panic ''ilock: no type''))))))))
     else retM ())))))"

definition iunlock :: "nat option \<Rightarrow> unit kop" where
  "iunlock p =
     bindM (theM (Panic ''iunlock'') p) (\<lambda>i.
     bindM (holdingsleep (SlInode i)) (\<lambda>h.
     bindM (ino i) (\<lambda>ip.
     bindM (assertM (h \<and> \<not> sint (i_ref ip) < 1) (Panic ''iunlock'')) (\<lambda>_.
     releasesleep (SlInode i)))))"

section \<open>Truncating and dropping inodes\<close>

fun itrunc_direct :: "nat \<Rightarrow> nat list \<Rightarrow> unit kop" where
  "itrunc_direct i [] = retM ()"
| "itrunc_direct i (k # ks) =
     bindM (ino i) (\<lambda>ip.
     bindM (if i_addrs ip ! k \<noteq> 0
            then bindM (bfree (i_dev ip) (i_addrs ip ! k)) (\<lambda>_. ino_upd i (\<lambda>ip. ip\<lparr>i_addrs := (i_addrs ip)[k := 0]\<rparr>))
            else retM ()) (\<lambda>_.
     itrunc_direct i ks))"

fun itrunc_indirect :: "u32 \<Rightarrow> nat \<Rightarrow> nat list \<Rightarrow> unit kop" where
  "itrunc_indirect dev bp [] = retM ()"
| "itrunc_indirect dev bp (j # js) =
     bindM (bdata bp) (\<lambda>d.
     bindM (if get32 d (4 * j) \<noteq> 0 then bfree dev (get32 d (4 * j)) else retM ()) (\<lambda>_.
     itrunc_indirect dev bp js))"

definition itrunc :: "nat \<Rightarrow> unit kop" where
  "itrunc i =
     bindM (itrunc_direct i [0..<NDIRECT]) (\<lambda>_.
     bindM (ino i) (\<lambda>ip.
     bindM (if i_addrs ip ! NDIRECT \<noteq> 0 then
              bindM (bread (i_dev ip) (i_addrs ip ! NDIRECT)) (\<lambda>bp.
              bindM (itrunc_indirect (i_dev ip) bp [0..<NINDIRECT]) (\<lambda>_.
              bindM (brelse bp) (\<lambda>_.
              bindM (bfree (i_dev ip) (i_addrs ip ! NDIRECT)) (\<lambda>_.
              ino_upd i (\<lambda>ip. ip\<lparr>i_addrs := (i_addrs ip)[NDIRECT := 0]\<rparr>)))))
            else retM ()) (\<lambda>_.
     bindM (ino_upd i (\<lambda>ip. ip\<lparr>i_size := 0\<rparr>)) (\<lambda>_.
     iupdate i))))"

definition iput :: "nat \<Rightarrow> unit kop" where
  "iput i =
     bindM (acquiresleep (SlInode i)) (\<lambda>_.
     bindM (ino i) (\<lambda>ip.
     bindM (if i_valid ip \<and> i_nlink ip = 0 then
              bindM (with_lock LkIcache (getM (\<lambda>s. i_ref (k_icache s ! i)))) (\<lambda>r.
              if r = 1 then
                bindM (itrunc i) (\<lambda>_.
                bindM (ino_upd i (\<lambda>ip. ip\<lparr>i_type := 0\<rparr>)) (\<lambda>_.
                bindM (iupdate i) (\<lambda>_.
                ino_upd i (\<lambda>ip. ip\<lparr>i_valid := False\<rparr>))))
              else retM ())
            else retM ()) (\<lambda>_.
     bindM (releasesleep (SlInode i)) (\<lambda>_.
     with_lock LkIcache (ino_upd i (\<lambda>ip. ip\<lparr>i_ref := i_ref ip - 1\<rparr>))))))"

definition iunlockput :: "nat \<Rightarrow> unit kop" where
  "iunlockput i = bindM (iunlock (Some i)) (\<lambda>_. iput i)"

section \<open>Contents of files\<close>

definition bmap :: "nat \<Rightarrow> u32 \<Rightarrow> u32 kop" where
  "bmap i bn =
     bindM (ino i) (\<lambda>ip.
     if unat bn < NDIRECT then
       (if i_addrs ip ! unat bn = 0 then
          bindM (balloc (i_dev ip)) (\<lambda>addr.
          bindM (ino_upd i (\<lambda>ip. ip\<lparr>i_addrs := (i_addrs ip)[unat bn := addr]\<rparr>)) (\<lambda>_. retM addr))
        else retM (i_addrs ip ! unat bn))
     else
       let k = unat bn - NDIRECT in
       if k < NINDIRECT then
         bindM (if i_addrs ip ! NDIRECT = 0 then
                  bindM (balloc (i_dev ip)) (\<lambda>addr.
                  bindM (ino_upd i (\<lambda>ip. ip\<lparr>i_addrs := (i_addrs ip)[NDIRECT := addr]\<rparr>)) (\<lambda>_. retM addr))
                else retM (i_addrs ip ! NDIRECT)) (\<lambda>ind.
         bindM (bread (i_dev ip) ind) (\<lambda>bp.
         bindM (bdata bp) (\<lambda>d.
         bindM (if get32 d (4 * k) = 0 then
                  bindM (balloc (i_dev ip)) (\<lambda>addr.
                  bindM (bdata bp) (\<lambda>d'.
                  bindM (set_bdata bp (put32 (4 * k) addr d')) (\<lambda>_.
                  bindM (log_write bp) (\<lambda>_. retM addr))))
                else retM (get32 d (4 * k))) (\<lambda>addr.
         bindM (brelse bp) (\<lambda>_. retM addr)))))
       else failM (Panic ''bmap: out of range''))"

record stat =
  st_dev :: u32
  st_ino :: u32
  st_type :: u16
  st_nlink :: u16
  st_size :: u32

definition stati :: "inode \<Rightarrow> stat" where
  "stati ip = \<lparr>st_dev = i_dev ip, st_ino = i_inum ip, st_type = i_type ip, st_nlink = i_nlink ip, st_size = i_size ip\<rparr>"

text \<open>
  Where data goes to or comes from: memory at an address of the current address space, or a local
  variable of the caller, whose bytes are passed by value.
\<close>

datatype place = AtMem u32 | AtLocal "u8 list"

definition put_bytes :: "place \<Rightarrow> u32 \<Rightarrow> u8 list \<Rightarrow> unit kop" where
  "put_bytes dst tot bs = (case dst of AtMem va \<Rightarrow> vstore (va + tot) bs | AtLocal _ \<Rightarrow> retM ())"

definition get_bytes :: "place \<Rightarrow> u32 \<Rightarrow> nat \<Rightarrow> u8 list kop" where
  "get_bytes src tot m =
     (case src of AtMem va \<Rightarrow> vload (va + tot) m | AtLocal bs \<Rightarrow> retM (take m (drop (unat tot) bs)))"

text \<open>
  The table of device functions, indexed by major number: a function gets the inode, the place and
  the number of bytes; the bytes read are its second result.
\<close>

record devsw =
  dv_read :: "nat \<Rightarrow> (nat \<Rightarrow> place \<Rightarrow> u32 \<Rightarrow> (u32 \<times> u8 list) kop) option"
  dv_write :: "nat \<Rightarrow> (nat \<Rightarrow> place \<Rightarrow> u32 \<Rightarrow> u32 kop) option"

definition chunk :: "u32 \<Rightarrow> u32 \<Rightarrow> u32 \<Rightarrow> u32" where
  "chunk off n tot = min (n - tot) (of_nat BSIZE - off mod of_nat BSIZE)"

lemma chunk_pos:
  assumes "tot < n"
  shows "0 < unat (chunk off n tot)" and "unat tot + unat (chunk off n tot) \<le> unat n"
proof -
  have d: "unat (n - tot) = unat n - unat tot" using assms by (intro unat_diff_u32) (simp add: word_less_nat_alt)
  have m: "unat (off mod 512) = unat off mod 512" by (simp add: unat_mod)
  have "unat (512 - off mod 512) = 512 - unat off mod 512"
    by (subst unat_diff_u32) (simp_all add: m less_imp_le)
  then have "unat (chunk off n tot) = min (unat n - unat tot) (512 - unat off mod 512)"
    by (simp add: chunk_def BSIZE_def d min_def word_le_nat_alt)
  with assms show "0 < unat (chunk off n tot)" "unat tot + unat (chunk off n tot) \<le> unat n"
    by (simp_all add: word_less_nat_alt)
qed

function readi_loop :: "nat \<Rightarrow> place \<Rightarrow> u32 \<Rightarrow> u32 \<Rightarrow> u32 \<Rightarrow> u8 list kop" where
  "readi_loop i dst off n tot =
     (if tot < n then
        bindM (bmap i (off div of_nat BSIZE)) (\<lambda>addr.
        bindM (ino i) (\<lambda>ip.
        bindM (bread (i_dev ip) addr) (\<lambda>bp.
        bindM (bdata bp) (\<lambda>d.
        let bs = take (unat (chunk off n tot)) (drop (unat (off mod of_nat BSIZE)) d) in
        bindM (put_bytes dst tot bs) (\<lambda>_.
        bindM (brelse bp) (\<lambda>_.
        bindM (readi_loop i dst (off + chunk off n tot) n (tot + chunk off n tot)) (\<lambda>rest.
        retM (bs @ rest))))))))
      else retM [])"
  by pat_completeness auto
termination
proof (relation "measure (\<lambda>(i, dst, off, n, tot). unat n - unat tot)", goal_cases)
  case (2 i dst off n tot)
  have "unat (tot + chunk off n tot) = unat tot + unat (chunk off n tot)"
    using chunk_pos(2) [OF 2(1), of off] unsigned_less [of n, where ?'a = nat] by (intro unat_add_u32) simp
  with chunk_pos [OF 2(1), of off] show ?case by simp
qed simp

declare readi_loop.simps [simp del]

definition readi :: "devsw \<Rightarrow> nat \<Rightarrow> place \<Rightarrow> u32 \<Rightarrow> u32 \<Rightarrow> (u32 \<times> u8 list) kop" where
  "readi dv i dst off n =
     bindM (ino i) (\<lambda>ip.
     if i_type ip = T_DEV then
       (if sint (i_major ip) < 0 \<or> int NDEV \<le> sint (i_major ip) then retM (- 1, [])
        else case dv_read dv (unat (i_major ip)) of None \<Rightarrow> retM (- 1, []) | Some f \<Rightarrow> f i dst n)
     else if i_size ip < off \<or> off + n < off then retM (- 1, [])
     else
       let n' = (if i_size ip < off + n then i_size ip - off else n) in
       bindM (readi_loop i dst off n' 0) (\<lambda>bs. retM (n', bs)))"

function writei_loop :: "nat \<Rightarrow> place \<Rightarrow> u32 \<Rightarrow> u32 \<Rightarrow> u32 \<Rightarrow> u32 kop" where
  "writei_loop i src off n tot =
     (if tot < n then
        bindM (bmap i (off div of_nat BSIZE)) (\<lambda>addr.
        bindM (ino i) (\<lambda>ip.
        bindM (bread (i_dev ip) addr) (\<lambda>bp.
        bindM (get_bytes src tot (unat (chunk off n tot))) (\<lambda>bs.
        bindM (bdata bp) (\<lambda>d.
        let o' = unat (off mod of_nat BSIZE) in
        bindM (set_bdata bp (take o' d @ bs @ drop (o' + length bs) d)) (\<lambda>_.
        bindM (log_write bp) (\<lambda>_.
        bindM (brelse bp) (\<lambda>_.
        writei_loop i src (off + chunk off n tot) n (tot + chunk off n tot)))))))))
      else retM off)"
  by pat_completeness auto
termination
proof (relation "measure (\<lambda>(i, src, off, n, tot). unat n - unat tot)", goal_cases)
  case (2 i src off n tot)
  have "unat (tot + chunk off n tot) = unat tot + unat (chunk off n tot)"
    using chunk_pos(2) [OF 2(1), of off] unsigned_less [of n, where ?'a = nat] by (intro unat_add_u32) simp
  with chunk_pos [OF 2(1), of off] show ?case by simp
qed simp

declare writei_loop.simps [simp del]

definition writei :: "devsw \<Rightarrow> nat \<Rightarrow> place \<Rightarrow> u32 \<Rightarrow> u32 \<Rightarrow> u32 kop" where
  "writei dv i src off n =
     bindM (ino i) (\<lambda>ip.
     if i_type ip = T_DEV then
       (if sint (i_major ip) < 0 \<or> int NDEV \<le> sint (i_major ip) then retM (- 1)
        else case dv_write dv (unat (i_major ip)) of None \<Rightarrow> retM (- 1) | Some f \<Rightarrow> f i src n)
     else if i_size ip < off \<or> off + n < off then retM (- 1)
     else if of_nat (MAXFILE * BSIZE) < off + n then retM (- 1)
     else
       bindM (writei_loop i src off n 0) (\<lambda>off'.
       bindM (ino i) (\<lambda>ip'.
       bindM (if 0 < n \<and> i_size ip' < off'
              then bindM (ino_upd i (\<lambda>ip. ip\<lparr>i_size := off'\<rparr>)) (\<lambda>_. iupdate i)
              else retM ()) (\<lambda>_.
       retM n))))"

section \<open>Directories\<close>

text \<open>A byte of a name; from the end of the list on, the terminating zero.\<close>

definition byte_of :: "u8 list \<Rightarrow> nat \<Rightarrow> u8" where
  "byte_of xs k = (if k < length xs then xs ! k else 0)"

definition namecmp :: "u8 list \<Rightarrow> u8 list \<Rightarrow> int" where
  "namecmp s t = strncmp (byte_of s) (byte_of t) 0 DIRSIZ"

definition dirent_size :: u32 where "dirent_size = 16"

definition de_decode :: "u8 list \<Rightarrow> dirent" where
  "de_decode d = \<lparr>de_inum = get16 d 0, de_name = take DIRSIZ (drop 2 d)\<rparr>"

definition de_encode :: "dirent \<Rightarrow> u8 list" where
  "de_encode de = [byte_at 0 (de_inum de), byte_at 1 (de_inum de)] @ de_name de"

text \<open>One entry, read into a local variable; a short read panics.\<close>

definition read_dirent :: "devsw \<Rightarrow> nat \<Rightarrow> u32 \<Rightarrow> string \<Rightarrow> dirent kop" where
  "read_dirent dv i off msg =
     bindM (readi dv i (AtLocal []) off dirent_size) (\<lambda>(r, d).
     bindM (assertM (r = dirent_size) (Panic msg)) (\<lambda>_.
     retM (de_decode d)))"

definition dirlookup :: "devsw \<Rightarrow> nat \<Rightarrow> u8 list \<Rightarrow> (nat \<times> u32) option kop" where
  "dirlookup dv i name =
     bindM (ino i) (\<lambda>dp.
     bindM (assertM (i_type dp = T_DIR) (Panic ''dirlookup not DIR'')) (\<lambda>_.
     for_up (i_size dp) 0 (\<lambda>off.
       bindM (read_dirent dv i off ''dirlookup read'') (\<lambda>de.
       if de_inum de = 0 then retM (Continue (off + dirent_size))
       else if namecmp name (de_name de) = 0
       then bindM (iget (i_dev dp) (ucast (de_inum de))) (\<lambda>ip. retM (Return (ip, off)))
       else retM (Continue (off + dirent_size))))))"

text \<open>Where the second loop of \<^verbatim>\<open>dirlink\<close> ends: a free entry or the end of the directory.\<close>

definition dir_end :: "u32 \<Rightarrow> u32" where
  "dir_end sz = (sz + 15) div 16 * 16"

definition dirlink :: "devsw \<Rightarrow> nat \<Rightarrow> u8 list \<Rightarrow> u32 \<Rightarrow> u32 kop" where
  "dirlink dv i name inum =
     bindM (dirlookup dv i name) (\<lambda>r.
     case r of
       Some (ip, _) \<Rightarrow> bindM (iput ip) (\<lambda>_. retM (- 1))
     | None \<Rightarrow>
         bindM (ino i) (\<lambda>dp.
         bindM (for_up (i_size dp) 0 (\<lambda>off.
           bindM (read_dirent dv i off ''dirlink read'') (\<lambda>de.
           retM (if de_inum de = 0 then Return off else Continue (off + dirent_size))))) (\<lambda>found.
         let off = (case found of Some o' \<Rightarrow> o' | None \<Rightarrow> dir_end (i_size dp));
             de = \<lparr>de_inum = ucast inum, de_name = strncpy (byte_of name) 0 DIRSIZ\<rparr> in
         bindM (writei dv i (AtLocal (de_encode de)) off dirent_size) (\<lambda>r.
         bindM (assertM (r = dirent_size) (Panic ''dirlink'')) (\<lambda>_.
         retM 0)))))"

section \<open>Paths\<close>

definition SLASH :: u8 where "SLASH = 0x2F"

text \<open>
  \<^verbatim>\<open>skipelem\<close> on the bytes of a path and the old contents of the name buffer; a name of
  \<^verbatim>\<open>DIRSIZ\<close> bytes or more is cut and has no terminating zero.
\<close>

definition skipelem :: "u8 list \<Rightarrow> u8 list \<Rightarrow> (u8 list \<times> u8 list) option" where
  "skipelem path name =
     (let p = dropWhile (\<lambda>c. c = SLASH) path in
      if p = [] then None
      else
        let s = takeWhile (\<lambda>c. c \<noteq> SLASH) p;
            rest = dropWhile (\<lambda>c. c \<noteq> SLASH) p;
            name' = (if DIRSIZ \<le> length s then take DIRSIZ s @ drop DIRSIZ name
                     else s @ [0] @ drop (length s + 1) name)
        in Some (dropWhile (\<lambda>c. c = SLASH) rest, name'))"

lemma skipelem_shorter: "skipelem path name = Some (p, n) \<Longrightarrow> length p < length path"
proof -
  assume sk: "skipelem path name = Some (p, n)"
  define q where "q = dropWhile (\<lambda>c. c = SLASH) path"
  have ne: "q \<noteq> []" and p: "p = dropWhile (\<lambda>c. c = SLASH) (dropWhile (\<lambda>c. c \<noteq> SLASH) q)"
    using sk by (auto simp: skipelem_def Let_def q_def split: if_splits)
  obtain x xs where q: "q = x # xs" using ne by (cases q) auto
  then have "x \<noteq> SLASH" using hd_dropWhile [of "\<lambda>c. c = SLASH" path] by (simp add: q_def)
  then have "length (dropWhile (\<lambda>c. c \<noteq> SLASH) q) \<le> length xs"
    by (simp add: q length_dropWhile_le)
  moreover have "length p \<le> length (dropWhile (\<lambda>c. c \<noteq> SLASH) q)"
    by (simp add: p length_dropWhile_le)
  moreover have "length q \<le> length path" by (simp add: q_def length_dropWhile_le)
  ultimately show ?thesis by (simp add: q)
qed

text \<open>The name buffer holds a string of at most \<^verbatim>\<open>DIRSIZ\<close> bytes.\<close>

definition name_str :: "u8 list \<Rightarrow> u8 list" where
  "name_str name = cstr (byte_of name) 0 DIRSIZ"

function namex_loop :: "devsw \<Rightarrow> nat \<Rightarrow> u8 list \<Rightarrow> bool \<Rightarrow> u8 list \<Rightarrow> (nat option \<times> u8 list) kop" where
  "namex_loop dv i path nameiparent name =
     (case skipelem path name of
        None \<Rightarrow>
          if nameiparent then bindM (iput i) (\<lambda>_. retM (None, name)) else retM (Some i, name)
      | Some (path', name') \<Rightarrow>
          bindM (ilock (Some i)) (\<lambda>_.
          bindM (ino i) (\<lambda>ip.
          if i_type ip \<noteq> T_DIR then bindM (iunlockput i) (\<lambda>_. retM (None, name'))
          else if nameiparent \<and> path' = [] then bindM (iunlock (Some i)) (\<lambda>_. retM (Some i, name'))
          else
            bindM (dirlookup dv i name') (\<lambda>r.
            case r of
              None \<Rightarrow> bindM (iunlockput i) (\<lambda>_. retM (None, name'))
            | Some (nxt, _) \<Rightarrow> bindM (iunlockput i) (\<lambda>_. namex_loop dv nxt path' nameiparent name')))))"
  by pat_completeness auto
termination
  by (relation "measure (\<lambda>(dv, i, path, nameiparent, name). length path)") (auto dest: skipelem_shorter)

declare namex_loop.simps [simp del]

definition namex :: "devsw \<Rightarrow> u8 list \<Rightarrow> bool \<Rightarrow> u8 list \<Rightarrow> (nat option \<times> u8 list) kop" where
  "namex dv path nameiparent name =
     bindM (if byte_of path 0 = SLASH then iget ROOTDEV ROOTINO
            else bindM (liftS myproc) (\<lambda>pp.
                 bindM (theM Wild pp) (\<lambda>p.
                 bindM (getM (\<lambda>s. p_cwd (kprocs s ! p))) (\<lambda>cwd.
                 bindM (theM Wild cwd) idup)))) (\<lambda>i.
     namex_loop dv i path nameiparent name)"

definition namei :: "devsw \<Rightarrow> u8 list \<Rightarrow> nat option kop" where
  "namei dv path = bindM (namex dv path False (replicate DIRSIZ 0)) (\<lambda>(r, _). retM r)"

definition nameiparent :: "devsw \<Rightarrow> u8 list \<Rightarrow> u8 list \<Rightarrow> (nat option \<times> u8 list) kop" where
  "nameiparent dv path name = namex dv path True name"

section \<open>Loading programs\<close>

text \<open>\<^verbatim>\<open>loaduvm\<close> of \<^verbatim>\<open>vm.c\<close>: a program segment from a file into mapped pages.\<close>

definition loaduvm :: "devsw \<Rightarrow> u32 \<Rightarrow> u32 \<Rightarrow> nat \<Rightarrow> u32 \<Rightarrow> u32 \<Rightarrow> int kop" where
  "loaduvm dv pgdir addr ip offset sz =
     bindM (assertM (addr mod PGSIZE = 0) (Panic ''loaduvm: addr must be page aligned'')) (\<lambda>_.
     bindM (for_up sz 0 (\<lambda>i.
       bindM (walkpgdir pgdir (addr + i) False) (\<lambda>pte.
       bindM (assertM (pte \<noteq> 0) (Panic ''loaduvm: address should exist'')) (\<lambda>_.
       bindM (getM (\<lambda>s. PTE_ADDR (ld32 (k_mem s) pte))) (\<lambda>pa.
       let n = (if sz - i < PGSIZE then sz - i else PGSIZE) in
       bindM (readi dv ip (AtMem (P2V pa)) (offset + i) n) (\<lambda>(r, _).
       retM (if r \<noteq> n then Return () else Continue (i + PGSIZE)))))))) (\<lambda>bad.
     retM (if bad = None then 0 else - 1)))"

end
