(* ===== verification/Pipe.thy ===== *)
theory Pipe
  imports Fs
begin

text \<open>
  Pipes: \<^verbatim>\<open>pipeclose\<close>, \<^verbatim>\<open>pipewrite\<close> and \<^verbatim>\<open>piperead\<close> of \<^verbatim>\<open>pipe.c\<close>. The pipe in the page at address
  \<open>p\<close> is the entry \<open>p\<close> of \<open>k_pipes\<close>. A reader or writer that sleeps is resumed, with the lock
  held again, by \<open>piperead_from\<close> or by \<open>pipewrite_from\<close> at the byte it had reached.
\<close>

definition PIPESIZE :: nat where "PIPESIZE = 512"

definition pipe_upd :: "u32 \<Rightarrow> (pipe \<Rightarrow> pipe) \<Rightarrow> kernel \<Rightarrow> kernel" where
  "pipe_upd p f s = s\<lparr>k_pipes := (k_pipes s)(p := f (k_pipes s p))\<rparr>"

definition pipe_at :: "u32 \<Rightarrow> pipe kop" where
  "pipe_at p = getM (\<lambda>s. k_pipes s p)"

text \<open>The field \<^verbatim>\<open>killed\<close> of the calling process.\<close>

definition mykilled :: "bool kop" where
  "mykilled =
     bindM (liftS myproc) (\<lambda>pp.
     bindM (theM Wild pp) (\<lambda>p.
     getM (\<lambda>s. p_killed (kprocs s ! p))))"

section \<open>The ring of bytes\<close>

definition pipe_full :: "pipe \<Rightarrow> bool" where
  "pipe_full r \<longleftrightarrow> pi_nwrite r = pi_nread r + of_nat PIPESIZE"

definition pipe_empty :: "pipe \<Rightarrow> bool" where
  "pipe_empty r \<longleftrightarrow> pi_nread r = pi_nwrite r"

definition pipe_put :: "u8 \<Rightarrow> pipe \<Rightarrow> pipe" where
  "pipe_put b r =
     r\<lparr>pi_data := (pi_data r)[unat (pi_nwrite r mod of_nat PIPESIZE) := b], pi_nwrite := pi_nwrite r + 1\<rparr>"

definition pipe_next :: "pipe \<Rightarrow> u8" where
  "pipe_next r = pi_data r ! unat (pi_nread r mod of_nat PIPESIZE)"

definition pipe_get :: "pipe \<Rightarrow> pipe" where
  "pipe_get r = r\<lparr>pi_nread := pi_nread r + 1\<rparr>"

section \<open>Operations\<close>

definition pipeclose :: "image \<Rightarrow> u32 \<Rightarrow> bool \<Rightarrow> unit kop" where
  "pipeclose im p writable =
     bindM (liftS (acquire (LkPipe p))) (\<lambda>_.
     bindM (if writable
            then bindM (modM (pipe_upd p (\<lambda>r. r\<lparr>pi_writeopen := False\<rparr>))) (\<lambda>_. wakeup (ChPipeR p))
            else bindM (modM (pipe_upd p (\<lambda>r. r\<lparr>pi_readopen := False\<rparr>))) (\<lambda>_. wakeup (ChPipeW p))) (\<lambda>_.
     bindM (pipe_at p) (\<lambda>r.
     if \<not> pi_readopen r \<and> \<not> pi_writeopen r
     then bindM (liftS (release (LkPipe p))) (\<lambda>_. kfree (im_end im) p)
     else liftS (release (LkPipe p)))))"

text \<open>Copies bytes \<open>i\<close>, \<open>i + 1\<close>, ... until all are in (\<open>None\<close>) or the pipe is full (\<open>Some\<close> the next).\<close>

fun pipewrite_loop :: "u32 \<Rightarrow> u32 \<Rightarrow> nat \<Rightarrow> u32 \<Rightarrow> u32 option kop" where
  "pipewrite_loop p addr 0 i = retM None"
| "pipewrite_loop p addr (Suc k) i =
     bindM (pipe_at p) (\<lambda>r.
     if pipe_full r then retM (Some i)
     else
       bindM (vload8 (addr + i)) (\<lambda>b.
       bindM (modM (pipe_upd p (pipe_put b))) (\<lambda>_.
       pipewrite_loop p addr k (i + 1))))"

definition pipewrite_from :: "u32 \<Rightarrow> u32 \<Rightarrow> u32 \<Rightarrow> u32 \<Rightarrow> u32 kop" where
  "pipewrite_from p addr n i =
     bindM (pipewrite_loop p addr (nat (sint n - sint i)) i) (\<lambda>stuck.
     if stuck = None then
       bindM (wakeup (ChPipeR p)) (\<lambda>_.
       bindM (liftS (release (LkPipe p))) (\<lambda>_. retM n))
     else
       bindM (pipe_at p) (\<lambda>r.
       bindM (if \<not> pi_readopen r then retM True else mykilled) (\<lambda>gone.
       if gone then bindM (liftS (release (LkPipe p))) (\<lambda>_. retM (- 1))
       else bindM (wakeup (ChPipeR p)) (\<lambda>_. sleeps (ChPipeW p) (LkPipe p)))))"

definition pipewrite :: "u32 \<Rightarrow> u32 \<Rightarrow> u32 \<Rightarrow> u32 kop" where
  "pipewrite p addr n = bindM (liftS (acquire (LkPipe p))) (\<lambda>_. pipewrite_from p addr n 0)"

fun piperead_loop :: "u32 \<Rightarrow> u32 \<Rightarrow> nat \<Rightarrow> u32 \<Rightarrow> u32 kop" where
  "piperead_loop p addr 0 i = retM i"
| "piperead_loop p addr (Suc k) i =
     bindM (pipe_at p) (\<lambda>r.
     if pipe_empty r then retM i
     else
       bindM (modM (pipe_upd p pipe_get)) (\<lambda>_.
       bindM (vstore8 (addr + i) (pipe_next r)) (\<lambda>_.
       piperead_loop p addr k (i + 1))))"

definition piperead_from :: "u32 \<Rightarrow> u32 \<Rightarrow> u32 \<Rightarrow> u32 kop" where
  "piperead_from p addr n =
     bindM (pipe_at p) (\<lambda>r.
     if pipe_empty r \<and> pi_writeopen r then
       bindM mykilled (\<lambda>gone.
       if gone then bindM (liftS (release (LkPipe p))) (\<lambda>_. retM (- 1))
       else sleeps (ChPipeR p) (LkPipe p))
     else
       bindM (piperead_loop p addr (nat (sint n)) 0) (\<lambda>i.
       bindM (wakeup (ChPipeW p)) (\<lambda>_.
       bindM (liftS (release (LkPipe p))) (\<lambda>_. retM i))))"

definition piperead :: "u32 \<Rightarrow> u32 \<Rightarrow> u32 \<Rightarrow> u32 kop" where
  "piperead p addr n = bindM (liftS (acquire (LkPipe p))) (\<lambda>_. piperead_from p addr n)"

end
