(* ===== verification/File.thy ===== *)
theory File
  imports Pipe
begin

text \<open>
  The table of open files, \<^verbatim>\<open>file.c\<close>, and \<^verbatim>\<open>pipealloc\<close> of \<^verbatim>\<open>pipe.c\<close>, which makes the two files of
  a pipe. A \<^verbatim>\<open>struct file*\<close> is an index into \<open>k_ftable\<close>.
\<close>

definition file_upd :: "nat \<Rightarrow> (kfile \<Rightarrow> kfile) \<Rightarrow> kernel \<Rightarrow> kernel" where
  "file_upd f g s = s\<lparr>k_ftable := (k_ftable s)[f := g (k_ftable s ! f)]\<rparr>"

definition file_at :: "nat \<Rightarrow> kfile kop" where
  "file_at f = getM (\<lambda>s. k_ftable s ! f)"

definition fileinit :: "unit kop" where
  "fileinit = liftS (initlock LkFtable ''ftable'')"

definition filealloc :: "nat option kop" where
  "filealloc =
     with_lock LkFtable (
       bindM (getM (\<lambda>s. first_idx (\<lambda>f. f_ref f = 0) (k_ftable s) 0)) (\<lambda>r.
       case r of
         None \<Rightarrow> retM None
       | Some f \<Rightarrow> bindM (modM (file_upd f (\<lambda>x. x\<lparr>f_ref := 1\<rparr>))) (\<lambda>_. retM (Some f))))"

definition filedup :: "nat \<Rightarrow> nat kop" where
  "filedup f =
     with_lock LkFtable (
       bindM (file_at f) (\<lambda>x.
       bindM (assertM (\<not> sint (f_ref x) < 1) (Panic ''filedup'')) (\<lambda>_.
       bindM (modM (file_upd f (\<lambda>x. x\<lparr>f_ref := f_ref x + 1\<rparr>))) (\<lambda>_.
       retM f))))"

text \<open>The critical section of \<^verbatim>\<open>fileclose\<close>: the old contents when the last reference goes.\<close>

definition fileclose_drop :: "nat \<Rightarrow> kfile option kop" where
  "fileclose_drop f =
     bindM (file_at f) (\<lambda>x.
     bindM (assertM (\<not> sint (f_ref x) < 1) (Panic ''fileclose'')) (\<lambda>_.
     bindM (modM (file_upd f (\<lambda>x. x\<lparr>f_ref := f_ref x - 1\<rparr>))) (\<lambda>_.
     bindM (file_at f) (\<lambda>x.
     if 0 < sint (f_ref x) then retM None
     else
       bindM (modM (file_upd f (\<lambda>x. x\<lparr>f_ref := 0, f_type := FD_NONE\<rparr>))) (\<lambda>_.
       retM (Some x))))))"

definition fileclose :: "image \<Rightarrow> nat \<Rightarrow> unit kop" where
  "fileclose im f =
     bindM (with_lock LkFtable (fileclose_drop f)) (\<lambda>r.
     case r of
       None \<Rightarrow> retM ()
     | Some ff \<Rightarrow>
         if f_type ff = FD_PIPE then pipeclose im (f_pipe ff) (f_writable ff)
         else if f_type ff = FD_INODE then
           bindM begin_op (\<lambda>_.
           bindM (theM Wild (f_ip ff)) (\<lambda>i.
           bindM (iput i) (\<lambda>_. end_op)))
         else retM ())"

text \<open>The stores of \<^verbatim>\<open>stati\<close> through the pointer to the caller's \<^verbatim>\<open>struct stat\<close>.\<close>

definition le16 :: "u16 \<Rightarrow> u8 list" where
  "le16 w = [byte_at 0 w, byte_at 1 w]"

definition le32 :: "u32 \<Rightarrow> u8 list" where
  "le32 w = [byte_at 0 w, byte_at 1 w, byte_at 2 w, byte_at 3 w]"

definition stat_bytes :: "stat \<Rightarrow> u8 list" where
  "stat_bytes st = le32 (st_dev st) @ le32 (st_ino st) @ le16 (st_type st) @ le16 (st_nlink st) @ le32 (st_size st)"

definition filestat :: "nat \<Rightarrow> u32 \<Rightarrow> u32 kop" where
  "filestat f st =
     bindM (file_at f) (\<lambda>x.
     if f_type x = FD_INODE then
       bindM (ilock (f_ip x)) (\<lambda>_.
       bindM (theM Wild (f_ip x)) (\<lambda>i.
       bindM (ino i) (\<lambda>ip.
       bindM (vstore st (stat_bytes (stati ip))) (\<lambda>_.
       bindM (iunlock (f_ip x)) (\<lambda>_. retM 0)))))
     else retM (- 1))"

definition fileread :: "devsw \<Rightarrow> nat \<Rightarrow> u32 \<Rightarrow> u32 \<Rightarrow> u32 kop" where
  "fileread dv f addr n =
     bindM (file_at f) (\<lambda>x.
     if \<not> f_readable x then retM (- 1)
     else if f_type x = FD_PIPE then piperead (f_pipe x) addr n
     else if f_type x = FD_INODE then
       bindM (ilock (f_ip x)) (\<lambda>_.
       bindM (theM Wild (f_ip x)) (\<lambda>i.
       bindM (file_at f) (\<lambda>x.
       bindM (readi dv i (AtMem addr) (f_off x) n) (\<lambda>(r, _).
       bindM (if 0 < sint r then modM (file_upd f (\<lambda>x. x\<lparr>f_off := f_off x + r\<rparr>)) else retM ()) (\<lambda>_.
       bindM (iunlock (f_ip x)) (\<lambda>_. retM r))))))
     else failM (Panic ''fileread''))"

text \<open>The most bytes that one log operation of \<^verbatim>\<open>filewrite\<close> writes.\<close>

definition write_max :: nat where
  "write_max = ((MAXOPBLOCKS - 1 - 1 - 2) div 2) * 512"

definition filewrite_step :: "devsw \<Rightarrow> nat \<Rightarrow> u32 \<Rightarrow> u32 \<Rightarrow> u32 kop" where
  "filewrite_step dv f addr n1 =
     bindM (file_at f) (\<lambda>x.
     bindM begin_op (\<lambda>_.
     bindM (ilock (f_ip x)) (\<lambda>_.
     bindM (theM Wild (f_ip x)) (\<lambda>i.
     bindM (file_at f) (\<lambda>x.
     bindM (writei dv i (AtMem addr) (f_off x) n1) (\<lambda>r.
     bindM (if 0 < sint r then modM (file_upd f (\<lambda>x. x\<lparr>f_off := f_off x + r\<rparr>)) else retM ()) (\<lambda>_.
     bindM (iunlock (f_ip x)) (\<lambda>_.
     bindM end_op (\<lambda>_. retM r)))))))))"

function filewrite_loop :: "devsw \<Rightarrow> nat \<Rightarrow> u32 \<Rightarrow> nat \<Rightarrow> nat \<Rightarrow> nat kop" where
  "filewrite_loop dv f addr n i =
     (if i < n then
        let n1 = min (n - i) write_max in
        bindM (filewrite_step dv f (addr + of_nat i) (of_nat n1)) (\<lambda>r.
        if sint r < 0 then retM i
        else
          bindM (assertM (r = of_nat n1) (Panic ''short filewrite'')) (\<lambda>_.
          filewrite_loop dv f addr n (i + n1)))
      else retM i)"
  by pat_completeness auto
termination
  by (relation "measure (\<lambda>(dv, f, addr, n, i). n - i)") (auto simp: write_max_def MAXOPBLOCKS_def)

declare filewrite_loop.simps [simp del]

definition filewrite :: "devsw \<Rightarrow> nat \<Rightarrow> u32 \<Rightarrow> u32 \<Rightarrow> u32 kop" where
  "filewrite dv f addr n =
     bindM (file_at f) (\<lambda>x.
     if \<not> f_writable x then retM (- 1)
     else if f_type x = FD_PIPE then pipewrite (f_pipe x) addr n
     else if f_type x = FD_INODE then
       bindM (filewrite_loop dv f addr (nat (sint n)) 0) (\<lambda>i.
       retM (if int i = sint n then n else - 1))
     else failM (Panic ''filewrite''))"

section \<open>Making a pipe\<close>

definition pipe_file :: "u32 \<Rightarrow> bool \<Rightarrow> kfile \<Rightarrow> kfile" where
  "pipe_file p writable x = x\<lparr>f_type := FD_PIPE, f_readable := \<not> writable, f_writable := writable, f_pipe := p\<rparr>"

text \<open>The exit at the label \<^verbatim>\<open>bad\<close>; no page has been allocated on any path to it.\<close>

definition pipealloc_bad :: "image \<Rightarrow> nat option \<Rightarrow> nat option \<Rightarrow> (nat \<times> nat) option kop" where
  "pipealloc_bad im f0 f1 =
     bindM (case f0 of Some f \<Rightarrow> fileclose im f | None \<Rightarrow> retM ()) (\<lambda>_.
     bindM (case f1 of Some f \<Rightarrow> fileclose im f | None \<Rightarrow> retM ()) (\<lambda>_.
     retM None))"

definition pipealloc :: "image \<Rightarrow> (nat \<times> nat) option kop" where
  "pipealloc im =
     bindM filealloc (\<lambda>r0.
     case r0 of None \<Rightarrow> pipealloc_bad im None None | Some f0 \<Rightarrow>
     bindM filealloc (\<lambda>r1.
     case r1 of None \<Rightarrow> pipealloc_bad im (Some f0) None | Some f1 \<Rightarrow>
     bindM kalloc (\<lambda>p.
     if p = 0 then pipealloc_bad im (Some f0) (Some f1)
     else
       bindM (modM (pipe_upd p (\<lambda>r. r\<lparr>pi_readopen := True, pi_writeopen := True, pi_nwrite := 0,
                pi_nread := 0\<rparr>))) (\<lambda>_.
       bindM (liftS (initlock (LkPipe p) ''pipe'')) (\<lambda>_.
       bindM (modM (file_upd f0 (pipe_file p False))) (\<lambda>_.
       bindM (modM (file_upd f1 (pipe_file p True))) (\<lambda>_.
       retM (Some (f0, f1)))))))))"

end
