(* ===== verification/Process.thy ===== *)
theory Process
  imports File
begin

text \<open>
  The functions of \<^verbatim>\<open>proc.c\<close> that create, end and inspect processes, composed of the table
  operations of \<^verbatim>\<open>ProcTable\<close>, the page allocator, the page tables and the files. The trap frame and
  the saved context, which the code keeps on the kernel stack of the process, are fields of the
  process entry. \<^verbatim>\<open>exit\<close> does not return: \<open>exit_leave\<close> is the part up to the switch.
\<close>

definition pinit :: "unit kop" where
  "pinit = liftS (initlock LkPtable ''ptable'')"

text \<open>The index of the calling process, where the code dereferences \<^verbatim>\<open>myproc()\<close>.\<close>

definition curp :: "nat kop" where
  "curp = bindM (liftS myproc) (theM Wild)"

definition proc_at :: "nat \<Rightarrow> proc kop" where
  "proc_at i = getM (\<lambda>s. kprocs s ! i)"

section \<open>Creation\<close>

text \<open>What the memory of a fresh kernel stack holds where the trap frame lies.\<close>

definition ld16 :: "mem \<Rightarrow> u32 \<Rightarrow> u16" where
  "ld16 m a = u16_le (m a) (m (a + 1))"

definition tf_load :: "mem \<Rightarrow> u32 \<Rightarrow> trapframe" where
  "tf_load m a =
     \<lparr>tf_edi = ld32 m a, tf_esi = ld32 m (a + 4), tf_ebp = ld32 m (a + 8), tf_oesp = ld32 m (a + 12),
      tf_ebx = ld32 m (a + 16), tf_edx = ld32 m (a + 20), tf_ecx = ld32 m (a + 24), tf_eax = ld32 m (a + 28),
      tf_gs = ld16 m (a + 32), tf_fs = ld16 m (a + 36), tf_es = ld16 m (a + 40), tf_ds = ld16 m (a + 44),
      tf_trapno = ld32 m (a + 48), tf_err = ld32 m (a + 52), tf_eip = ld32 m (a + 56), tf_cs = ld16 m (a + 60),
      tf_eflags = ld32 m (a + 64), tf_esp = ld32 m (a + 68), tf_ss = ld16 m (a + 72)\<rparr>"

definition tf_size :: u32 where "tf_size = 76"

definition allocproc :: "image \<Rightarrow> nat option kop" where
  "allocproc im =
     bindM (with_lock LkPtable (liftP (\<lambda>t.
       case alloc_slot t of None \<Rightarrow> Inr (None, t) | Some (i, t') \<Rightarrow> Inr (Some i, t')))) (\<lambda>r.
     case r of
       None \<Rightarrow> retM None
     | Some i \<Rightarrow>
         bindM kalloc (\<lambda>k.
         bindM (procsM (proc_upd i (\<lambda>p. p\<lparr>p_kstack := k\<rparr>))) (\<lambda>_.
         if k = 0 then
           bindM (procsM (proc_upd i (\<lambda>p. p\<lparr>p_state := UNUSED\<rparr>))) (\<lambda>_. retM None)
         else
           bindM (getM (\<lambda>s. tf_load (k_mem s) (k + of_nat KSTACKSIZE - tf_size))) (\<lambda>tf.
           bindM (getM (\<lambda>s. pt_ticks (k_ptab s))) (\<lambda>ticks.
           bindM (procsM (proc_upd i (alloc_init k (im_forkret im) tf ticks))) (\<lambda>_.
           retM (Some i)))))))"

text \<open>\<^verbatim>\<open>safestrcpy\<close> into the field \<^verbatim>\<open>name\<close>: bytes after the copied string stay.\<close>

definition set_name :: "(nat \<Rightarrow> u8) \<Rightarrow> proc \<Rightarrow> proc" where
  "set_name t p = p\<lparr>p_name := safestrcpy t 0 16 @ drop (length (safestrcpy t 0 16)) (p_name p)\<rparr>"

definition initcode_name :: "u8 list" where
  "initcode_name = [0x69, 0x6E, 0x69, 0x74, 0x63, 0x6F, 0x64, 0x65]"

definition userinit_tf :: trapframe where
  "userinit_tf =
     (let cs = of_nat (SEG_UCODE * 8) OR ucast DPL_USER; ds = of_nat (SEG_UDATA * 8) OR ucast DPL_USER in
      trapframe0\<lparr>tf_cs := cs, tf_ds := ds, tf_es := ds, tf_ss := ds, tf_eflags := FL_IF, tf_esp := PGSIZE,
        tf_eip := 0\<rparr>)"

definition userinit :: "image \<Rightarrow> devsw \<Rightarrow> unit kop" where
  "userinit im dv =
     bindM (allocproc im) (\<lambda>pp.
     bindM (modM (\<lambda>s. s\<lparr>k_ptab := (k_ptab s)\<lparr>pt_initproc := pp\<rparr>\<rparr>)) (\<lambda>_.
     bindM (setupkvm im) (\<lambda>d.
     bindM (theM Wild pp) (\<lambda>p.
     bindM (procsM (proc_upd p (\<lambda>q. q\<lparr>p_pgdir := d\<rparr>))) (\<lambda>_.
     bindM (assertM (d \<noteq> 0) (Panic ''userinit: out of memory?'')) (\<lambda>_.
     bindM (inituvm d (im_initcode im) (of_nat (length (im_initcode im)))) (\<lambda>_.
     bindM (procsM (proc_upd p (\<lambda>q. set_name (byte_of initcode_name) (q\<lparr>p_sz := PGSIZE, p_tf := Some userinit_tf\<rparr>)))) (\<lambda>_.
     bindM (namei dv [SLASH]) (\<lambda>cwd.
     bindM (procsM (proc_upd p (\<lambda>q. q\<lparr>p_cwd := cwd\<rparr>))) (\<lambda>_.
     with_lock LkPtable (procsM (start_mark p))))))))))))"

definition growproc :: "image \<Rightarrow> u32 \<Rightarrow> u32 kop" where
  "growproc im n =
     bindM curp (\<lambda>p.
     bindM (proc_at p) (\<lambda>q.
     bindM (if 0 < sint n then allocuvm im (p_pgdir q) (p_sz q) (p_sz q + n)
            else if sint n < 0 then deallocuvm im (p_pgdir q) (p_sz q) (p_sz q + n)
            else retM (p_sz q)) (\<lambda>sz.
     if n \<noteq> 0 \<and> sz = 0 then retM (- 1)
     else
       bindM (procsM (proc_upd p (\<lambda>q. q\<lparr>p_sz := sz\<rparr>))) (\<lambda>_.
       bindM (switchuvm im (Some p)) (\<lambda>_.
       retM 0)))))"

fun fork_files :: "nat \<Rightarrow> nat \<Rightarrow> nat list \<Rightarrow> unit kop" where
  "fork_files p np [] = retM ()"
| "fork_files p np (fd # fds) =
     bindM (proc_at p) (\<lambda>q.
     bindM (case p_ofile q ! fd of
              None \<Rightarrow> retM ()
            | Some f \<Rightarrow>
                bindM (filedup f) (\<lambda>f'.
                procsM (proc_upd np (\<lambda>c. c\<lparr>p_ofile := (p_ofile c)[fd := Some f']\<rparr>)))) (\<lambda>_.
     fork_files p np fds))"

definition fork :: "image \<Rightarrow> u32 kop" where
  "fork im =
     bindM (liftS myproc) (\<lambda>pp.
     bindM (allocproc im) (\<lambda>r.
     case r of
       None \<Rightarrow> retM (- 1)
     | Some np \<Rightarrow>
         bindM (theM Wild pp) (\<lambda>p.
         bindM (proc_at p) (\<lambda>q.
         bindM (copyuvm im (p_pgdir q) (p_sz q)) (\<lambda>d.
         bindM (procsM (proc_upd np (\<lambda>c. c\<lparr>p_pgdir := d\<rparr>))) (\<lambda>_.
         if d = 0 then
           bindM (proc_at np) (\<lambda>c.
           bindM (kfree (im_end im) (p_kstack c)) (\<lambda>_.
           bindM (procsM (proc_upd np (\<lambda>c. c\<lparr>p_kstack := 0, p_state := UNUSED\<rparr>))) (\<lambda>_.
           retM (- 1))))
         else
           bindM (theM Wild (p_tf q)) (\<lambda>tf.
           bindM (procsM (proc_upd np (\<lambda>c. c\<lparr>p_sz := p_sz q, p_parent := Some p, p_tf := Some (tf\<lparr>tf_eax := 0\<rparr>)\<rparr>))) (\<lambda>_.
           bindM (fork_files p np [0..<NOFILE]) (\<lambda>_.
           bindM (theM Wild (p_cwd q)) (\<lambda>cwd.
           bindM (idup cwd) (\<lambda>cwd'.
           bindM (procsM (proc_upd np (\<lambda>c. set_name (byte_of (p_name q)) (c\<lparr>p_cwd := Some cwd',
                    p_tickets := fork_tickets q, p_original_tickets := fork_tickets q\<rparr>)))) (\<lambda>_.
           bindM (proc_at np) (\<lambda>c.
           bindM (with_lock LkPtable (procsM (start_mark np))) (\<lambda>_.
           retM (p_pid c)))))))))))))))"

text \<open>A child that runs for the first time; the very first process also starts the file system.\<close>

definition forkret :: "unit kop" where
  "forkret =
     bindM (liftS (release LkPtable)) (\<lambda>_.
     bindM (getM (\<lambda>s. pt_first (k_ptab s))) (\<lambda>fst.
     if fst then
       bindM (modM (\<lambda>s. s\<lparr>k_ptab := (k_ptab s)\<lparr>pt_first := False\<rparr>\<rparr>)) (\<lambda>_.
       bindM (iinit ROOTDEV) (\<lambda>_. initlog ROOTDEV))
     else retM ()))"

section \<open>Exit, wait and kill\<close>

fun exit_files :: "image \<Rightarrow> nat \<Rightarrow> nat list \<Rightarrow> unit kop" where
  "exit_files im p [] = retM ()"
| "exit_files im p (fd # fds) =
     bindM (proc_at p) (\<lambda>q.
     bindM (case p_ofile q ! fd of
              None \<Rightarrow> retM ()
            | Some f \<Rightarrow>
                bindM (fileclose im f) (\<lambda>_.
                procsM (proc_upd p (\<lambda>q. q\<lparr>p_ofile := (p_ofile q)[fd := None]\<rparr>)))) (\<lambda>_.
     exit_files im p fds))"

definition exit_leave :: "image \<Rightarrow> bool kop" where
  "exit_leave im =
     bindM (liftS myproc) (\<lambda>pp.
     bindM (getM (\<lambda>s. pt_initproc (k_ptab s))) (\<lambda>init.
     bindM (assertM (pp \<noteq> init) (Panic ''init exiting'')) (\<lambda>_.
     bindM (theM Wild pp) (\<lambda>p.
     bindM (exit_files im p [0..<NOFILE]) (\<lambda>_.
     bindM begin_op (\<lambda>_.
     bindM (proc_at p) (\<lambda>q.
     bindM (theM Wild (p_cwd q)) (\<lambda>cwd.
     bindM (iput cwd) (\<lambda>_.
     bindM end_op (\<lambda>_.
     bindM (procsM (proc_upd p (\<lambda>q. q\<lparr>p_cwd := None\<rparr>))) (\<lambda>_.
     bindM (liftS (acquire LkPtable)) (\<lambda>_.
     bindM (liftP (modM (exit_table p))) (\<lambda>_.
     sched_leave)))))))))))))"

text \<open>
  The body of the loop of \<^verbatim>\<open>wait\<close> and \<^verbatim>\<open>waitx\<close>, with the table locked; \<open>report\<close> is what is done
  with the child that is found before it is freed.
\<close>

definition wait_round :: "image \<Rightarrow> (proc \<Rightarrow> unit kop) \<Rightarrow> u32 kop" where
  "wait_round im report =
     bindM curp (\<lambda>cur.
     bindM (getM (\<lambda>s. wait_scan cur (kprocs s) 0 False)) (\<lambda>(z, havekids).
     case z of
       Some k \<Rightarrow>
         bindM (proc_at k) (\<lambda>c.
         bindM (report c) (\<lambda>_.
         bindM (kfree (im_end im) (p_kstack c)) (\<lambda>_.
         bindM (freevm im (p_pgdir c)) (\<lambda>_.
         bindM (procsM (reap k)) (\<lambda>_.
         bindM (liftS (release LkPtable)) (\<lambda>_.
         retM (p_pid c)))))))
     | None \<Rightarrow>
         bindM (proc_at cur) (\<lambda>q.
         if \<not> havekids \<or> p_killed q then bindM (liftS (release LkPtable)) (\<lambda>_. retM (- 1))
         else sleeps (ChProc cur) LkPtable)))"

definition wait :: "image \<Rightarrow> u32 kop" where
  "wait im = bindM (liftS (acquire LkPtable)) (\<lambda>_. wait_round im (\<lambda>_. retM ()))"

definition waitx_report :: "u32 \<Rightarrow> u32 \<Rightarrow> proc \<Rightarrow> unit kop" where
  "waitx_report wtime rtime c =
     (case waitx_times c of (wt, rt) \<Rightarrow> bindM (vstore32 rtime rt) (\<lambda>_. vstore32 wtime wt))"

definition waitx :: "image \<Rightarrow> u32 \<Rightarrow> u32 \<Rightarrow> u32 kop" where
  "waitx im wtime rtime =
     (if wtime = 0 \<or> rtime = 0 then retM (- 1)
      else bindM (liftS (acquire LkPtable)) (\<lambda>_. wait_round im (waitx_report wtime rtime)))"

definition kill :: "u32 \<Rightarrow> u32 kop" where
  "kill pid =
     with_lock LkPtable (
       bindM (getM (\<lambda>s. kill_scan pid (kprocs s))) (\<lambda>r.
       case r of
         None \<Rightarrow> retM (- 1)
       | Some ps \<Rightarrow> bindM (procsM (\<lambda>_. ps)) (\<lambda>_. retM 0)))"

section \<open>Scheduling system calls\<close>

definition set_policy :: "u32 \<Rightarrow> u32 kop" where
  "set_policy policy = liftP (\<lambda>t. Inr (setpolicy policy t))"

definition settickets :: "u32 \<Rightarrow> u32 kop" where
  "settickets n =
     (if sint n < 1 then retM (- 1)
      else with_lock LkPtable (
        bindM curp (\<lambda>p.
        bindM (procsM (set_tickets_mark p n)) (\<lambda>_. retM 0))))"

text \<open>
  The stores of one round of the loop of \<^verbatim>\<open>getpinfo\<close>: the arrays of \<^verbatim>\<open>struct pstat\<close> lie behind each
  other, \<^verbatim>\<open>inuse\<close>, \<^verbatim>\<open>pid\<close>, \<^verbatim>\<open>state\<close>, \<^verbatim>\<open>tickets\<close> and so on; array 2, \<^verbatim>\<open>state\<close>, is not written.
\<close>

definition pstat_row :: "proc \<Rightarrow> (nat \<times> u32) list" where
  "pstat_row p =
     [(0, if p_state p \<noteq> UNUSED then 1 else 0), (1, p_pid p), (3, p_tickets p), (4, p_original_tickets p),
      (5, p_rtime p), (6, p_stime p), (7, p_retime p), (8, p_ctime p), (9, p_etime p)]"

fun pstat_store :: "u32 \<Rightarrow> nat \<Rightarrow> (nat \<times> u32) list \<Rightarrow> unit kop" where
  "pstat_store ps i [] = retM ()"
| "pstat_store ps i ((a, v) # avs) =
     bindM (vstore32 (ps + of_nat (4 * (NPROC * a + i))) v) (\<lambda>_. pstat_store ps i avs)"

fun getpinfo_loop :: "u32 \<Rightarrow> nat list \<Rightarrow> unit kop" where
  "getpinfo_loop ps [] = retM ()"
| "getpinfo_loop ps (i # is) =
     bindM (proc_at i) (\<lambda>p.
     bindM (pstat_store ps i (pstat_row p)) (\<lambda>_.
     getpinfo_loop ps is))"

definition getpinfo :: "u32 \<Rightarrow> u32 kop" where
  "getpinfo ps =
     (if ps = 0 then retM (- 1)
      else with_lock LkPtable (bindM (getpinfo_loop ps [0..<NPROC]) (\<lambda>_. retM 0)))"

end
