(* ===== verification/Exec.thy ===== *)
theory Exec
  imports Process
begin

text \<open>
  \<^verbatim>\<open>exec\<close> of \<^verbatim>\<open>exec.c\<close>. The path and the argument strings are passed as their bytes, without the
  terminating zero; a jump to the label \<^verbatim>\<open>bad\<close> is the result \<open>None\<close> of the part that jumps. The
  message printed when the file does not exist is left out.
\<close>

section \<open>ELF files\<close>

record elfhdr =
  eh_magic :: u32
  eh_entry :: u32
  eh_phoff :: u32
  eh_phnum :: u16

record proghdr =
  ph_type :: u32
  ph_off :: u32
  ph_vaddr :: u32
  ph_filesz :: u32
  ph_memsz :: u32

definition ELF_MAGIC :: u32 where "ELF_MAGIC = 0x464C457F"

definition ELF_PROG_LOAD :: u32 where "ELF_PROG_LOAD = 1"

definition elfhdr_size :: u32 where "elfhdr_size = 52"

definition proghdr_size :: u32 where "proghdr_size = 32"

definition elf_decode :: "u8 list \<Rightarrow> elfhdr" where
  "elf_decode d = \<lparr>eh_magic = get32 d 0, eh_entry = get32 d 24, eh_phoff = get32 d 28, eh_phnum = get16 d 44\<rparr>"

definition ph_decode :: "u8 list \<Rightarrow> proghdr" where
  "ph_decode d = \<lparr>ph_type = get32 d 0, ph_off = get32 d 4, ph_vaddr = get32 d 8, ph_filesz = get32 d 16,
     ph_memsz = get32 d 20\<rparr>"

text \<open>Reads a structure of the given size into a local variable.\<close>

definition read_local :: "devsw \<Rightarrow> nat \<Rightarrow> u32 \<Rightarrow> u32 \<Rightarrow> u8 list option kop" where
  "read_local dv ip off n =
     bindM (readi dv ip (AtLocal []) off n) (\<lambda>(r, d).
     retM (if r \<noteq> n then None else Some d))"

section \<open>Loading the segments\<close>

definition load_segment :: "image \<Rightarrow> devsw \<Rightarrow> nat \<Rightarrow> u32 \<Rightarrow> proghdr \<Rightarrow> u32 \<Rightarrow> u32 option kop" where
  "load_segment im dv ip pgdir ph sz =
     (if ph_type ph \<noteq> ELF_PROG_LOAD then retM (Some sz)
      else if ph_memsz ph < ph_filesz ph then retM None
      else if ph_vaddr ph + ph_memsz ph < ph_vaddr ph then retM None
      else
        bindM (allocuvm im pgdir sz (ph_vaddr ph + ph_memsz ph)) (\<lambda>sz'.
        if sz' = 0 then retM None
        else if ph_vaddr ph mod PGSIZE \<noteq> 0 then retM None
        else
          bindM (loaduvm dv pgdir (ph_vaddr ph) ip (ph_off ph) (ph_filesz ph)) (\<lambda>r.
          retM (if r < 0 then None else Some sz'))))"

fun load_segments :: "image \<Rightarrow> devsw \<Rightarrow> nat \<Rightarrow> u32 \<Rightarrow> nat \<Rightarrow> u32 \<Rightarrow> u32 \<Rightarrow> u32 option kop" where
  "load_segments im dv ip pgdir 0 off sz = retM (Some sz)"
| "load_segments im dv ip pgdir (Suc k) off sz =
     bindM (read_local dv ip off proghdr_size) (\<lambda>r.
     case r of
       None \<Rightarrow> retM None
     | Some d \<Rightarrow>
         bindM (load_segment im dv ip pgdir (ph_decode d) sz) (\<lambda>r.
         case r of
           None \<Rightarrow> retM None
         | Some sz' \<Rightarrow> load_segments im dv ip pgdir k (off + proghdr_size) sz'))"

section \<open>The new stack\<close>

text \<open>Pushes the argument strings; the result is the stack pointer and the addresses of the strings.\<close>

fun push_args :: "u32 \<Rightarrow> u8 list list \<Rightarrow> u32 \<Rightarrow> u32 list \<Rightarrow> (u32 \<times> u32 list) option kop" where
  "push_args pgdir [] sp ustack = retM (Some (sp, ustack))"
| "push_args pgdir (s # ss) sp ustack =
     (if MAXARG \<le> length ustack then retM None
      else
        let sp' = (sp - (of_nat (length s) + 1)) AND NOT 3 in
        bindM (copyout pgdir sp' (s @ [0])) (\<lambda>r.
        if r < 0 then retM None
        else push_args pgdir ss sp' (ustack @ [sp'])))"

text \<open>The words above the strings: a fake return address, argc, argv, and the vector itself.\<close>

definition arg_words :: "u32 \<Rightarrow> u32 list \<Rightarrow> u32 list" where
  "arg_words sp ustack =
     [0xFFFFFFFF, of_nat (length ustack), sp - of_nat ((length ustack + 1) * 4)] @ ustack @ [0]"

definition build_stack :: "u32 \<Rightarrow> u8 list list \<Rightarrow> u32 \<Rightarrow> u32 option kop" where
  "build_stack pgdir argv sz =
     bindM (push_args pgdir argv sz []) (\<lambda>r.
     case r of
       None \<Rightarrow> retM None
     | Some (sp, ustack) \<Rightarrow>
         let sp' = sp - of_nat ((3 + length ustack + 1) * 4) in
         bindM (copyout pgdir sp' (concat (map le32 (arg_words sp ustack)))) (\<lambda>r.
         retM (if r < 0 then None else Some sp')))"

text \<open>The part of a path after its last slash.\<close>

fun after_slash :: "u8 list \<Rightarrow> u8 list \<Rightarrow> u8 list" where
  "after_slash lst [] = lst"
| "after_slash lst (c # cs) = after_slash (if c = SLASH then cs else lst) cs"

section \<open>exec\<close>

text \<open>The exit at \<^verbatim>\<open>bad\<close>, with the page table and the inode as they are at the jump.\<close>

definition exec_bad :: "image \<Rightarrow> u32 \<Rightarrow> nat option \<Rightarrow> u32 kop" where
  "exec_bad im pgdir ip =
     bindM (if pgdir \<noteq> 0 then freevm im pgdir else retM ()) (\<lambda>_.
     bindM (case ip of None \<Rightarrow> retM () | Some i \<Rightarrow> bindM (iunlockput i) (\<lambda>_. end_op)) (\<lambda>_.
     retM (- 1)))"

definition exec_commit :: "image \<Rightarrow> nat \<Rightarrow> u8 list \<Rightarrow> u32 \<Rightarrow> u32 \<Rightarrow> u32 \<Rightarrow> u32 \<Rightarrow> u32 kop" where
  "exec_commit im p path pgdir sz entry sp =
     bindM (procsM (proc_upd p (set_name (byte_of (after_slash path path))))) (\<lambda>_.
     bindM (proc_at p) (\<lambda>q.
     bindM (procsM (proc_upd p (\<lambda>q. q\<lparr>p_pgdir := pgdir, p_sz := sz\<rparr>))) (\<lambda>_.
     bindM (theM Wild (p_tf q)) (\<lambda>tf.
     bindM (procsM (proc_upd p (\<lambda>q. q\<lparr>p_tf := Some (tf\<lparr>tf_eip := entry, tf_esp := sp\<rparr>)\<rparr>))) (\<lambda>_.
     bindM (switchuvm im (Some p)) (\<lambda>_.
     bindM (freevm im (p_pgdir q)) (\<lambda>_.
     retM 0)))))))"

text \<open>The part after the file has been closed.\<close>

definition exec_stack :: "image \<Rightarrow> nat \<Rightarrow> u8 list \<Rightarrow> u8 list list \<Rightarrow> u32 \<Rightarrow> u32 \<Rightarrow> u32 \<Rightarrow> u32 kop" where
  "exec_stack im p path argv pgdir sz entry =
     bindM (allocuvm im pgdir (PGROUNDUP sz) (PGROUNDUP sz + 2 * PGSIZE)) (\<lambda>sz'.
     if sz' = 0 then exec_bad im pgdir None
     else
       bindM (clearpteu pgdir (sz' - 2 * PGSIZE)) (\<lambda>_.
       bindM (build_stack pgdir argv sz') (\<lambda>r.
       case r of
         None \<Rightarrow> exec_bad im pgdir None
       | Some sp \<Rightarrow> exec_commit im p path pgdir sz' entry sp)))"

definition exec :: "image \<Rightarrow> devsw \<Rightarrow> u8 list \<Rightarrow> u8 list list \<Rightarrow> u32 kop" where
  "exec im dv path argv =
     bindM curp (\<lambda>p.
     bindM begin_op (\<lambda>_.
     bindM (namei dv path) (\<lambda>r.
     case r of
       None \<Rightarrow> bindM end_op (\<lambda>_. retM (- 1))
     | Some ip \<Rightarrow>
         bindM (ilock (Some ip)) (\<lambda>_.
         bindM (read_local dv ip 0 elfhdr_size) (\<lambda>r.
         case r of
           None \<Rightarrow> exec_bad im 0 (Some ip)
         | Some d \<Rightarrow>
             if eh_magic (elf_decode d) \<noteq> ELF_MAGIC then exec_bad im 0 (Some ip)
             else
               bindM (setupkvm im) (\<lambda>pgdir.
               if pgdir = 0 then exec_bad im 0 (Some ip)
               else
                 bindM (load_segments im dv ip pgdir (unat (eh_phnum (elf_decode d))) (eh_phoff (elf_decode d)) 0) (\<lambda>r.
                 case r of
                   None \<Rightarrow> exec_bad im pgdir (Some ip)
                 | Some sz \<Rightarrow>
                     bindM (iunlockput ip) (\<lambda>_.
                     bindM end_op (\<lambda>_.
                     exec_stack im p path argv pgdir sz (eh_entry (elf_decode d)))))))))))"

end
