(* ===== verification/Syscall.thy ===== *)
theory Syscall
  imports Exec
begin

text \<open>
  The arguments of system calls, \<^verbatim>\<open>syscall.c\<close>, and the process-related system calls of
  \<^verbatim>\<open>sysproc.c\<close>. An argument fetch that fails with -1 gives \<open>None\<close>; a string argument is given as
  its bytes.
\<close>

section \<open>Arguments\<close>

definition fetchint :: "u32 \<Rightarrow> u32 option kop" where
  "fetchint addr =
     bindM (liftS myproc) (\<lambda>pp.
     case pp of
       None \<Rightarrow> retM None
     | Some p \<Rightarrow>
         bindM (proc_at p) (\<lambda>q.
         if p_sz q \<le> addr \<or> p_sz q < addr + 4 then retM None
         else bindM (vload32 addr) (\<lambda>v. retM (Some v))))"

definition fetchstr :: "u32 \<Rightarrow> u8 list option kop" where
  "fetchstr addr =
     bindM (liftS myproc) (\<lambda>pp.
     case pp of
       None \<Rightarrow> retM None
     | Some p \<Rightarrow>
         bindM (proc_at p) (\<lambda>q.
         if p_sz q \<le> addr then retM None
         else
           bindM (for_up (p_sz q) addr (\<lambda>s.
             bindM (vload8 s) (\<lambda>c. retM (if c = 0 then Return s else Continue (s + 1))))) (\<lambda>r.
           case r of
             None \<Rightarrow> retM None
           | Some s \<Rightarrow> bindM (vload addr (unat (s - addr))) (\<lambda>bs. retM (Some bs)))))"

definition argint :: "nat \<Rightarrow> u32 option kop" where
  "argint n =
     bindM (liftS myproc) (\<lambda>pp.
     case pp of
       None \<Rightarrow> retM None
     | Some p \<Rightarrow>
         bindM (proc_at p) (\<lambda>q.
         case p_tf q of
           None \<Rightarrow> retM None
         | Some tf \<Rightarrow> fetchint (tf_esp tf + 4 + of_nat (4 * n))))"

definition argptr :: "nat \<Rightarrow> u32 \<Rightarrow> u32 option kop" where
  "argptr n size' =
     bindM (liftS myproc) (\<lambda>pp.
     case pp of
       None \<Rightarrow> retM None
     | Some p \<Rightarrow>
         bindM (argint n) (\<lambda>r.
         case r of
           None \<Rightarrow> retM None
         | Some i \<Rightarrow>
             bindM (proc_at p) (\<lambda>q.
             retM (if sint size' < 0 \<or> p_sz q \<le> i \<or> p_sz q < i + size' then None else Some i))))"

definition argstr :: "nat \<Rightarrow> u8 list option kop" where
  "argstr n =
     bindM (argint n) (\<lambda>r.
     case r of None \<Rightarrow> retM None | Some addr \<Rightarrow> fetchstr addr)"

section \<open>Process system calls\<close>

text \<open>
  A system call returns a value, or leaves the process for good (\<^verbatim>\<open>exit\<close>), or gives up the CPU
  (\<^verbatim>\<open>yield\<close>); the flag is the interrupt state that \<^verbatim>\<open>sched\<close> saved.
\<close>

datatype sysres = Value u32 | Exits bool | Yields bool

definition val :: "u32 kop \<Rightarrow> sysres kop" where
  "val m = bindM m (\<lambda>r. retM (Value r))"

definition sys_fork :: "image \<Rightarrow> u32 kop" where
  "sys_fork im = fork im"

definition sys_exit :: "image \<Rightarrow> sysres kop" where
  "sys_exit im = bindM (exit_leave im) (\<lambda>e. retM (Exits e))"

definition sys_wait :: "image \<Rightarrow> u32 kop" where
  "sys_wait im = wait im"

text \<open>With one integer argument; -1 when it cannot be fetched.\<close>

definition sys_kill :: "u32 kop" where
  "sys_kill = bindM (argint 0) (\<lambda>r. case r of None \<Rightarrow> retM (- 1) | Some pid \<Rightarrow> kill pid)"

definition sys_getpid :: "u32 kop" where
  "sys_getpid = bindM curp (\<lambda>p. bindM (proc_at p) (\<lambda>q. retM (p_pid q)))"

definition sys_sbrk :: "image \<Rightarrow> u32 kop" where
  "sys_sbrk im =
     bindM (argint 0) (\<lambda>r.
     case r of
       None \<Rightarrow> retM (- 1)
     | Some n \<Rightarrow>
         bindM curp (\<lambda>p.
         bindM (proc_at p) (\<lambda>q.
         bindM (growproc im n) (\<lambda>g.
         retM (if sint g < 0 then - 1 else p_sz q)))))"

text \<open>The loop of \<^verbatim>\<open>sys_sleep\<close> with the lock held, from its start or when a sleep has ended.\<close>

definition sys_sleep_from :: "u32 \<Rightarrow> u32 \<Rightarrow> u32 kop" where
  "sys_sleep_from ticks0 n =
     bindM (getM (\<lambda>s. pt_ticks (k_ptab s))) (\<lambda>ticks.
     if ticks - ticks0 < n then
       bindM mykilled (\<lambda>gone.
       if gone then bindM (liftS (release LkTicks)) (\<lambda>_. retM (- 1))
       else sleeps ChTicks LkTicks)
     else bindM (liftS (release LkTicks)) (\<lambda>_. retM 0))"

definition sys_sleep :: "u32 kop" where
  "sys_sleep =
     bindM (argint 0) (\<lambda>r.
     case r of
       None \<Rightarrow> retM (- 1)
     | Some n \<Rightarrow>
         if sint n < 0 then retM (- 1)
         else
           bindM (liftS (acquire LkTicks)) (\<lambda>_.
           bindM (getM (\<lambda>s. pt_ticks (k_ptab s))) (\<lambda>ticks0.
           sys_sleep_from ticks0 n)))"

definition sys_uptime :: "u32 kop" where
  "sys_uptime = with_lock LkTicks (getM (\<lambda>s. pt_ticks (k_ptab s)))"

definition sys_settickets :: "u32 kop" where
  "sys_settickets =
     bindM (argint 0) (\<lambda>r.
     case r of
       None \<Rightarrow> retM (- 1)
     | Some n \<Rightarrow> if sint n \<le> 0 then retM (- 1) else settickets n)"

definition sys_setpolicy :: "u32 kop" where
  "sys_setpolicy =
     bindM (argint 0) (\<lambda>r.
     case r of
       None \<Rightarrow> retM (- 1)
     | Some p \<Rightarrow> if sint p < 0 \<or> sint p > 2 then retM (- 1) else set_policy p)"

definition pstat_size :: u32 where "pstat_size = 3584"

definition sys_getpinfo :: "u32 kop" where
  "sys_getpinfo =
     bindM (argptr 0 pstat_size) (\<lambda>r.
     case r of
       None \<Rightarrow> retM (- 1)
     | Some ps \<Rightarrow> if ps = 0 then retM (- 1) else getpinfo ps)"

definition sys_waitx :: "image \<Rightarrow> u32 kop" where
  "sys_waitx im =
     bindM (argptr 0 4) (\<lambda>w.
     case w of
       None \<Rightarrow> retM (- 1)
     | Some w \<Rightarrow>
         if w = 0 then retM (- 1)
         else
           bindM (argptr 1 4) (\<lambda>r.
           case r of
             None \<Rightarrow> retM (- 1)
           | Some r \<Rightarrow> if r = 0 then retM (- 1) else waitx im w r))"

definition sys_yield :: "sysres kop" where
  "sys_yield = bindM yield_leave (\<lambda>e. retM (Yields e))"

end
