(* ===== verification/Sysfile.thy ===== *)
theory Sysfile
  imports Syscall
begin

text \<open>
  The file-system calls of \<^verbatim>\<open>sysfile.c\<close>. A failed check that returns -1 at once is the first branch
  of a case distinction; the exits through a label are definitions of their own.
\<close>

definition O_RDONLY :: u32 where "O_RDONLY = 0x000"

definition O_WRONLY :: u32 where "O_WRONLY = 0x001"

definition O_RDWR :: u32 where "O_RDWR = 0x002"

definition O_CREATE :: u32 where "O_CREATE = 0x200"

definition O_TRUNC :: u32 where "O_TRUNC = 0x400"

section \<open>File descriptors\<close>

definition argfd :: "nat \<Rightarrow> (nat \<times> nat) option kop" where
  "argfd n =
     bindM (argint n) (\<lambda>r.
     case r of
       None \<Rightarrow> retM None
     | Some fd \<Rightarrow>
         if sint fd < 0 \<or> int NOFILE \<le> sint fd then retM None
         else
           bindM curp (\<lambda>p.
           bindM (proc_at p) (\<lambda>q.
           retM (map_option (Pair (unat fd)) (p_ofile q ! unat fd)))))"

definition set_ofile :: "nat \<Rightarrow> nat \<Rightarrow> nat option \<Rightarrow> unit kop" where
  "set_ofile p fd f = procsM (proc_upd p (\<lambda>q. q\<lparr>p_ofile := (p_ofile q)[fd := f]\<rparr>))"

definition fdalloc :: "nat \<Rightarrow> nat option kop" where
  "fdalloc f =
     bindM curp (\<lambda>p.
     bindM (proc_at p) (\<lambda>q.
     case first_idx (\<lambda>x. x = None) (p_ofile q) 0 of
       None \<Rightarrow> retM None
     | Some fd \<Rightarrow> bindM (set_ofile p fd (Some f)) (\<lambda>_. retM (Some fd))))"

definition sys_dup :: "u32 kop" where
  "sys_dup =
     bindM (argfd 0) (\<lambda>r.
     case r of
       None \<Rightarrow> retM (- 1)
     | Some (_, f) \<Rightarrow>
         bindM (fdalloc f) (\<lambda>fd.
         case fd of
           None \<Rightarrow> retM (- 1)
         | Some fd \<Rightarrow> bindM (filedup f) (\<lambda>_. retM (of_nat fd))))"

text \<open>The arguments of \<^verbatim>\<open>read\<close> and \<^verbatim>\<open>write\<close>: the file, the buffer and its size.\<close>

definition arg_rw :: "(nat \<times> u32 \<times> u32) option kop" where
  "arg_rw =
     bindM (argfd 0) (\<lambda>r.
     case r of None \<Rightarrow> retM None | Some (_, f) \<Rightarrow>
     bindM (argint 2) (\<lambda>r.
     case r of None \<Rightarrow> retM None | Some n \<Rightarrow>
     bindM (argptr 1 n) (\<lambda>r.
     retM (map_option (\<lambda>p. (f, p, n)) r))))"

definition sys_read :: "devsw \<Rightarrow> u32 kop" where
  "sys_read dv = bindM arg_rw (\<lambda>r. case r of None \<Rightarrow> retM (- 1) | Some (f, p, n) \<Rightarrow> fileread dv f p n)"

definition sys_write :: "devsw \<Rightarrow> u32 kop" where
  "sys_write dv = bindM arg_rw (\<lambda>r. case r of None \<Rightarrow> retM (- 1) | Some (f, p, n) \<Rightarrow> filewrite dv f p n)"

definition sys_close :: "image \<Rightarrow> u32 kop" where
  "sys_close im =
     bindM (argfd 0) (\<lambda>r.
     case r of
       None \<Rightarrow> retM (- 1)
     | Some (fd, f) \<Rightarrow>
         bindM curp (\<lambda>p.
         bindM (set_ofile p fd None) (\<lambda>_.
         bindM (fileclose im f) (\<lambda>_.
         retM 0))))"

definition sys_fstat :: "u32 kop" where
  "sys_fstat =
     bindM (argfd 0) (\<lambda>r.
     case r of
       None \<Rightarrow> retM (- 1)
     | Some (_, f) \<Rightarrow>
         bindM (argptr 1 16) (\<lambda>r.
         case r of None \<Rightarrow> retM (- 1) | Some st \<Rightarrow> filestat f st))"

section \<open>Links\<close>

definition name0 :: "u8 list" where "name0 = replicate DIRSIZ 0"

text \<open>Ends the log operation and returns -1.\<close>

definition op_fails :: "u32 kop" where
  "op_fails = bindM end_op (\<lambda>_. retM (- 1))"

definition link_bad :: "nat \<Rightarrow> u32 kop" where
  "link_bad ip =
     bindM (ilock (Some ip)) (\<lambda>_.
     bindM (ino_upd ip (\<lambda>x. x\<lparr>i_nlink := i_nlink x - 1\<rparr>)) (\<lambda>_.
     bindM (iupdate ip) (\<lambda>_.
     bindM (iunlockput ip) (\<lambda>_.
     op_fails))))"

definition link_into :: "devsw \<Rightarrow> nat \<Rightarrow> u8 list \<Rightarrow> u32 kop" where
  "link_into dv ip new =
     bindM (nameiparent dv new name0) (\<lambda>(r, name).
     case r of
       None \<Rightarrow> link_bad ip
     | Some dp \<Rightarrow>
         bindM (ilock (Some dp)) (\<lambda>_.
         bindM (ino dp) (\<lambda>d.
         bindM (ino ip) (\<lambda>x.
         bindM (if i_dev d \<noteq> i_dev x then retM (- 1) else dirlink dv dp name (i_inum x)) (\<lambda>l.
         if sint l < 0 then bindM (iunlockput dp) (\<lambda>_. link_bad ip)
         else
           bindM (iunlockput dp) (\<lambda>_.
           bindM (iput ip) (\<lambda>_.
           bindM end_op (\<lambda>_.
           retM 0))))))))"

definition sys_link :: "devsw \<Rightarrow> u32 kop" where
  "sys_link dv =
     bindM (argstr 0) (\<lambda>r.
     case r of None \<Rightarrow> retM (- 1) | Some old \<Rightarrow>
     bindM (argstr 1) (\<lambda>r.
     case r of None \<Rightarrow> retM (- 1) | Some new \<Rightarrow>
     bindM begin_op (\<lambda>_.
     bindM (namei dv old) (\<lambda>r.
     case r of None \<Rightarrow> op_fails | Some ip \<Rightarrow>
     bindM (ilock (Some ip)) (\<lambda>_.
     bindM (ino ip) (\<lambda>x.
     if i_type x = T_DIR then bindM (iunlockput ip) (\<lambda>_. op_fails)
     else
       bindM (ino_upd ip (\<lambda>x. x\<lparr>i_nlink := i_nlink x + 1\<rparr>)) (\<lambda>_.
       bindM (iupdate ip) (\<lambda>_.
       bindM (iunlock (Some ip)) (\<lambda>_.
       link_into dv ip new)))))))))"

text \<open>A signed offset is compared with the unsigned size, which makes it unsigned.\<close>

definition isdirempty :: "devsw \<Rightarrow> nat \<Rightarrow> bool kop" where
  "isdirempty dv dp =
     bindM (ino dp) (\<lambda>d.
     bindM (for_up (i_size d) (2 * dirent_size) (\<lambda>off.
       bindM (read_dirent dv dp off ''isdirempty: readi'') (\<lambda>de.
       retM (if de_inum de \<noteq> 0 then Return () else Continue (off + dirent_size))))) (\<lambda>r.
     retM (r = None)))"

definition DOT :: "u8 list" where "DOT = [0x2E]"

definition DOTDOT :: "u8 list" where "DOTDOT = [0x2E, 0x2E]"

definition unlink_bad :: "nat \<Rightarrow> u32 kop" where
  "unlink_bad dp = bindM (iunlockput dp) (\<lambda>_. op_fails)"

text \<open>The part of \<^verbatim>\<open>sys_unlink\<close> after both inodes have been locked.\<close>

definition unlink_entry :: "devsw \<Rightarrow> nat \<Rightarrow> nat \<Rightarrow> u32 \<Rightarrow> u32 kop" where
  "unlink_entry dv dp ip off =
     bindM (ino ip) (\<lambda>x.
     bindM (assertM (\<not> sint (i_nlink x) < 1) (Panic ''unlink: nlink < 1'')) (\<lambda>_.
     bindM (if i_type x = T_DIR then isdirempty dv ip else retM True) (\<lambda>free.
     if \<not> free then bindM (iunlockput ip) (\<lambda>_. unlink_bad dp)
     else
       bindM (writei dv dp (AtLocal (replicate 16 0)) off dirent_size) (\<lambda>r.
       bindM (assertM (r = dirent_size) (Panic ''unlink: writei'')) (\<lambda>_.
       bindM (if i_type x = T_DIR
              then bindM (ino_upd dp (\<lambda>d. d\<lparr>i_nlink := i_nlink d - 1\<rparr>)) (\<lambda>_. iupdate dp)
              else retM ()) (\<lambda>_.
       bindM (iunlockput dp) (\<lambda>_.
       bindM (ino_upd ip (\<lambda>x. x\<lparr>i_nlink := i_nlink x - 1\<rparr>)) (\<lambda>_.
       bindM (iupdate ip) (\<lambda>_.
       bindM (iunlockput ip) (\<lambda>_.
       bindM end_op (\<lambda>_.
       retM 0)))))))))))"

definition sys_unlink :: "devsw \<Rightarrow> u32 kop" where
  "sys_unlink dv =
     bindM (argstr 0) (\<lambda>r.
     case r of None \<Rightarrow> retM (- 1) | Some path \<Rightarrow>
     bindM begin_op (\<lambda>_.
     bindM (nameiparent dv path name0) (\<lambda>(r, name).
     case r of None \<Rightarrow> op_fails | Some dp \<Rightarrow>
     bindM (ilock (Some dp)) (\<lambda>_.
     if namecmp name DOT = 0 \<or> namecmp name DOTDOT = 0 then unlink_bad dp
     else
       bindM (dirlookup dv dp name) (\<lambda>r.
       case r of None \<Rightarrow> unlink_bad dp | Some (ip, off) \<Rightarrow>
       bindM (ilock (Some ip)) (\<lambda>_.
       unlink_entry dv dp ip off))))))"

section \<open>Creating and opening\<close>

text \<open>A new inode below \<open>dp\<close>, which is locked; the new inode is returned locked.\<close>

definition create_new :: "devsw \<Rightarrow> nat \<Rightarrow> u8 list \<Rightarrow> u16 \<Rightarrow> u16 \<Rightarrow> u16 \<Rightarrow> nat kop" where
  "create_new dv dp name ty major minor =
     bindM (ino dp) (\<lambda>d.
     bindM (ialloc (i_dev d) ty) (\<lambda>ip.
     bindM (ilock (Some ip)) (\<lambda>_.
     bindM (ino_upd ip (\<lambda>x. x\<lparr>i_major := major, i_minor := minor, i_nlink := 1\<rparr>)) (\<lambda>_.
     bindM (iupdate ip) (\<lambda>_.
     bindM (ino ip) (\<lambda>x.
     bindM (if ty = T_DIR then
              bindM (ino_upd dp (\<lambda>d. d\<lparr>i_nlink := i_nlink d + 1\<rparr>)) (\<lambda>_.
              bindM (iupdate dp) (\<lambda>_.
              bindM (dirlink dv ip DOT (i_inum x)) (\<lambda>r.
              bindM (if sint r < 0 then retM r else dirlink dv ip DOTDOT (i_inum d)) (\<lambda>r.
              assertM (\<not> sint r < 0) (Panic ''create dots'')))))
            else retM ()) (\<lambda>_.
     bindM (dirlink dv dp name (i_inum x)) (\<lambda>r.
     bindM (assertM (\<not> sint r < 0) (Panic ''create: dirlink'')) (\<lambda>_.
     bindM (iunlockput dp) (\<lambda>_.
     retM ip))))))))))"

definition create :: "devsw \<Rightarrow> u8 list \<Rightarrow> u16 \<Rightarrow> u16 \<Rightarrow> u16 \<Rightarrow> nat option kop" where
  "create dv path ty major minor =
     bindM (nameiparent dv path name0) (\<lambda>(r, name).
     case r of
       None \<Rightarrow> retM None
     | Some dp \<Rightarrow>
         bindM (ilock (Some dp)) (\<lambda>_.
         bindM (dirlookup dv dp name) (\<lambda>r.
         case r of
           Some (ip, _) \<Rightarrow>
             bindM (iunlockput dp) (\<lambda>_.
             bindM (ilock (Some ip)) (\<lambda>_.
             bindM (ino ip) (\<lambda>x.
             if ty = T_FILE \<and> i_type x = T_FILE then retM (Some ip)
             else bindM (iunlockput ip) (\<lambda>_. retM None))))
         | None \<Rightarrow> bindM (create_new dv dp name ty major minor) (\<lambda>ip. retM (Some ip)))))"

text \<open>The inode that \<^verbatim>\<open>sys_open\<close> opens, locked; \<open>None\<close> when it gives up.\<close>

definition open_inode :: "devsw \<Rightarrow> u8 list \<Rightarrow> u32 \<Rightarrow> nat option kop" where
  "open_inode dv path omode =
     (if omode AND O_CREATE \<noteq> 0 then create dv path T_FILE 0 0
      else
        bindM (namei dv path) (\<lambda>r.
        case r of
          None \<Rightarrow> retM None
        | Some ip \<Rightarrow>
            bindM (ilock (Some ip)) (\<lambda>_.
            bindM (ino ip) (\<lambda>x.
            if i_type x = T_DIR \<and> omode \<noteq> O_RDONLY then bindM (iunlockput ip) (\<lambda>_. retM None)
            else retM (Some ip)))))"

definition open_file :: "u32 \<Rightarrow> nat \<Rightarrow> kfile \<Rightarrow> kfile" where
  "open_file omode ip x =
     x\<lparr>f_type := FD_INODE, f_ip := Some ip, f_off := 0, f_readable := (omode AND O_WRONLY = 0),
       f_writable := (omode AND O_WRONLY \<noteq> 0 \<or> omode AND O_RDWR \<noteq> 0)\<rparr>"

definition sys_open :: "image \<Rightarrow> devsw \<Rightarrow> u32 kop" where
  "sys_open im dv =
     bindM (argstr 0) (\<lambda>r.
     case r of None \<Rightarrow> retM (- 1) | Some path \<Rightarrow>
     bindM (argint 1) (\<lambda>r.
     case r of None \<Rightarrow> retM (- 1) | Some omode \<Rightarrow>
     bindM begin_op (\<lambda>_.
     bindM (open_inode dv path omode) (\<lambda>r.
     case r of None \<Rightarrow> op_fails | Some ip \<Rightarrow>
     bindM filealloc (\<lambda>f.
     bindM (case f of None \<Rightarrow> retM None | Some f \<Rightarrow> fdalloc f) (\<lambda>fd.
     case (f, fd) of
       (Some f, Some fd) \<Rightarrow>
         bindM (iunlock (Some ip)) (\<lambda>_.
         bindM end_op (\<lambda>_.
         bindM (modM (file_upd f (open_file omode ip))) (\<lambda>_.
         retM (of_nat fd))))
     | _ \<Rightarrow>
         bindM (case f of None \<Rightarrow> retM () | Some f \<Rightarrow> fileclose im f) (\<lambda>_.
         bindM (iunlockput ip) (\<lambda>_.
         op_fails))))))))"

definition made :: "nat option \<Rightarrow> u32 kop" where
  "made r =
     (case r of
        None \<Rightarrow> op_fails
      | Some ip \<Rightarrow> bindM (iunlockput ip) (\<lambda>_. bindM end_op (\<lambda>_. retM 0)))"

definition sys_mkdir :: "devsw \<Rightarrow> u32 kop" where
  "sys_mkdir dv =
     bindM begin_op (\<lambda>_.
     bindM (argstr 0) (\<lambda>r.
     bindM (case r of None \<Rightarrow> retM None | Some path \<Rightarrow> create dv path T_DIR 0 0) made))"

definition sys_mknod :: "devsw \<Rightarrow> u32 kop" where
  "sys_mknod dv =
     bindM begin_op (\<lambda>_.
     bindM (argstr 0) (\<lambda>r.
     case r of None \<Rightarrow> made None | Some path \<Rightarrow>
     bindM (argint 1) (\<lambda>r.
     case r of None \<Rightarrow> made None | Some major \<Rightarrow>
     bindM (argint 2) (\<lambda>r.
     case r of None \<Rightarrow> made None | Some minor \<Rightarrow>
     bindM (create dv path T_DEV (ucast major) (ucast minor)) made))))"

definition sys_chdir :: "devsw \<Rightarrow> u32 kop" where
  "sys_chdir dv =
     bindM (liftS myproc) (\<lambda>pp.
     bindM begin_op (\<lambda>_.
     bindM (argstr 0) (\<lambda>r.
     bindM (case r of None \<Rightarrow> retM None | Some path \<Rightarrow> namei dv path) (\<lambda>r.
     case r of None \<Rightarrow> op_fails | Some ip \<Rightarrow>
     bindM (ilock (Some ip)) (\<lambda>_.
     bindM (ino ip) (\<lambda>x.
     if i_type x \<noteq> T_DIR then bindM (iunlockput ip) (\<lambda>_. op_fails)
     else
       bindM (iunlock (Some ip)) (\<lambda>_.
       bindM (theM Wild pp) (\<lambda>p.
       bindM (proc_at p) (\<lambda>q.
       bindM (theM Wild (p_cwd q)) (\<lambda>cwd.
       bindM (iput cwd) (\<lambda>_.
       bindM end_op (\<lambda>_.
       bindM (procsM (proc_upd p (\<lambda>q. q\<lparr>p_cwd := Some ip\<rparr>))) (\<lambda>_.
       retM 0)))))))))))))"

section \<open>exec and pipe\<close>

text \<open>The loop of \<^verbatim>\<open>sys_exec\<close> over the argument vector, with room for \<open>k\<close> more entries.\<close>

fun fetch_argv :: "u32 \<Rightarrow> nat \<Rightarrow> u8 list list \<Rightarrow> u8 list list option kop" where
  "fetch_argv ua 0 argv = retM None"
| "fetch_argv ua (Suc k) argv =
     bindM (fetchint ua) (\<lambda>r.
     case r of
       None \<Rightarrow> retM None
     | Some uarg \<Rightarrow>
         if uarg = 0 then retM (Some argv)
         else
           bindM (fetchstr uarg) (\<lambda>r.
           case r of None \<Rightarrow> retM None | Some s \<Rightarrow> fetch_argv (ua + 4) k (argv @ [s])))"

definition sys_exec :: "image \<Rightarrow> devsw \<Rightarrow> u32 kop" where
  "sys_exec im dv =
     bindM (argstr 0) (\<lambda>r.
     case r of None \<Rightarrow> retM (- 1) | Some path \<Rightarrow>
     bindM (argint 1) (\<lambda>r.
     case r of None \<Rightarrow> retM (- 1) | Some uargv \<Rightarrow>
     bindM (fetch_argv uargv MAXARG []) (\<lambda>r.
     case r of None \<Rightarrow> retM (- 1) | Some argv \<Rightarrow> exec im dv path argv)))"

definition sys_pipe :: "image \<Rightarrow> u32 kop" where
  "sys_pipe im =
     bindM (argptr 0 8) (\<lambda>r.
     case r of None \<Rightarrow> retM (- 1) | Some fd \<Rightarrow>
     bindM (pipealloc im) (\<lambda>r.
     case r of None \<Rightarrow> retM (- 1) | Some (rfile, wfile) \<Rightarrow>
     bindM (fdalloc rfile) (\<lambda>fd0.
     bindM (case fd0 of None \<Rightarrow> retM None | Some _ \<Rightarrow> fdalloc wfile) (\<lambda>fd1.
     case (fd0, fd1) of
       (Some a, Some b) \<Rightarrow>
         bindM (vstore32 fd (of_nat a)) (\<lambda>_.
         bindM (vstore32 (fd + 4) (of_nat b)) (\<lambda>_.
         retM 0))
     | _ \<Rightarrow>
         bindM (case fd0 of None \<Rightarrow> retM () | Some a \<Rightarrow> bindM curp (\<lambda>p. set_ofile p a None)) (\<lambda>_.
         bindM (fileclose im rfile) (\<lambda>_.
         bindM (fileclose im wfile) (\<lambda>_.
         retM (- 1))))))))"

end
