(* ===== verification/Trap.thy ===== *)
theory Trap
  imports Sysfile
begin

text \<open>
  The system call table and \<^verbatim>\<open>syscall\<close> of \<^verbatim>\<open>syscall.c\<close>, and the trap handler of \<^verbatim>\<open>trap.c\<close>. The
  handlers of the disk, the keyboard and the serial line are parameters of \<open>trap\<close>. Messages on the
  console and the acknowledgement of an interrupt to the local APIC do not change the state.
\<close>

section \<open>System calls by number\<close>

definition syscalls :: "image \<Rightarrow> devsw \<Rightarrow> sysres kop option list" where
  "syscalls im dv =
     [None, Some (val (sys_fork im)), Some (sys_exit im), Some (val (sys_wait im)), Some (val (sys_pipe im)),
      Some (val (sys_read dv)), Some (val sys_kill), Some (val (sys_exec im dv)), Some (val sys_fstat),
      Some (val (sys_chdir dv)), Some (val sys_dup), Some (val sys_getpid), Some (val (sys_sbrk im)),
      Some (val sys_sleep), Some (val sys_uptime), Some (val (sys_open im dv)), Some (val (sys_write dv)),
      Some (val (sys_mknod dv)), Some (val (sys_unlink dv)), Some (val (sys_link dv)), Some (val (sys_mkdir dv)),
      Some (val (sys_close im)), Some (val sys_setpolicy), Some (val sys_settickets), Some (val sys_getpinfo),
      Some (val (sys_waitx im)), Some sys_yield]"

definition set_eax :: "nat \<Rightarrow> u32 \<Rightarrow> unit kop" where
  "set_eax p v = procsM (proc_upd p (\<lambda>q. q\<lparr>p_tf := map_option (\<lambda>tf. tf\<lparr>tf_eax := v\<rparr>) (p_tf q)\<rparr>))"

text \<open>The entry that \<^verbatim>\<open>syscall\<close> calls for a number, if there is one.\<close>

definition syscall_entry :: "image \<Rightarrow> devsw \<Rightarrow> u32 \<Rightarrow> sysres kop option" where
  "syscall_entry im dv num =
     (if 0 < sint num \<and> sint num < int (length (syscalls im dv)) then syscalls im dv ! unat num else None)"

text \<open>The result is what the process does next: go on (\<open>Value\<close>), or leave the CPU.\<close>

definition syscall :: "image \<Rightarrow> devsw \<Rightarrow> sysres kop" where
  "syscall im dv =
     bindM (liftS myproc) (\<lambda>pp.
     case pp of
       None \<Rightarrow> retM (Value 0)
     | Some p \<Rightarrow>
         bindM (proc_at p) (\<lambda>q.
         case p_tf q of
           None \<Rightarrow> retM (Value 0)
         | Some tf \<Rightarrow>
             (case syscall_entry im dv (tf_eax tf) of
                Some call \<Rightarrow>
                  bindM call (\<lambda>r.
                  case r of
                    Value v \<Rightarrow> bindM (set_eax p v) (\<lambda>_. retM r)
                  | _ \<Rightarrow> retM r)
              | None \<Rightarrow> bindM (set_eax p (- 1)) (\<lambda>_. retM (Value (- 1))))))"

text \<open>When a process that yielded in \<^verbatim>\<open>sys_yield\<close> runs again, the call returns 0.\<close>

definition syscall_resume :: "nat \<Rightarrow> bool \<Rightarrow> unit kop" where
  "syscall_resume p intena = bindM (yield_return intena) (\<lambda>_. set_eax p 0)"

section \<open>The interrupt descriptor table\<close>

definition T_SYSCALL :: u32 where "T_SYSCALL = 64"

definition T_IRQ0 :: u32 where "T_IRQ0 = 32"

definition IRQ_TIMER :: u32 where "IRQ_TIMER = 0"

definition IRQ_KBD :: u32 where "IRQ_KBD = 1"

definition IRQ_COM1 :: u32 where "IRQ_COM1 = 4"

definition IRQ_IDE :: u32 where "IRQ_IDE = 14"

definition IRQ_SPURIOUS :: u32 where "IRQ_SPURIOUS = 31"

text \<open>The table that \<^verbatim>\<open>tvinit\<close> fills, from the entry points in \<^verbatim>\<open>vectors.S\<close>.\<close>

definition idt_gates :: "(nat \<Rightarrow> u32) \<Rightarrow> gatedesc list" where
  "idt_gates vectors =
     (map (\<lambda>i. SETGATE False (of_nat (SEG_KCODE * 8)) (vectors i) 0) [0..<256])
       [unat T_SYSCALL := SETGATE True (of_nat (SEG_KCODE * 8)) (vectors (unat T_SYSCALL)) (ucast DPL_USER)]"

definition tvinit :: "unit kop" where
  "tvinit = liftS (initlock LkTicks ''time'')"

section \<open>The trap handler\<close>

record irqs =
  irq_ide :: "unit kop"
  irq_kbd :: "unit kop"
  irq_uart :: "unit kop"

text \<open>How a trap ends: it returns to the interrupted code, or the process has left the CPU.\<close>

datatype trapres = TReturn | TExit bool | TYield bool | TSyscall bool

definition from_user :: "trapframe \<Rightarrow> bool" where
  "from_user tf \<longleftrightarrow> tf_cs tf AND 3 = ucast DPL_USER"

definition is_killed :: "nat option \<Rightarrow> bool kop" where
  "is_killed pp = (case pp of None \<Rightarrow> retM False | Some p \<Rightarrow> bindM (proc_at p) (\<lambda>q. retM (p_killed q)))"

definition timer_tick :: "unit kop" where
  "timer_tick =
     bindM (with_lock LkTicks (
       bindM (modM (\<lambda>s. s\<lparr>k_ptab := (k_ptab s)\<lparr>pt_ticks := pt_ticks (k_ptab s) + 1\<rparr>\<rparr>)) (\<lambda>_.
       wakeup ChTicks))) (\<lambda>_.
     with_lock LkPtable (procsM tick_account))"

definition timer_intr :: "unit kop" where
  "timer_intr = bindM (liftS cpuid) (\<lambda>c. if c = 0 then timer_tick else retM ())"

text \<open>The \<^verbatim>\<open>switch\<close> on the trap number.\<close>

definition trap_dispatch :: "irqs \<Rightarrow> nat option \<Rightarrow> trapframe \<Rightarrow> unit kop" where
  "trap_dispatch h pp tf =
     (let n = tf_trapno tf in
      if n = T_IRQ0 + IRQ_TIMER then timer_intr
      else if n = T_IRQ0 + IRQ_IDE then irq_ide h
      else if n = T_IRQ0 + IRQ_IDE + 1 then retM ()
      else if n = T_IRQ0 + IRQ_KBD then irq_kbd h
      else if n = T_IRQ0 + IRQ_COM1 then irq_uart h
      else if n = T_IRQ0 + 7 \<or> n = T_IRQ0 + IRQ_SPURIOUS then retM ()
      else
        case pp of
          None \<Rightarrow> failM (Panic ''trap'')
        | Some p \<Rightarrow>
            if tf_cs tf AND 3 = 0 then failM (Panic ''trap'')
            else procsM (proc_upd p (\<lambda>q. q\<lparr>p_killed := True\<rparr>)))"

definition exit_if :: "image \<Rightarrow> bool \<Rightarrow> trapres kop \<Rightarrow> trapres kop" where
  "exit_if im b m = (if b then bindM (exit_leave im) (\<lambda>e. retM (TExit e)) else m)"

definition trap_syscall :: "image \<Rightarrow> devsw \<Rightarrow> nat option \<Rightarrow> trapframe \<Rightarrow> trapres kop" where
  "trap_syscall im dv pp tf =
     bindM (is_killed pp) (\<lambda>k.
     exit_if im k (
       bindM (case pp of None \<Rightarrow> retM () | Some p \<Rightarrow> procsM (proc_upd p (\<lambda>q. q\<lparr>p_tf := Some tf\<rparr>))) (\<lambda>_.
       bindM (syscall im dv) (\<lambda>r.
       case r of
         Exits e \<Rightarrow> retM (TExit e)
       | Yields e \<Rightarrow> retM (TSyscall e)
       | Value _ \<Rightarrow>
           bindM (is_killed pp) (\<lambda>k.
           exit_if im k (retM TReturn))))))"

text \<open>Whether a timer interrupt takes the CPU from the process: not under policy 1.\<close>

definition preempts :: "nat option \<Rightarrow> trapframe \<Rightarrow> bool kop" where
  "preempts pp tf =
     (case pp of
        None \<Rightarrow> retM False
      | Some p \<Rightarrow>
          getM (\<lambda>s. p_state (kprocs s ! p) = RUNNING \<and> tf_trapno tf = T_IRQ0 + IRQ_TIMER \<and> pt_policy (k_ptab s) \<noteq> 1))"

text \<open>The end of \<^verbatim>\<open>trap\<close>, reached at once or when a process that yielded runs again.\<close>

definition trap_end :: "image \<Rightarrow> nat option \<Rightarrow> trapframe \<Rightarrow> trapres kop" where
  "trap_end im pp tf =
     bindM (is_killed pp) (\<lambda>k.
     exit_if im (k \<and> from_user tf) (retM TReturn))"

definition trap_tail :: "image \<Rightarrow> nat option \<Rightarrow> trapframe \<Rightarrow> trapres kop" where
  "trap_tail im pp tf =
     bindM (is_killed pp) (\<lambda>k.
     exit_if im (k \<and> from_user tf) (
       bindM (preempts pp tf) (\<lambda>y.
       if y then bindM yield_leave (\<lambda>e. retM (TYield e))
       else trap_end im pp tf)))"

definition trap :: "image \<Rightarrow> devsw \<Rightarrow> irqs \<Rightarrow> trapframe \<Rightarrow> trapres kop" where
  "trap im dv h tf =
     bindM (liftS myproc) (\<lambda>pp.
     if tf_trapno tf = T_SYSCALL then trap_syscall im dv pp tf
     else
       bindM (trap_dispatch h pp tf) (\<lambda>_.
       trap_tail im pp tf))"

definition trap_resume :: "image \<Rightarrow> nat option \<Rightarrow> trapframe \<Rightarrow> bool \<Rightarrow> trapres kop" where
  "trap_resume im pp tf intena = bindM (yield_return intena) (\<lambda>_. trap_end im pp tf)"

definition trap_syscall_resume :: "image \<Rightarrow> nat \<Rightarrow> bool \<Rightarrow> trapres kop" where
  "trap_syscall_resume im p intena =
     bindM (syscall_resume p intena) (\<lambda>_.
     bindM (is_killed (Some p)) (\<lambda>k.
     exit_if im k (retM TReturn)))"

end
