(* ===== verification/Cache.thy ===== *)
theory Cache
  imports Log
begin

text \<open>
  The buffer cache implements a list of buffers in order of use. \<open>ring bc xs\<close> says that the
  \<^verbatim>\<open>next\<close> and \<^verbatim>\<open>prev\<close> links form the circular list \<open>xs\<close> in both directions; \<open>cache_ok\<close> is the
  invariant of the cache for a process that holds some of the buffers.
\<close>

section \<open>Chains of links\<close>

fun linked :: "(nat \<Rightarrow> nat) \<Rightarrow> nat \<Rightarrow> nat list \<Rightarrow> nat \<Rightarrow> bool" where
  "linked f a [] z \<longleftrightarrow> f a = z"
| "linked f a (x # xs) z \<longleftrightarrow> f a = x \<and> linked f x xs z"

lemma linked_append: "linked f a (xs @ y # ys) z \<longleftrightarrow> linked f a xs y \<and> linked f y ys z"
  by (induction xs arbitrary: a) auto

lemma linked_cong: "(\<And>x. x \<in> set (a # xs) \<Longrightarrow> f x = g x) \<Longrightarrow> linked f a xs z = linked g a xs z"
  by (induction xs arbitrary: a) auto

lemma linked_start: "linked f a xs z \<Longrightarrow> g b = f a \<Longrightarrow> (\<And>x. x \<in> set xs \<Longrightarrow> g x = f x) \<Longrightarrow> linked g b xs z"
proof (cases xs)
  case (Cons x ys)
  assume "linked f a xs z" and "g b = f a" and eq: "\<And>x. x \<in> set xs \<Longrightarrow> g x = f x"
  moreover have "linked g x ys z = linked f x ys z" using eq Cons by (intro linked_cong) auto
  ultimately show ?thesis using Cons by simp
qed simp

lemma linked_first: "linked f a xs z \<Longrightarrow> f a = hd (xs @ [z])"
  by (cases xs) auto

lemma linked_redirect:
  "linked f a xs z \<Longrightarrow> distinct (a # xs) \<Longrightarrow> linked (f(last (a # xs) := z')) a xs z'"
proof (induction xs arbitrary: a)
  case Nil
  then show ?case by simp
next
  case (Cons x xs)
  obtain l where l: "last (x # xs) = l" "last (a # x # xs) = l" by simp
  from Cons have "linked (f(last (x # xs) := z')) x xs z'" by (intro Cons.IH) auto
  moreover have "a \<noteq> last (x # xs)" using Cons.prems(2) last_in_set [of "x # xs"] by auto
  ultimately show ?case using Cons.prems(1) unfolding l by (simp add: fun_upd_def)
qed

lemma linked_unlink:
  assumes c: "linked f h (as @ i # bs) h" and d: "distinct (h # as @ i # bs)"
  shows "linked (f(last (h # as) := hd (bs @ [h]))) h (as @ bs) h"
proof -
  from c have "linked f h as i" and b: "linked f i bs h" by (simp_all add: linked_append)
  then have a: "linked (f(last (h # as) := z)) h as z" for z using d by (intro linked_redirect) auto
  show ?thesis
  proof (cases bs)
    case Nil
    with a show ?thesis by simp
  next
    case (Cons x ys)
    have "last (h # as) \<in> set (h # as)" by (rule last_in_set) simp
    then have "last (h # as) \<notin> set bs" using d by auto
    then have "linked (f(last (h # as) := x)) x ys h"
      using b Cons by (subst linked_cong [of _ _ _ f]) auto
    with a [of x] Cons show ?thesis by (simp add: linked_append)
  qed
qed

section \<open>The list of buffers\<close>

text \<open>A list of some of the buffers, linked in both directions, and the list of all of them.\<close>

definition linked_list :: "bcache \<Rightarrow> nat list \<Rightarrow> bool" where
  "linked_list bc xs \<longleftrightarrow>
     length (bc_buf bc) = NBUF \<and> distinct xs \<and> set xs \<subseteq> {0..<NBUF} \<and>
     linked (lnk_next bc) NBUF xs NBUF \<and> linked (lnk_prev bc) NBUF (rev xs) NBUF"

definition ring :: "bcache \<Rightarrow> nat list \<Rightarrow> bool" where
  "ring bc xs \<longleftrightarrow> linked_list bc xs \<and> set xs = {0..<NBUF}"

lemma ringD:
  assumes "ring bc xs"
  shows "length (bc_buf bc) = NBUF" "distinct xs" "set xs = {0..<NBUF}"
    "linked (lnk_next bc) NBUF xs NBUF" "linked (lnk_prev bc) NBUF (rev xs) NBUF"
  using assms by (auto simp: ring_def linked_list_def)

lemma nth_upd: "xs[i := y] ! j = (if i = j \<and> i < length xs then y else xs ! j)"
  by (cases "i < length xs") (auto simp: list_update_beyond)

lemma lnk_set [simp]:
  "lnk_prev (set_next i n bc) = lnk_prev bc" "lnk_next (set_prev i n bc) = lnk_next bc"
  by (auto simp: fun_eq_iff lnk_prev_def lnk_next_def set_next_def set_prev_def nth_upd)

lemma lnk_set_same:
  "i \<le> length (bc_buf bc) \<Longrightarrow> length (bc_buf bc) = NBUF \<Longrightarrow> lnk_next (set_next i n bc) = (lnk_next bc)(i := n)"
  "i \<le> length (bc_buf bc) \<Longrightarrow> length (bc_buf bc) = NBUF \<Longrightarrow> lnk_prev (set_prev i n bc) = (lnk_prev bc)(i := n)"
  by (auto simp: fun_eq_iff lnk_prev_def lnk_next_def set_next_def set_prev_def nth_upd)

lemma length_set_lnk [simp]:
  "length (bc_buf (set_next i n bc)) = length (bc_buf bc)" "length (bc_buf (set_prev i n bc)) = length (bc_buf bc)"
  by (simp_all add: set_next_def set_prev_def)

lemma hd_back: "hd (bs @ [h]) = last (h # rev bs)"
  by (cases bs) simp_all

lemma back_in: "last (h # bs) \<in> set (h # bs)"
  by (rule last_in_set) simp

lemma linked_list_unlink:
  assumes r: "linked_list bc (as @ i # bs)"
  shows "linked_list (unlink_buf i bc) (as @ bs)"
proof -
  let ?N = "lnk_next bc" and ?P = "lnk_prev bc"
  from r have d: "distinct (NBUF # as @ i # bs)" and len: "length (bc_buf bc) = NBUF" and iN: "i < NBUF"
    and sub: "set as \<subseteq> {0..<NBUF}" "set bs \<subseteq> {0..<NBUF}"
    and n: "linked ?N NBUF (as @ i # bs) NBUF" and p: "linked ?P NBUF (rev bs @ i # rev as) NBUF"
    by (auto simp: linked_list_def)
  have "?N i = hd (bs @ [NBUF])" "?P i = hd (rev as @ [NBUF])"
    using n p by (auto simp: linked_append intro: linked_first)
  then have Ni: "?N i = last (NBUF # rev bs)" and Pi: "?P i = last (NBUF # as)"
    using hd_back [of bs NBUF] hd_back [of "rev as" NBUF] by simp_all
  have le: "?N i \<le> NBUF" "?P i \<le> NBUF" "?N i \<noteq> i"
    using back_in [of NBUF "rev bs"] back_in [of NBUF as] sub d iN unfolding Ni Pi by auto
  define b1 where "b1 = unlink_buf i bc"
  have N1: "lnk_next b1 = ?N(?P i := ?N i)" and P1: "lnk_prev b1 = ?P(?N i := ?P i)"
    using le by (simp_all add: b1_def unlink_buf_def Let_def lnk_set_same len)
  have "linked (lnk_next b1) NBUF (as @ bs) NBUF"
    using linked_unlink [OF n d] by (simp only: N1 Ni Pi hd_back)
  moreover have "distinct (NBUF # rev bs @ i # rev as)" using d by auto
  then have "linked (lnk_prev b1) NBUF (rev (as @ bs)) NBUF"
    using linked_unlink [OF p] by (simp only: P1 Ni Pi hd_back rev_append rev_rev_ident)
  moreover have "length (bc_buf b1) = NBUF" by (simp add: b1_def unlink_buf_def Let_def len)
  ultimately show ?thesis using r by (simp add: linked_list_def b1_def)
qed

lemma linked_list_push:
  assumes r: "linked_list bc xs" and i: "i < NBUF" "i \<notin> set xs"
  shows "linked_list (push_front i bc) (i # xs)"
proof -
  from r have d: "distinct (NBUF # xs)" and len: "length (bc_buf bc) = NBUF" and sub: "set xs \<subseteq> {0..<NBUF}"
    and n: "linked (lnk_next bc) NBUF xs NBUF" and p: "linked (lnk_prev bc) NBUF (rev xs) NBUF"
    by (auto simp: linked_list_def)
  define w where "w = lnk_next bc NBUF"
  have w: "w = last (NBUF # rev xs)" using linked_first [OF n] by (simp only: w_def hd_back)
  have wb: "w \<le> NBUF" "w \<noteq> i" using back_in [of NBUF "rev xs"] sub i unfolding w by auto
  define b2 where "b2 = push_front i bc"
  have N2: "lnk_next b2 = (lnk_next bc)(i := w, NBUF := i)" and P2: "lnk_prev b2 = (lnk_prev bc)(i := NBUF, w := i)"
    using wb i len by (simp_all add: b2_def push_front_def Let_def lnk_set_same w_def)
  have e1: "linked (lnk_next b2) NBUF (i # xs) NBUF"
    using n d i by (auto simp: N2 w_def intro!: linked_start [of "lnk_next bc" NBUF])
  have "distinct (NBUF # rev xs)" using d by auto
  from linked_redirect [OF p this, of i] have "linked ((lnk_prev bc)(w := i)) NBUF (rev xs) i" by (simp only: w)
  then have "linked (lnk_prev b2) NBUF (rev xs) i"
    using i by (subst linked_cong [of _ _ _ "(lnk_prev bc)(w := i)"]) (auto simp: P2)
  moreover have "lnk_prev b2 i = NBUF" using wb by (simp add: P2)
  ultimately have "linked (lnk_prev b2) NBUF (rev (i # xs)) NBUF"
    using linked_append [of "lnk_prev b2" NBUF "rev xs" i "[]" NBUF] by simp
  moreover have "length (bc_buf b2) = NBUF" by (simp add: b2_def push_front_def Let_def len)
  ultimately show ?thesis using e1 d i sub by (simp add: linked_list_def b2_def)
qed

lemma ring_move:
  assumes r: "ring bc xs" and i: "i \<in> set xs"
  shows "ring (push_front i (unlink_buf i bc)) (i # remove1 i xs)"
proof -
  from i obtain as bs where xs: "xs = as @ i # bs" and "i \<notin> set as" by (auto dest: split_list_first)
  then have rm: "remove1 i xs = as @ bs" by (simp add: remove1_append)
  have l: "linked_list bc (as @ i # bs)" and iN: "i < NBUF" and ni: "i \<notin> set (as @ bs)"
    using r ringD(2,3) [OF r] by (auto simp: ring_def xs)
  from linked_list_push [OF linked_list_unlink [OF l] iN ni] ringD(3) [OF r] show ?thesis
    unfolding rm by (auto simp: ring_def xs)
qed

lemma bscan_linked:
  assumes "linked (step bc) a xs NBUF" and "NBUF \<notin> set xs" and "length xs < n"
  shows "bscan step P bc n (step bc a) = Some (find (\<lambda>i. P (bc_buf bc ! i)) xs)"
  using assms
proof (induction xs arbitrary: a n)
  case Nil
  then show ?case by (cases n) auto
next
  case (Cons x xs)
  then obtain m where n: "n = Suc m" by (cases n) auto
  from Cons.prems have x: "step bc a = x" "x \<noteq> NBUF" and c: "linked (step bc) x xs NBUF" by auto
  from Cons.IH [OF c] Cons.prems n have "bscan step P bc m (step bc x) = Some (find (\<lambda>i. P (bc_buf bc ! i)) xs)"
    by simp
  with x n show ?case by simp
qed

lemma length_ring: "ring bc xs \<Longrightarrow> length xs = NBUF"
  using ringD(2,3) [of bc xs] distinct_card [of xs] by simp

lemma bget_find_ring:
  "ring bc xs \<Longrightarrow> bget_find dev b bc = Some (find (\<lambda>i. b_dev (bc_buf bc ! i) = dev \<and> b_blockno (bc_buf bc ! i) = b) xs)"
  unfolding bget_find_def using ringD [of bc xs] length_ring [of bc xs] by (intro bscan_linked) simp_all

lemma bget_victim_ring:
  "ring bc xs \<Longrightarrow> bget_victim bc = Some (find (\<lambda>i. b_refcnt (bc_buf bc ! i) = 0) (rev xs))"
  unfolding bget_victim_def using ringD [of bc xs] length_ring [of bc xs] by (intro bscan_linked) simp_all

section \<open>The operations on one buffer\<close>

lemma buf_upd_fields [simp]:
  "k_sync (buf_upd i f s) = k_sync s" "k_ptab (buf_upd i f s) = k_ptab s" "k_disk (buf_upd i f s) = k_disk s"
  "k_writes (buf_upd i f s) = k_writes s" "k_log (buf_upd i f s) = k_log s" "k_mem (buf_upd i f s) = k_mem s"
  "k_icache (buf_upd i f s) = k_icache s"
  by (simp_all add: buf_upd_def)

lemma bufs_buf_upd [simp]: "bufs (buf_upd i f s) = (bufs s)[i := f (bufs s ! i)]"
  by (simp add: buf_upd_def)

lemma buf_upd_upd: "i < length (bufs s) \<Longrightarrow> buf_upd i g (buf_upd i f s) = buf_upd i (\<lambda>b. g (f b)) s"
  by (simp add: buf_upd_def)

lemma sl_upd_buf: "sl_upd (SlBuf i) f s = buf_upd i (\<lambda>b. b\<lparr>b_lock := f (b_lock b)\<rparr>) s"
  by (simp add: sl_upd_def buf_upd_def)

lemma sync_indep_buf_upd [sync_indep_intros]: "sync_indep (modM (buf_upd i f))"
  by (rule sync_indep_modM) (simp add: buf_upd_def)

lemma at_rest_buf_upd [simp]: "at_rest (buf_upd i f s) c = at_rest s c"
  by (simp add: at_rest_def)

lemma ring_buf_upd:
  assumes "\<And>b. b_next (f b) = b_next b" and "\<And>b. b_prev (f b) = b_prev b"
  shows "ring (k_bcache (buf_upd i f s)) xs \<longleftrightarrow> ring (k_bcache s) xs"
proof -
  have "lnk_next (k_bcache (buf_upd i f s)) = lnk_next (k_bcache s)"
    and "lnk_prev (k_bcache (buf_upd i f s)) = lnk_prev (k_bcache s)"
    using assms by (auto simp: fun_eq_iff lnk_next_def lnk_prev_def buf_upd_def nth_upd)
  then show ?thesis by (simp add: ring_def linked_list_def buf_upd_def)
qed

lemma neutral_bget_slot: "lock_neutral {} (bget_slot dev b)"
  unfolding bget_slot_def by (intro neutral_intros sync_indep_intros) simp_all

lemma bget_slot_hit:
  assumes "ring (k_bcache s) xs" and "find (\<lambda>i. b_dev (bufs s ! i) = dev \<and> b_blockno (bufs s ! i) = b) xs = Some i"
  shows "bget_slot dev b s = Inr (i, buf_upd i (\<lambda>b. b\<lparr>b_refcnt := b_refcnt b + 1\<rparr>) s)"
  using bget_find_ring [OF assms(1), of dev b] assms(2) by (simp add: bget_slot_def op_defs)

lemma bget_slot_miss:
  assumes "ring (k_bcache s) xs" and "find (\<lambda>i. b_dev (bufs s ! i) = dev \<and> b_blockno (bufs s ! i) = b) xs = None"
    and "find (\<lambda>i. b_refcnt (bufs s ! i) = 0) (rev xs) = Some i"
  shows "bget_slot dev b s =
    Inr (i, buf_upd i (\<lambda>x. x\<lparr>b_dev := dev, b_blockno := b, b_flags := 0, b_refcnt := 1\<rparr>) s)"
  using bget_find_ring [OF assms(1), of dev b] bget_victim_ring [OF assms(1)] assms(2,3)
  by (simp add: bget_slot_def op_defs)

lemma iderw_read:
  assumes r: "at_rest s c" and i: "i < length (bufs s)"
    and l: "sl_locked (b_lock (bufs s ! i)) \<noteq> 0" "sl_pid (b_lock (bufs s ! i)) = pid_of s c"
    and "b_flags (bufs s ! i) = 0" "b_dev (bufs s ! i) = 1" "unat (b_blockno (bufs s ! i)) < length (k_disk s)"
  shows "iderw i s = Inr ((), buf_upd i (\<lambda>b. b\<lparr>b_data := k_disk s ! unat (b_blockno b), b_flags := B_VALID\<rparr>) s)"
  using assms holdingsleep_run [OF r, of "SlBuf i"]
  by (simp add: iderw_def op_defs buf_upd_upd B_VALID_def B_DIRTY_def) (simp add: buf_upd_def)

lemma iderw_write:
  assumes r: "at_rest s c" and i: "i < length (bufs s)"
    and l: "sl_locked (b_lock (bufs s ! i)) \<noteq> 0" "sl_pid (b_lock (bufs s ! i)) = pid_of s c"
    and "b_flags (bufs s ! i) = B_VALID OR B_DIRTY" "b_dev (bufs s ! i) = 1"
      "unat (b_blockno (bufs s ! i)) < length (k_disk s)"
  shows "iderw i s = Inr ((), (buf_upd i (\<lambda>b. b\<lparr>b_flags := B_VALID\<rparr>) s)
    \<lparr>k_disk := (k_disk s)[unat (b_blockno (bufs s ! i)) := b_data (bufs s ! i)],
     k_writes := k_writes s @ [(unat (b_blockno (bufs s ! i)), b_data (bufs s ! i))]\<rparr>)"
  using assms holdingsleep_run [OF r, of "SlBuf i"]
  by (simp add: iderw_def op_defs B_VALID_def B_DIRTY_def) (simp add: buf_upd_def)

section \<open>The invariant\<close>

text \<open>
  A buffer is empty, or holds a block of disk 1, clean or dirty. The buffers in \<open>H\<close> are held by
  process \<open>c\<close>; the others are free, and the clean ones agree with the disk. A block has at most one
  buffer.
\<close>

definition buf_shape :: "nat \<Rightarrow> buf \<Rightarrow> bool" where
  "buf_shape n b \<longleftrightarrow>
     b_flags b \<in> {0, B_VALID, B_VALID OR B_DIRTY} \<and> length (b_data b) = BSIZE \<and>
     (b_flags b \<noteq> 0 \<longrightarrow> b_dev b = 1 \<and> unat (b_blockno b) < n)"

definition buf_idle :: "u8 list list \<Rightarrow> buf \<Rightarrow> bool" where
  "buf_idle disk b \<longleftrightarrow>
     b_refcnt b = 0 \<and> sl_locked (b_lock b) = 0 \<and> (b_flags b = B_VALID \<longrightarrow> b_data b = disk ! unat (b_blockno b))"

definition buf_held :: "u32 \<Rightarrow> buf \<Rightarrow> bool" where
  "buf_held pid b \<longleftrightarrow> b_refcnt b = 1 \<and> sl_locked (b_lock b) = 1 \<and> sl_pid (b_lock b) = pid \<and> b_flags b \<noteq> 0"

definition one_each :: "buf list \<Rightarrow> bool" where
  "one_each bs \<longleftrightarrow>
     (\<forall>i < length bs. \<forall>j < length bs. b_dev (bs ! i) = 1 \<and> b_dev (bs ! j) = 1 \<and>
        b_blockno (bs ! i) = b_blockno (bs ! j) \<longrightarrow> i = j)"

definition cache_ok :: "kernel \<Rightarrow> nat \<Rightarrow> nat list \<Rightarrow> nat set \<Rightarrow> bool" where
  "cache_ok s c xs H \<longleftrightarrow>
     at_rest s c \<and> c < length (kprocs s) \<and> ring (k_bcache s) xs \<and> H \<subseteq> {0..<NBUF} \<and>
     (\<forall>d \<in> set (k_disk s). length d = BSIZE) \<and>
     (\<forall>i < NBUF. buf_shape (length (k_disk s)) (bufs s ! i)) \<and>
     (\<forall>i < NBUF. i \<notin> H \<longrightarrow> buf_idle (k_disk s) (bufs s ! i)) \<and>
     (\<forall>i \<in> H. buf_held (pid_of s c) (bufs s ! i)) \<and>
     one_each (bufs s)"

lemma cache_okD:
  assumes "cache_ok s c xs H"
  shows "at_rest s c" and "c < length (kprocs s)" and "ring (k_bcache s) xs" and "H \<subseteq> {0..<NBUF}"
    and "\<And>d. d \<in> set (k_disk s) \<Longrightarrow> length d = BSIZE"
    and "\<And>i. i < NBUF \<Longrightarrow> buf_shape (length (k_disk s)) (bufs s ! i)"
    and "\<And>i. i < NBUF \<Longrightarrow> i \<notin> H \<Longrightarrow> buf_idle (k_disk s) (bufs s ! i)"
    and "\<And>i. i \<in> H \<Longrightarrow> buf_held (pid_of s c) (bufs s ! i)"
    and "one_each (bufs s)" and "length (bufs s) = NBUF"
  using assms ringD(1) by (auto simp: cache_ok_def)

text \<open>The contents of a block as the kernel sees it: the cached copy if there is one.\<close>

definition holds_block :: "kernel \<Rightarrow> u32 \<Rightarrow> nat \<Rightarrow> bool" where
  "holds_block s b i \<longleftrightarrow> b_dev (bufs s ! i) = 1 \<and> b_blockno (bufs s ! i) = b \<and> b_flags (bufs s ! i) \<noteq> 0"

definition view :: "kernel \<Rightarrow> u32 \<Rightarrow> u8 list" where
  "view s b =
     (case find (holds_block s b) [0..<NBUF] of
        Some i \<Rightarrow> b_data (bufs s ! i) | None \<Rightarrow> k_disk s ! unat b)"

lemma one_eachD:
  "one_each bs \<Longrightarrow> i < length bs \<Longrightarrow> j < length bs \<Longrightarrow> b_dev (bs ! i) = 1 \<Longrightarrow> b_dev (bs ! j) = 1 \<Longrightarrow>
     b_blockno (bs ! i) = b_blockno (bs ! j) \<Longrightarrow> i = j"
  by (simp add: one_each_def)

lemma view_cached:
  assumes "cache_ok s c xs H" and "i < NBUF" and "holds_block s b i"
  shows "view s b = b_data (bufs s ! i)"
proof -
  obtain j where j: "find (holds_block s b) [0..<NBUF] = Some j" "j < NBUF" "holds_block s b j"
    using assms(2,3) by (cases "find (holds_block s b) [0..<NBUF]") (auto simp: find_None_iff find_Some_iff)
  have "j = i"
    using one_eachD [OF cache_okD(9) [OF assms(1)], of j i] cache_okD(10) [OF assms(1)] assms(2,3) j(2,3)
    by (simp add: holds_block_def)
  with j(1) show ?thesis by (simp add: view_def)
qed

lemma view_uncached: "(\<And>i. i < NBUF \<Longrightarrow> \<not> holds_block s b i) \<Longrightarrow> view s b = k_disk s ! unat b"
proof -
  assume "\<And>i. i < NBUF \<Longrightarrow> \<not> holds_block s b i"
  then have "find (holds_block s b) [0..<NBUF] = None" by (auto simp: find_None_iff)
  then show ?thesis by (simp add: view_def)
qed

text \<open>Changes that leave everything but the cache and the states of processes alone.\<close>

definition cache_step :: "kernel \<Rightarrow> kernel \<Rightarrow> bool" where
  "cache_step s t \<longleftrightarrow>
     (\<exists>bc pt. t = s\<lparr>k_bcache := bc, k_ptab := pt\<rparr> \<and> map p_pid (pt_procs pt) = map p_pid (kprocs s))"

lemma cache_step_refl [simp]: "cache_step s s"
  unfolding cache_step_def by (rule exI [of _ "k_bcache s"], rule exI [of _ "k_ptab s"]) simp

lemma cache_stepI:
  "t = s\<lparr>k_bcache := bc, k_ptab := pt\<rparr> \<Longrightarrow> map p_pid (pt_procs pt) = map p_pid (kprocs s) \<Longrightarrow> cache_step s t"
  unfolding cache_step_def by blast

lemma cache_step_trans: "cache_step s t \<Longrightarrow> cache_step t u \<Longrightarrow> cache_step s u"
proof -
  assume "cache_step s t" and "cache_step t u"
  then obtain bc pt bc' pt' where "t = s\<lparr>k_bcache := bc, k_ptab := pt\<rparr>" "u = t\<lparr>k_bcache := bc', k_ptab := pt'\<rparr>"
    "map p_pid (pt_procs pt) = map p_pid (kprocs s)" "map p_pid (pt_procs pt') = map p_pid (kprocs t)"
    by (auto simp: cache_step_def)
  then show "cache_step s u" by (intro cache_stepI [where bc = bc' and pt = pt']) simp_all
qed

lemma cache_step_buf_upd: "cache_step s (buf_upd i f s)"
  unfolding cache_step_def
  by (rule exI [of _ "k_bcache (buf_upd i f s)"], rule exI [of _ "k_ptab s"]) (simp add: buf_upd_def)

lemma cache_stepD:
  assumes "cache_step s t"
  shows "k_sync t = k_sync s" "k_disk t = k_disk s" "k_writes t = k_writes s" "k_log t = k_log s"
    "k_mem t = k_mem s" "k_icache t = k_icache s" "k_sb t = k_sb s" "length (kprocs t) = length (kprocs s)"
    "c < length (kprocs s) \<Longrightarrow> pid_of t c = pid_of s c"
proof -
  from assms obtain bc pt where t: "t = s\<lparr>k_bcache := bc, k_ptab := pt\<rparr>"
    and m: "map p_pid (pt_procs pt) = map p_pid (kprocs s)" by (auto simp: cache_step_def)
  show "k_sync t = k_sync s" "k_disk t = k_disk s" "k_writes t = k_writes s" "k_log t = k_log s"
    "k_mem t = k_mem s" "k_icache t = k_icache s" "k_sb t = k_sb s" by (simp_all add: t)
  from m show l: "length (kprocs t) = length (kprocs s)" by (simp add: t) (metis length_map)
  assume "c < length (kprocs s)"
  with l m show "pid_of t c = pid_of s c" by (simp add: t) (metis nth_map)
qed

section \<open>Reading a block\<close>

lemma cache_ok_take:
  assumes ok: "cache_ok s c xs H" and i: "i < NBUF"
    and f: "\<And>b. b_next (f b) = b_next b" "\<And>b. b_prev (f b) = b_prev b"
    and "buf_shape (length (k_disk s)) (f (bufs s ! i))" and "buf_held (pid_of s c) (f (bufs s ! i))"
    and u: "\<And>j. j < NBUF \<Longrightarrow> j \<noteq> i \<Longrightarrow> b_dev (bufs s ! j) = 1 \<Longrightarrow> b_blockno (bufs s ! j) \<noteq> b_blockno (f (bufs s ! i))"
  shows "cache_ok (buf_upd i f s) c xs (insert i H)"
proof -
  have "one_each (bufs (buf_upd i f s))"
    using cache_okD(9,10) [OF ok] i u by (fastforce simp: one_each_def nth_upd)
  then show ?thesis
    using assms cache_okD(10) [OF ok] ring_buf_upd [of f i s xs] by (auto simp: cache_ok_def nth_upd)
qed

lemma find_Some_rev_in: "find P xs = Some i \<Longrightarrow> P i \<and> i \<in> set xs"
  by (auto simp: find_Some_iff)

definition taken :: "u32 \<Rightarrow> buf \<Rightarrow> buf" where
  "taken pid x = x\<lparr>b_lock := (b_lock x)\<lparr>sl_locked := 1, sl_pid := pid\<rparr>\<rparr>"

lemma bget_run:
  assumes ok: "cache_ok s c xs H" and i: "i < NBUF" "i \<notin> H"
    and slot: "bget_slot 1 b s = Inr (i, buf_upd i f s)"
    and f: "\<And>x. b_lock (f x) = b_lock x"
  shows "bget 1 b s = Inr (i, buf_upd i (\<lambda>x. taken (pid_of s c) (f x)) s)"
proof -
  let ?t = "buf_upd i f s"
  have len: "length (bufs s) = NBUF" using cache_okD(10) [OF ok] .
  have rest: "at_rest s c" using cache_okD(1) [OF ok] .
  have free: "sl_locked (sl_get (SlBuf i) ?t) = 0"
    using cache_okD(7) [OF ok i] i f by (simp add: buf_idle_def len)
  have "acquiresleep (SlBuf i) ?t = Inr ((), sl_upd (SlBuf i) (\<lambda>l. l\<lparr>sl_locked := 1, sl_pid := pid_of ?t c\<rparr>) ?t)"
    using rest free i len by (intro acquiresleep_run) (simp_all add: sl_valid_def)
  also have "sl_upd (SlBuf i) (\<lambda>l. l\<lparr>sl_locked := 1, sl_pid := pid_of ?t c\<rparr>) ?t = buf_upd i (\<lambda>x. taken (pid_of s c) (f x)) s"
    using i len by (simp add: sl_upd_buf buf_upd_upd) (simp add: buf_upd_def taken_def)
  finally show ?thesis
    using slot with_lock_rest [OF neutral_bget_slot _ rest] by (simp add: bget_def bindM_def retM_def)
qed

lemma held_refcnt:
  assumes ok: "cache_ok s c xs H" and "i < NBUF"
  shows "b_refcnt (bufs s ! i) = 0 \<longleftrightarrow> i \<notin> H"
  using cache_okD(7,8) [OF ok] assms(2) by (auto simp: buf_idle_def buf_held_def)

lemma bread_spec:
  assumes ok: "cache_ok s c xs H" and b: "unat b < length (k_disk s)" and H: "H \<noteq> {0..<NBUF}"
    and new: "\<And>i. i \<in> H \<Longrightarrow> b_blockno (bufs s ! i) \<noteq> b"
  obtains i t where "bread 1 b s = Inr (i, t)" and "i < NBUF" and "i \<notin> H" and "cache_ok t c xs (insert i H)"
    and "cache_step s t" and "holds_block t b i" and "b_data (bufs t ! i) = view s b"
    and "\<And>j. j \<noteq> i \<Longrightarrow> bufs t ! j = bufs s ! j"
    and "holds_block s b i \<and> b_flags (bufs t ! i) = b_flags (bufs s ! i) \<or>
      b_flags (bufs t ! i) = B_VALID \<and> (\<forall>j < NBUF. \<not> holds_block s b j) \<and>
      (b_dev (bufs s ! i) = 1 \<and> b_blockno (bufs s ! i) = b \<and> b_flags (bufs s ! i) = 0 \<or> find (\<lambda>i. i \<notin> H) (rev xs) = Some i)"
proof -
  let ?n = "length (k_disk s)" and ?pid = "pid_of s c"
  have ring: "ring (k_bcache s) xs" and len: "length (bufs s) = NBUF" and rest: "at_rest s c"
    and sx: "set xs = {0..<NBUF}"
    using cache_okD(1,3,10) [OF ok] ringD(3) by auto
  let ?hit = "\<lambda>i. b_dev (bufs s ! i) = 1 \<and> b_blockno (bufs s ! i) = b"
  let ?m = "\<lambda>x. x\<lparr>b_dev := 1, b_blockno := b, b_flags := 0, b_refcnt := 1\<rparr>"
  have slot: "\<exists>i f. bget_slot 1 b s = Inr (i, buf_upd i f s) \<and> i < NBUF \<and> i \<notin> H \<and>
      (?hit i \<and> f = (\<lambda>x. x\<lparr>b_refcnt := b_refcnt x + 1\<rparr>) \<or>
       f = ?m \<and> (\<forall>j < NBUF. \<not> ?hit j) \<and> find (\<lambda>i. i \<notin> H) (rev xs) = Some i)"
  proof (cases "find ?hit xs")
    case (Some i)
    then have i: "?hit i" "i < NBUF" using sx by (auto simp: find_Some_iff)
    then have "i \<notin> H" using new by blast
    with bget_slot_hit [OF ring Some] i show ?thesis by blast
  next
    case None
    have "\<exists>i \<in> set (rev xs). i \<notin> H" using H cache_okD(4) [OF ok] sx by auto
    then obtain i where v: "find (\<lambda>i. i \<notin> H) (rev xs) = Some i"
      by (cases "find (\<lambda>i. i \<notin> H) (rev xs)") (auto simp: find_None_iff)
    then have i: "i \<notin> H" "i < NBUF" using find_Some_rev_in [OF v] sx by auto
    have "find (\<lambda>i. b_refcnt (bufs s ! i) = 0) (rev xs) = find (\<lambda>i. i \<notin> H) (rev xs)"
      using held_refcnt [OF ok] sx by (intro find_cong) auto
    with v bget_slot_miss [OF ring None, of i] None i sx show ?thesis by (auto simp: find_None_iff)
  qed
  then obtain i f where sl: "bget_slot 1 b s = Inr (i, buf_upd i f s)" and i: "i < NBUF" "i \<notin> H"
    and cs: "?hit i \<and> f = (\<lambda>x. x\<lparr>b_refcnt := b_refcnt x + 1\<rparr>) \<or>
       f = ?m \<and> (\<forall>j < NBUF. \<not> ?hit j) \<and> find (\<lambda>i. i \<notin> H) (rev xs) = Some i" by blast
  have idle: "buf_idle (k_disk s) (bufs s ! i)" and shape: "buf_shape ?n (bufs s ! i)"
    using cache_okD(6,7) [OF ok] i by auto
  have f: "\<And>x. b_lock (f x) = b_lock x" "\<And>x. b_next (f x) = b_next x" "\<And>x. b_prev (f x) = b_prev x"
    "\<And>x. b_data (f x) = b_data x" "b_refcnt (f (bufs s ! i)) = 1" "b_dev (f (bufs s ! i)) = 1"
    "b_blockno (f (bufs s ! i)) = b" "\<And>x. b_flags (f x) \<in> {0, b_flags x}"
    using cs idle by (auto simp: buf_idle_def)
  let ?g = "\<lambda>x. taken ?pid (f x)"
  have bg: "bget 1 b s = Inr (i, buf_upd i ?g s)" using bget_run [OF ok i sl f(1)] .
  have u: "b_blockno (bufs s ! j) \<noteq> b" if "j < NBUF" "j \<noteq> i" "b_dev (bufs s ! j) = 1" for j
    using cs
  proof
    assume "?hit i \<and> f = (\<lambda>x. x\<lparr>b_refcnt := b_refcnt x + 1\<rparr>)"
    then show ?thesis using one_eachD [OF cache_okD(9) [OF ok], of i j] that i len by auto
  qed (use that in auto)
  show ?thesis
  proof (cases "b_flags (f (bufs s ! i)) = 0")
    case False
    then have h: "?hit i" and fe: "f = (\<lambda>x. x\<lparr>b_refcnt := b_refcnt x + 1\<rparr>)" using cs by auto
    have fl: "b_flags (f (bufs s ! i)) = b_flags (bufs s ! i)" by (simp add: fe)
    with False have fl0: "b_flags (bufs s ! i) \<noteq> 0" by simp
    then have va: "b_flags (bufs s ! i) AND B_VALID \<noteq> 0"
      using shape by (auto simp: buf_shape_def B_VALID_def B_DIRTY_def)
    let ?t = "buf_upd i ?g s"
    have hb: "holds_block s b i" using h fl0 by (simp add: holds_block_def)
    have br: "bread 1 b s = Inr (i, ?t)"
      using bg va i len fl by (simp add: bread_def op_defs taken_def)
    have "cache_ok ?t c xs (insert i H)"
    proof (rule cache_ok_take [OF ok i(1)])
    qed (use shape fl fl0 f u b in \<open>auto simp: taken_def buf_shape_def buf_held_def\<close>)
    then show ?thesis
      using br i hb view_cached [OF ok i(1) hb] fl f(4,6,7) len
      by (intro that [of i ?t]) (auto simp: cache_step_buf_upd holds_block_def taken_def)
  next
    case True
    let ?t1 = "buf_upd i ?g s"
    let ?h = "\<lambda>x. x\<lparr>b_data := k_disk s ! unat b, b_flags := B_VALID\<rparr>"
    let ?t = "buf_upd i (\<lambda>x. ?h (?g x)) s"
    have "iderw i ?t1 = Inr ((), buf_upd i (\<lambda>x. x\<lparr>b_data := k_disk ?t1 ! unat (b_blockno x), b_flags := B_VALID\<rparr>) ?t1)"
      using rest i len True f b by (intro iderw_read [where c = c]) (simp_all add: taken_def)
    also have "buf_upd i (\<lambda>x. x\<lparr>b_data := k_disk ?t1 ! unat (b_blockno x), b_flags := B_VALID\<rparr>) ?t1 = ?t"
      using i len f(7) by (simp add: buf_upd_upd) (simp add: buf_upd_def taken_def)
    finally have ide: "iderw i ?t1 = Inr ((), ?t)" .
    have vv: "buf_upd i (\<lambda>x. x\<lparr>b_flags := b_flags x OR B_VALID\<rparr>) ?t = ?t"
      using i len by (simp add: buf_upd_upd)
    have br: "bread 1 b s = Inr (i, ?t)"
      using bg ide vv True i len by (simp add: bread_def op_defs taken_def)
    have none: "\<not> holds_block s b j" if "j < NBUF" for j
      using cs True u [OF that] that by (cases "j = i") (auto simp: holds_block_def)
    have dl: "length (k_disk s ! unat b) = BSIZE" using cache_okD(5) [OF ok] b by simp
    have "cache_ok ?t c xs (insert i H)"
    proof (rule cache_ok_take [OF ok i(1)])
    qed (use dl f u b in \<open>auto simp: taken_def buf_shape_def buf_held_def B_VALID_def\<close>)
    moreover have "b_dev (bufs s ! i) = 1 \<and> b_blockno (bufs s ! i) = b \<and> b_flags (bufs s ! i) = 0 \<or> find (\<lambda>i. i \<notin> H) (rev xs) = Some i" using cs True by auto
    ultimately show ?thesis
      using br i none view_uncached [OF none] f(6,7) len
      by (intro that [of i ?t]) (auto simp: cache_step_buf_upd holds_block_def taken_def B_VALID_def)
  qed
qed

section \<open>Changing, writing and releasing a held buffer\<close>

lemma cache_ok_held:
  assumes ok: "cache_ok s c xs H" and i: "i \<in> H"
    and f: "\<And>b. b_next (f b) = b_next b" "\<And>b. b_prev (f b) = b_prev b" "\<And>b. b_lock (f b) = b_lock b"
      "\<And>b. b_refcnt (f b) = b_refcnt b" "\<And>b. b_dev (f b) = b_dev b" "\<And>b. b_blockno (f b) = b_blockno b"
    and sh: "length (b_data (f (bufs s ! i))) = BSIZE" "b_flags (f (bufs s ! i)) \<in> {B_VALID, B_VALID OR B_DIRTY}"
  shows "cache_ok (buf_upd i f s) c xs H"
proof -
  have iN: "i < NBUF" using cache_okD(4) [OF ok] i by auto
  have h: "buf_held (pid_of s c) (bufs s ! i)" and s: "buf_shape (length (k_disk s)) (bufs s ! i)"
    using cache_okD(6,8) [OF ok] i iN by auto
  have "cache_ok (buf_upd i f s) c xs (insert i H)"
  proof (rule cache_ok_take [OF ok iN])
    fix j
    assume "j < NBUF" and "j \<noteq> i" and "b_dev (bufs s ! j) = 1"
    then show "b_blockno (bufs s ! j) \<noteq> b_blockno (f (bufs s ! i))"
      using one_eachD [OF cache_okD(9) [OF ok], of i j] cache_okD(10) [OF ok] iN h s f(6)
      by (auto simp: buf_held_def buf_shape_def)
  qed (use f sh h s in \<open>auto simp: buf_held_def buf_shape_def B_VALID_def B_DIRTY_def\<close>)
  with i show ?thesis by (simp add: insert_absorb)
qed

lemma set_bdata_spec:
  assumes ok: "cache_ok s c xs H" and i: "i \<in> H" and d: "length d = BSIZE"
  shows "set_bdata i d s = Inr ((), buf_upd i (\<lambda>b. b\<lparr>b_data := d\<rparr>) s)"
    and "cache_ok (buf_upd i (\<lambda>b. b\<lparr>b_data := d\<rparr>) s) c xs H"
proof -
  show "set_bdata i d s = Inr ((), buf_upd i (\<lambda>b. b\<lparr>b_data := d\<rparr>) s)" by (simp add: set_bdata_def modM_def)
  have "i < NBUF" using cache_okD(4) [OF ok] i by auto
  then have "b_flags (bufs s ! i) \<in> {B_VALID, B_VALID OR B_DIRTY}"
    using cache_okD(6) [OF ok, of i] cache_okD(8) [OF ok i] by (auto simp: buf_held_def buf_shape_def)
  then show "cache_ok (buf_upd i (\<lambda>b. b\<lparr>b_data := d\<rparr>) s) c xs H"
    using d by (intro cache_ok_held [OF ok i]) simp_all
qed

definition disk_write :: "nat \<Rightarrow> u8 list \<Rightarrow> kernel \<Rightarrow> kernel" where
  "disk_write b d s = s\<lparr>k_disk := (k_disk s)[b := d], k_writes := k_writes s @ [(b, d)]\<rparr>"

lemma disk_write_fields [simp]:
  "k_disk (disk_write b d s) = (k_disk s)[b := d]" "k_writes (disk_write b d s) = k_writes s @ [(b, d)]"
  "k_log (disk_write b d s) = k_log s" "k_bcache (disk_write b d s) = k_bcache s" "k_ptab (disk_write b d s) = k_ptab s"
  "k_sync (disk_write b d s) = k_sync s" "k_icache (disk_write b d s) = k_icache s" "k_sb (disk_write b d s) = k_sb s"
  "k_mem (disk_write b d s) = k_mem s"
  by (simp_all add: disk_write_def)

lemma bwrite_spec:
  assumes ok: "cache_ok s c xs H" and i: "i \<in> H"
  defines "b \<equiv> b_blockno (bufs s ! i)" and "d \<equiv> b_data (bufs s ! i)"
  defines "t \<equiv> disk_write (unat b) d (buf_upd i (\<lambda>b. b\<lparr>b_flags := B_VALID\<rparr>) s)"
  shows "bwrite i s = Inr ((), t)" and "cache_ok t c xs H" and "unat b < length (k_disk s)"
proof -
  have iN: "i < NBUF" using cache_okD(4) [OF ok] i by auto
  have rest: "at_rest s c" and len: "length (bufs s) = NBUF" using cache_okD(1,10) [OF ok] by auto
  have h: "buf_held (pid_of s c) (bufs s ! i)" and s: "buf_shape (length (k_disk s)) (bufs s ! i)"
    using cache_okD(6,8) [OF ok] i iN by auto
  then show bl: "unat b < length (k_disk s)" by (simp add: buf_held_def buf_shape_def b_def)
  let ?u = "buf_upd i (\<lambda>b. b\<lparr>b_flags := b_flags b OR B_DIRTY\<rparr>) s"
  have fl: "b_flags (bufs s ! i) OR B_DIRTY = B_VALID OR B_DIRTY"
    using h s by (auto simp: buf_held_def buf_shape_def B_VALID_def B_DIRTY_def)
  have hold: "holdingsleep (SlBuf i) s = Inr (True, s)"
    using h holdingsleep_run [OF rest, of "SlBuf i"] by (simp add: buf_held_def)
  have "iderw i ?u = Inr ((), (buf_upd i (\<lambda>b. b\<lparr>b_flags := B_VALID\<rparr>) ?u)
      \<lparr>k_disk := (k_disk ?u)[unat (b_blockno (bufs ?u ! i)) := b_data (bufs ?u ! i)],
       k_writes := k_writes ?u @ [(unat (b_blockno (bufs ?u ! i)), b_data (bufs ?u ! i))]\<rparr>)"
    using rest iN len h s fl by (intro iderw_write [where c = c]) (simp_all add: buf_held_def buf_shape_def)
  then have "iderw i ?u = Inr ((), t)"
    using iN len by (simp add: buf_upd_upd t_def b_def d_def disk_write_def)
  with hold show "bwrite i s = Inr ((), t)" by (simp add: bwrite_def op_defs)
  have v: "cache_ok (buf_upd i (\<lambda>b. b\<lparr>b_flags := B_VALID\<rparr>) s) c xs H" (is "cache_ok ?v c xs H")
    using s by (intro cache_ok_held [OF ok i]) (simp_all add: buf_shape_def)
  have "buf_idle ((k_disk s)[unat b := d]) (bufs ?v ! j)" if "j < NBUF" "j \<notin> H" for j
  proof -
    have ji: "j \<noteq> i" using that i by auto
    have "unat (b_blockno (bufs s ! j)) \<noteq> unat b" if "b_flags (bufs s ! j) = B_VALID"
    proof
      assume "unat (b_blockno (bufs s ! j)) = unat b"
      then have "b_blockno (bufs s ! j) = b" by (simp add: word_unat_eq_iff)
      moreover have "b_dev (bufs s ! j) = 1"
        using cache_okD(6) [OF ok \<open>j < NBUF\<close>] that by (simp add: buf_shape_def B_VALID_def)
      ultimately have "i = j"
        using one_eachD [OF cache_okD(9) [OF ok], of i j] len iN \<open>j < NBUF\<close> h s
        by (simp add: b_def buf_held_def buf_shape_def)
      with ji show False by simp
    qed
    with cache_okD(7) [OF ok that] ji show ?thesis by (auto simp: buf_idle_def)
  qed
  moreover have "length d = BSIZE" using s by (simp add: buf_shape_def d_def)
  ultimately show "cache_ok t c xs H"
    using v by (auto simp: cache_ok_def t_def at_rest_def dest: set_update_subset_insert [THEN subsetD])
qed

text \<open>What moving a buffer in the list leaves alone.\<close>

definition content :: "buf \<Rightarrow> u32 \<times> u32 \<times> u32 \<times> u8 list" where
  "content b = (b_flags b, b_dev b, b_blockno b, b_data b)"

definition unlinked :: "buf \<Rightarrow> buf" where
  "unlinked b = b\<lparr>b_prev := 0, b_next := 0\<rparr>"

lemma unlinked_set [simp]:
  "unlinked (bc_buf (set_next i n bc) ! j) = unlinked (bc_buf bc ! j)"
  "unlinked (bc_buf (set_prev i n bc) ! j) = unlinked (bc_buf bc ! j)"
  by (simp_all add: set_next_def set_prev_def nth_upd unlinked_def)

lemma unlinked_move: "unlinked (bc_buf (push_front i (unlink_buf i bc)) ! j) = unlinked (bc_buf bc ! j)"
  by (simp add: push_front_def unlink_buf_def Let_def)

lemma unlinkedD:
  assumes "unlinked a = unlinked b"
  shows "b_flags a = b_flags b" "b_dev a = b_dev b" "b_blockno a = b_blockno b" "b_data a = b_data b"
    "b_refcnt a = b_refcnt b" "b_lock a = b_lock b"
proof -
  have "b_flags (unlinked a) = b_flags (unlinked b)" "b_dev (unlinked a) = b_dev (unlinked b)"
    "b_blockno (unlinked a) = b_blockno (unlinked b)" "b_data (unlinked a) = b_data (unlinked b)"
    "b_refcnt (unlinked a) = b_refcnt (unlinked b)" "b_lock (unlinked a) = b_lock (unlinked b)"
    using assms by simp_all
  then show "b_flags a = b_flags b" "b_dev a = b_dev b" "b_blockno a = b_blockno b" "b_data a = b_data b"
    "b_refcnt a = b_refcnt b" "b_lock a = b_lock b" by (simp_all add: unlinked_def)
qed

lemma brelse_spec:
  assumes ok: "cache_ok s c xs H" and i: "i \<in> H"
    and clean: "b_flags (bufs s ! i) = B_VALID \<Longrightarrow> b_data (bufs s ! i) = k_disk s ! unat (b_blockno (bufs s ! i))"
  obtains t where "brelse i s = Inr ((), t)" and "cache_ok t c (i # remove1 i xs) (H - {i})" and "cache_step s t"
    and "\<forall>j < NBUF. content (bufs t ! j) = content (bufs s ! j)"
proof -
  have iN: "i < NBUF" using cache_okD(4) [OF ok] i by auto
  have rest: "at_rest s c" and len: "length (bufs s) = NBUF" and ring: "ring (k_bcache s) xs"
    using cache_okD(1,3,10) [OF ok] by auto
  have h: "buf_held (pid_of s c) (bufs s ! i)" using cache_okD(8) [OF ok i] .
  define pt where "pt = tab_upd (wakeup1 (ChSleep (SlBuf i))) (k_ptab s)"
  define f :: "buf \<Rightarrow> buf" where "f = (\<lambda>b. b\<lparr>b_lock := (b_lock b)\<lparr>sl_locked := 0, sl_pid := 0\<rparr>, b_refcnt := 0\<rparr>)"
  define v where "v = (buf_upd i f s)\<lparr>k_ptab := pt\<rparr>"
  define t where "t = v\<lparr>k_bcache := push_front i (unlink_buf i (k_bcache v))\<rparr>"
  have pids: "map p_pid (pt_procs pt) = map p_pid (kprocs s)"
    by (simp add: pt_def wakeup1_def comp_def if_distrib cong: if_cong)
  have hold: "holdingsleep (SlBuf i) s = Inr (True, s)"
    using h holdingsleep_run [OF rest, of "SlBuf i"] by (simp add: buf_held_def)
  let ?u = "(buf_upd i (\<lambda>b. b\<lparr>b_lock := (b_lock b)\<lparr>sl_locked := 0, sl_pid := 0\<rparr>\<rparr>) s)\<lparr>k_ptab := pt\<rparr>"
  have rel: "releasesleep (SlBuf i) s = Inr ((), ?u)"
    using releasesleep_run [OF rest, of "SlBuf i"] by (simp add: sl_upd_buf pt_def)
  let ?m = "bindM (modM (buf_upd i (\<lambda>b. b\<lparr>b_refcnt := b_refcnt b - 1\<rparr>))) (\<lambda>_.
       bindM (getM (\<lambda>s. b_refcnt (bufs s ! i))) (\<lambda>n.
       if n = 0 then modM (\<lambda>s. s\<lparr>k_bcache := push_front i (unlink_buf i (k_bcache s))\<rparr>) else retM ()))"
  have n: "lock_neutral {} ?m" by (intro neutral_intros sync_indep_intros) simp_all
  have "at_rest ?u c" using rest by (simp add: at_rest_def)
  from with_lock_rest [OF n _ this, of LkBcache] have "with_lock LkBcache ?m ?u = ?m ?u" by simp
  also have "\<dots> = Inr ((), t)"
    using iN len h by (simp add: op_defs t_def v_def f_def buf_held_def buf_upd_def)
  finally have br: "brelse i s = Inr ((), t)" using hold rel by (simp add: brelse_def bindM_def assertM_def)
  have "ring (k_bcache v) xs" using ring ring_buf_upd [of f i s xs] by (simp add: v_def f_def)
  moreover have "i \<in> set xs" using ringD(3) [OF ring] iN by simp
  ultimately have r: "ring (k_bcache t) (i # remove1 i xs)" by (simp add: t_def ring_move)
  have b: "unlinked (bufs t ! j) = unlinked ((bufs s)[i := f (bufs s ! i)] ! j)" for j
    by (simp add: t_def unlinked_move v_def)
  note bD = unlinkedD [OF b]
  have cs: "cache_step s t" using pids by (intro cache_stepI [where bc = "k_bcache t" and pt = pt]) (simp_all add: t_def v_def buf_upd_def)
  have ct: "content (bufs t ! j) = content (bufs s ! j)" for j
    using iN len by (simp add: content_def bD nth_upd f_def)
  have l: "length (bufs t) = NBUF" using ringD(1) [OF r] .
  have ct': "\<forall>j < NBUF. content (bufs t ! j) = content (bufs s ! j)" using ct by blast
  have cok: "cache_ok t c (i # remove1 i xs) (H - {i})"
    unfolding cache_ok_def
  proof (intro conjI allI impI ballI)
    show "at_rest t c" using rest cache_stepD(1) [OF cs] by (simp add: at_rest_def)
    show "c < length (kprocs t)" using cache_okD(2) [OF ok] cache_stepD(8) [OF cs] by simp
    show "ring (k_bcache t) (i # remove1 i xs)" by (rule r)
    show "H - {i} \<subseteq> {0..<NBUF}" using cache_okD(4) [OF ok] by auto
    show "length d = BSIZE" if "d \<in> set (k_disk t)" for d
      using that cache_okD(5) [OF ok] cache_stepD(2) [OF cs] by simp
    show "buf_shape (length (k_disk t)) (bufs t ! j)" if "j < NBUF" for j
      using cache_okD(6) [OF ok that] cache_stepD(2) [OF cs] ct [of j] by (simp add: buf_shape_def content_def)
    show "buf_idle (k_disk t) (bufs t ! j)" if "j < NBUF" "j \<notin> H - {i}" for j
    proof (cases "j = i")
      case True
      with clean iN len cache_stepD(2) [OF cs] show ?thesis by (simp add: buf_idle_def bD nth_upd f_def)
    next
      case False
      with that have "j \<notin> H" by simp
      with cache_okD(7) [OF ok that(1)] False cache_stepD(2) [OF cs] show ?thesis by (simp add: buf_idle_def bD nth_upd)
    qed
    show "buf_held (pid_of t c) (bufs t ! j)" if "j \<in> H - {i}" for j
      using that cache_okD(8) [OF ok, of j] cache_stepD(9) [OF cs cache_okD(2) [OF ok]]
      by (simp add: buf_held_def bD nth_upd)
    show "one_each (bufs t)"
      using cache_okD(9) [OF ok] len l ct unfolding one_each_def content_def by simp
  qed
  show ?thesis by (rule that [OF br cok cs ct'])
qed

section \<open>Initialisation\<close>

definition reset_lock :: "nat \<Rightarrow> string \<Rightarrow> bcache \<Rightarrow> bcache" where
  "reset_lock i name bc = bc\<lparr>bc_buf := (bc_buf bc)[i := (bc_buf bc ! i)
     \<lparr>b_lock := (b_lock (bc_buf bc ! i))\<lparr>sl_name := name, sl_locked := 0, sl_pid := 0\<rparr>\<rparr>]\<rparr>"

lemma reset_lock_links:
  "lnk_next (reset_lock i name bc) = lnk_next bc" "lnk_prev (reset_lock i name bc) = lnk_prev bc"
  by (auto simp: fun_eq_iff lnk_next_def lnk_prev_def reset_lock_def nth_upd)

lemma reset_lock_commute:
  "i < NBUF \<Longrightarrow> length (bc_buf bc) = NBUF \<Longrightarrow>
     reset_lock i name (set_prev i a (set_next i b bc)) = set_prev i a (set_next i b (reset_lock i name bc))"
  by (cases "bc_buf bc ! i") (simp add: reset_lock_def set_prev_def set_next_def)

lemma at_rest_initlock:
  "at_rest s c \<Longrightarrow> at_rest (s\<lparr>k_sync := (k_sync s)\<lparr>locks := (locks (k_sync s))(lk := \<lparr>lk_locked = 0, lk_name = nm, lk_cpu = None\<rparr>)\<rparr>\<rparr>) c"
  by (simp add: at_rest_def quiet_def calm_def lock_free_def cur_def find_cpu_def readeflags_def split: option.splits)

lemma binit_round:
  assumes l: "linked_list (k_bcache s) xs" and i: "i < NBUF" "i \<notin> set xs" and r: "at_rest s c"
  obtains t where "binit_loop (i # is) s = binit_loop is t" and "linked_list (k_bcache t) (i # xs)" and "at_rest t c"
    and "k_disk t = k_disk s" and "k_ptab t = k_ptab s" and "k_log t = k_log s"
    and "\<forall>j < NBUF. content (bufs t ! j) = content (bufs s ! j) \<and> b_refcnt (bufs t ! j) = b_refcnt (bufs s ! j) \<and>
      sl_locked (b_lock (bufs t ! j)) = (if j = i then 0 else sl_locked (b_lock (bufs s ! j)))"
proof -
  let ?bc = "k_bcache s" and ?bc' = "reset_lock i ''buffer'' (k_bcache s)"
  let ?y = "(k_sync s)\<lparr>locks := (locks (k_sync s))(LkSleep (SlBuf i) := \<lparr>lk_locked = 0, lk_name = ''sleep lock'', lk_cpu = None\<rparr>)\<rparr>"
  define t where "t = s\<lparr>k_sync := ?y, k_bcache := push_front i ?bc'\<rparr>"
  have len: "length (bc_buf ?bc) = NBUF" using l by (simp add: linked_list_def)
  have len': "length (bc_buf ?bc') = NBUF" using len by (simp add: reset_lock_def)
  have "linked_list ?bc' xs" using l by (simp add: linked_list_def reset_lock_links len')
  then have lt: "linked_list (k_bcache t) (i # xs)" using linked_list_push i by (simp add: t_def)
  have run: "binit_loop (i # is) s = binit_loop is t"
    using reset_lock_commute [OF i(1) len, of "''buffer''" NBUF "lnk_next ?bc NBUF"]
    by (simp add: bindM_def modM_def initsleeplock_def liftS_def initlock_def sl_upd_def t_def push_front_def Let_def
        reset_lock_links) (simp add: reset_lock_def)
  have b: "unlinked (bufs t ! j) = unlinked (bc_buf ?bc' ! j)" for j
    by (simp add: t_def push_front_def Let_def)
  note bD = unlinkedD [OF b]
  have "\<forall>j < NBUF. content (bufs t ! j) = content (bufs s ! j) \<and> b_refcnt (bufs t ! j) = b_refcnt (bufs s ! j) \<and>
      sl_locked (b_lock (bufs t ! j)) = (if j = i then 0 else sl_locked (b_lock (bufs s ! j)))"
    using i(1) len by (simp add: content_def bD reset_lock_def nth_upd)
  moreover have "at_rest t c" using at_rest_initlock [OF r, of "LkSleep (SlBuf i)" "''sleep lock''"]
    by (rule at_rest_sync) (simp add: t_def)
  ultimately show ?thesis using run lt by (intro that [of t]) (simp_all add: t_def)
qed

lemma binit_loop_run:
  assumes "linked_list (k_bcache s) (rev [0..<k])" and "k \<le> NBUF" and "at_rest s c"
  shows "\<exists>t. binit_loop [k..<NBUF] s = Inr ((), t) \<and> linked_list (k_bcache t) (rev [0..<NBUF]) \<and> at_rest t c \<and>
    k_disk t = k_disk s \<and> k_ptab t = k_ptab s \<and> k_log t = k_log s \<and>
    (\<forall>j < NBUF. content (bufs t ! j) = content (bufs s ! j) \<and> b_refcnt (bufs t ! j) = b_refcnt (bufs s ! j) \<and>
      (k \<le> j \<longrightarrow> sl_locked (b_lock (bufs t ! j)) = 0) \<and>
      (j < k \<longrightarrow> sl_locked (b_lock (bufs t ! j)) = sl_locked (b_lock (bufs s ! j))))"
  using assms
proof (induction "NBUF - k" arbitrary: k s)
  case 0
  then show ?case by (auto simp: retM_def)
next
  case (Suc d)
  then have k: "k < NBUF" by simp
  have ni: "k \<notin> set (rev [0..<k])" by simp
  obtain t where t: "binit_loop (k # [Suc k..<NBUF]) s = binit_loop [Suc k..<NBUF] t" "linked_list (k_bcache t) (k # rev [0..<k])"
    "at_rest t c" "k_disk t = k_disk s" "k_ptab t = k_ptab s" "k_log t = k_log s"
    "\<forall>j < NBUF. content (bufs t ! j) = content (bufs s ! j) \<and> b_refcnt (bufs t ! j) = b_refcnt (bufs s ! j) \<and>
      sl_locked (b_lock (bufs t ! j)) = (if j = k then 0 else sl_locked (b_lock (bufs s ! j)))"
    by (rule binit_round [OF Suc.prems(1) k ni Suc.prems(3)])
  have "d = NBUF - Suc k" "Suc k \<le> NBUF" using Suc.hyps(2) k by simp_all
  moreover have "linked_list (k_bcache t) (rev [0..<Suc k])" using t(2) by simp
  ultimately obtain u where u: "binit_loop [Suc k..<NBUF] t = Inr ((), u)" "linked_list (k_bcache u) (rev [0..<NBUF])"
    "at_rest u c" "k_disk u = k_disk t" "k_ptab u = k_ptab t" "k_log u = k_log t"
    "\<forall>j < NBUF. content (bufs u ! j) = content (bufs t ! j) \<and> b_refcnt (bufs u ! j) = b_refcnt (bufs t ! j) \<and>
      (Suc k \<le> j \<longrightarrow> sl_locked (b_lock (bufs u ! j)) = 0) \<and>
      (j < Suc k \<longrightarrow> sl_locked (b_lock (bufs u ! j)) = sl_locked (b_lock (bufs t ! j)))"
    using Suc.hyps(1) [of "Suc k" t] t(3) by blast
  have "sl_locked (b_lock (bufs u ! j)) = 0" if "j < NBUF" "k \<le> j" for j
    using u(7) t(7) that by (cases "j = k") auto
  with t(1,4-7) u k show ?case by (auto simp: upt_conv_Cons)
qed

text \<open>After \<^verbatim>\<open>binit\<close> the cache is well formed and empty.\<close>

lemma binit_run:
  assumes r: "at_rest s c" and c: "c < length (kprocs s)" and len: "length (bufs s) = NBUF"
    and e: "\<forall>i < NBUF. b_flags (bufs s ! i) = 0 \<and> b_dev (bufs s ! i) = 0 \<and> b_refcnt (bufs s ! i) = 0 \<and>
      length (b_data (bufs s ! i)) = BSIZE"
    and d: "\<forall>d \<in> set (k_disk s). length d = BSIZE"
  obtains t where "binit s = Inr ((), t)" and "cache_ok t c (rev [0..<NBUF]) {}" and "k_disk t = k_disk s" and "k_log t = k_log s"
    and "\<forall>i < NBUF. b_flags (bufs t ! i) = 0"
proof -
  let ?s1 = "s\<lparr>k_sync := (k_sync s)\<lparr>locks := (locks (k_sync s))(LkBcache := \<lparr>lk_locked = 0, lk_name = ''bcache'', lk_cpu = None\<rparr>)\<rparr>\<rparr>"
  define s2 where "s2 = ?s1\<lparr>k_bcache := (k_bcache s)\<lparr>bc_head_prev := NBUF, bc_head_next := NBUF\<rparr>\<rparr>"
  have r2: "at_rest s2 c" using at_rest_initlock [OF r, of LkBcache "''bcache''"] by (rule at_rest_sync) (simp add: s2_def)
  have l2: "linked_list (k_bcache s2) (rev [0..<0])"
    using len by (simp add: linked_list_def s2_def lnk_next_def lnk_prev_def)
  obtain t where t: "binit_loop [0..<NBUF] s2 = Inr ((), t)" "linked_list (k_bcache t) (rev [0..<NBUF])" "at_rest t c"
    "k_disk t = k_disk s2" "k_ptab t = k_ptab s2" "k_log t = k_log s2"
    "\<forall>j < NBUF. content (bufs t ! j) = content (bufs s2 ! j) \<and> b_refcnt (bufs t ! j) = b_refcnt (bufs s2 ! j) \<and>
      sl_locked (b_lock (bufs t ! j)) = 0"
    using binit_loop_run [OF l2 _ r2] by auto
  have b: "b_flags (bufs t ! j) = 0 \<and> b_dev (bufs t ! j) = 0 \<and> b_refcnt (bufs t ! j) = 0 \<and> length (b_data (bufs t ! j)) = BSIZE"
    if "j < NBUF" for j
    using t(7) e that by (auto simp: content_def s2_def)
  have "ring (k_bcache t) (rev [0..<NBUF])" using t(2) by (auto simp: ring_def)
  then have "cache_ok t c (rev [0..<NBUF]) {}"
    using t(3,4,5,7) b c d ringD(1) [of "k_bcache t"]
    by (auto simp: cache_ok_def s2_def buf_shape_def buf_idle_def B_VALID_def one_each_def)
  moreover have "binit s = Inr ((), t)"
    using t(1) by (simp add: binit_def bindM_def liftS_def initlock_def modM_def s2_def)
  ultimately show ?thesis using b t(4,6) by (intro that [of t]) (simp_all add: s2_def)
qed

end
