(* ===== verification/Recovery.thy ===== *)
theory Recovery
  imports Cache
begin

text \<open>
  Crash safety of the log: \<^verbatim>\<open>commit\<close>, stopped by a crash after any number of its disk writes, and
  \<^verbatim>\<open>recover_from_log\<close> at the next boot together leave all of a transaction on the disk or nothing
  of it. A disk block is written as a whole. The proof runs the two functions through the buffer
  cache, over the specifications of \<^verbatim>\<open>bread\<close>, \<^verbatim>\<open>bwrite\<close> and \<^verbatim>\<open>brelse\<close>.
\<close>

section \<open>Dirty buffers\<close>

definition dirty :: "buf \<Rightarrow> bool" where
  "dirty b \<longleftrightarrow> b_flags b = (B_VALID OR B_DIRTY)"

text \<open>A block whose cached copy, if any, is on the disk; a block with a dirty copy in the cache.\<close>

definition clean_block :: "kernel \<Rightarrow> u32 \<Rightarrow> bool" where
  "clean_block s b \<longleftrightarrow> (\<forall>i < NBUF. holds_block s b i \<longrightarrow> \<not> dirty (bufs s ! i))"

definition pinned :: "kernel \<Rightarrow> u32 \<Rightarrow> bool" where
  "pinned s b \<longleftrightarrow> (\<exists>i < NBUF. holds_block s b i \<and> dirty (bufs s ! i))"

text \<open>All dirty buffers are among the \<open>m\<close> most recently used ones.\<close>

definition dirty_before :: "kernel \<Rightarrow> nat list \<Rightarrow> nat \<Rightarrow> bool" where
  "dirty_before s xs m \<longleftrightarrow> (\<forall>i < NBUF. dirty (bufs s ! i) \<longrightarrow> i \<in> set (take m xs))"

lemma clean_iff: "clean_block s b \<longleftrightarrow> \<not> pinned s b"
  by (auto simp: clean_block_def pinned_def)

lemma valid_not_dirty [simp]: "B_VALID \<noteq> B_VALID OR B_DIRTY" "B_VALID OR B_DIRTY \<noteq> B_VALID" "B_VALID \<noteq> 0"
  "B_VALID OR B_DIRTY \<noteq> 0"
  by (simp_all add: B_VALID_def B_DIRTY_def)

lemma holder_unique:
  assumes "cache_ok s c xs H" and "i < NBUF" and "j < NBUF" and "holds_block s b i" and "holds_block s b j"
  shows "i = j"
  using one_eachD [OF cache_okD(9) [OF assms(1)], of i j] cache_okD(10) [OF assms(1)] assms(2-5)
  by (simp add: holds_block_def)

lemma view_clean:
  assumes ok: "cache_ok s c xs {}" and "clean_block s b"
  shows "view s b = k_disk s ! unat b"
proof (cases "\<exists>i < NBUF. holds_block s b i")
  case True
  then obtain i where i: "i < NBUF" "holds_block s b i" by blast
  with assms(2) have "\<not> dirty (bufs s ! i)" by (simp add: clean_block_def)
  with cache_okD(6,7) [OF ok i(1)] i(2) view_cached [OF ok i] show ?thesis
    by (auto simp: dirty_def holds_block_def buf_shape_def buf_idle_def)
next
  case False
  then show ?thesis by (intro view_uncached) blast
qed

lemma content_holds: "content (bufs t ! j) = content (bufs s ! j) \<Longrightarrow> holds_block t b j = holds_block s b j"
  by (simp add: content_def holds_block_def)

lemma content_dirty: "content x = content y \<Longrightarrow> dirty x = dirty y"
  by (simp add: content_def dirty_def)

lemma view_content:
  assumes "\<And>j. j < NBUF \<Longrightarrow> content (bufs t ! j) = content (bufs s ! j)" and "k_disk t = k_disk s"
  shows "view t b = view s b"
proof -
  have f: "find (holds_block t b) [0..<NBUF] = find (holds_block s b) [0..<NBUF]"
    using content_holds [OF assms(1)] by (intro find_cong) auto
  show ?thesis
  proof (cases "find (holds_block s b) [0..<NBUF]")
    case (Some j)
    then have "j < NBUF" using find_Some_rev_in [OF Some] by simp
    with assms(1) [of j] Some f show ?thesis by (simp add: view_def content_def)
  qed (use assms(2) f in \<open>simp add: view_def\<close>)
qed

lemma pinned_content:
  assumes "\<And>j. j < NBUF \<Longrightarrow> content (bufs t ! j) = content (bufs s ! j)"
  shows "pinned t b = pinned s b"
  using content_holds [OF assms] content_dirty [OF assms] by (auto simp: pinned_def)

section \<open>Positions in the list\<close>

lemma in_take_remove1:
  "d \<in> set (take m zs) \<Longrightarrow> d \<noteq> i \<Longrightarrow> d \<in> set (take m (remove1 i zs))"
proof (induction zs arbitrary: m)
  case Nil
  then show ?case by simp
next
  case (Cons z zs)
  show ?case
  proof (cases m)
    case (Suc k)
    with Cons show ?thesis using set_take_subset_set_take [of k "Suc k" zs] by auto
  qed (use Cons.prems in simp)
qed

lemma in_take_front: "d \<in> set (take m zs) \<Longrightarrow> d \<in> set (take (Suc m) (i # remove1 i zs))"
  using in_take_remove1 [of d m zs i] by (cases "d = i") simp_all

lemma in_take_remove1_before:
  "d \<in> set (take m zs) \<Longrightarrow> j \<in> set (take m zs) \<Longrightarrow> d \<noteq> j \<Longrightarrow> distinct zs \<Longrightarrow> d \<in> set (take (m - 1) (remove1 j zs))"
proof (induction zs arbitrary: m)
  case Nil
  then show ?case by simp
next
  case (Cons z zs)
  show ?case
  proof (cases m)
    case 0
    with Cons.prems show ?thesis by simp
  next
    case (Suc k)
    show ?thesis
    proof (cases "z = j")
      case True
      with Cons.prems Suc show ?thesis by auto
    next
      case False
      then have j: "j \<in> set (take k zs)" using Cons.prems(2) Suc by auto
      then have k: "0 < k" by (cases k) auto
      show ?thesis
      proof (cases "d = z")
        case True
        with False Suc k show ?thesis by (cases k) auto
      next
        case False
        then have "d \<in> set (take (k - 1) (remove1 j zs))" using Cons j Suc by (intro Cons.IH) auto
        with \<open>z \<noteq> j\<close> Suc k show ?thesis by (cases k) auto
      qed
    qed
  qed
qed

lemma in_take_swap:
  assumes "d \<in> set (take m zs)" and "j \<in> set (take m zs)" and "distinct zs"
  shows "d \<in> set (take m (j # remove1 j zs))"
proof (cases "d = j")
  case True
  with assms show ?thesis by (cases m) auto
next
  case False
  with in_take_remove1_before [OF assms(1,2) _ assms(3)] assms(1) show ?thesis by (cases m) auto
qed

section \<open>Reading two blocks\<close>

text \<open>Reading a block changes what the kernel sees of no block, unless a dirty buffer is recycled.\<close>

lemma bread_keeps:
  assumes ok: "cache_ok s c xs H" and ok': "cache_ok t c xs (insert i H)" and i: "i < NBUF" "i \<notin> H"
    and st: "cache_step s t" and hb: "holds_block t b i" and dt: "b_data (bufs t ! i) = view s b"
    and same: "\<And>j. j \<noteq> i \<Longrightarrow> bufs t ! j = bufs s ! j"
    and cs: "holds_block s b i \<and> b_flags (bufs t ! i) = b_flags (bufs s ! i) \<or>
      b_flags (bufs t ! i) = B_VALID \<and> (\<forall>j < NBUF. \<not> holds_block s b j) \<and> \<not> dirty (bufs s ! i)"
  shows "view t b' = view s b'" and "pinned t b' = pinned s b'"
proof -
  have other: "holds_block t b' j = holds_block s b' j" if "j \<noteq> i" for j
    using same [OF that] by (simp add: holds_block_def)
  show "view t b' = view s b'"
  proof (cases "\<exists>j < NBUF. holds_block t b' j")
    case True
    then obtain j where j: "j < NBUF" "holds_block t b' j" by blast
    show ?thesis
    proof (cases "j = i")
      case True
      with j hb have "b' = b" by (simp add: holds_block_def)
      with view_cached [OF ok' j] True dt show ?thesis by simp
    next
      case False
      with view_cached [OF ok' j] view_cached [OF ok j(1)] j(2) other [OF False] same [OF False]
      show ?thesis by simp
    qed
  next
    case False
    have "view s b' = k_disk s ! unat b'"
    proof (cases "holds_block s b' i")
      case True
      with False hb i have "b' \<noteq> b" by blast
      with True cs have "\<not> dirty (bufs s ! i)" by (auto simp: holds_block_def)
      then show ?thesis
        using True view_cached [OF ok i(1) True] cache_okD(6) [OF ok i(1)] cache_okD(7) [OF ok i]
        by (auto simp: dirty_def holds_block_def buf_shape_def buf_idle_def)
    next
      case no: False
      have "\<not> holds_block s b' j" if "j < NBUF" for j
        using no False other [of j] that by (cases "j = i") auto
      then show ?thesis by (rule view_uncached)
    qed
    moreover have "view t b' = k_disk t ! unat b'" using False by (intro view_uncached) blast
    ultimately show ?thesis using cache_stepD(2) [OF st] by simp
  qed
  have at_i: "holds_block t b' i \<and> dirty (bufs t ! i) \<longleftrightarrow> holds_block s b' i \<and> dirty (bufs s ! i)"
    using cs hb by (auto simp: holds_block_def dirty_def)
  have "holds_block t b' j \<and> dirty (bufs t ! j) \<longleftrightarrow> holds_block s b' j \<and> dirty (bufs s ! j)" for j
    using at_i other [of j] same [of j] by (cases "j = i") auto
  then show "pinned t b' = pinned s b'" by (simp add: pinned_def)
qed

lemma bread_not_pinned:
  assumes "holds_block t b i" and "\<And>j. j \<noteq> i \<Longrightarrow> bufs t ! j = bufs s ! j" and "i < NBUF"
    and "holds_block s b i \<and> b_flags (bufs t ! i) = b_flags (bufs s ! i) \<or> b_flags (bufs t ! i) = B_VALID \<and> Q"
  shows "pinned t b' \<Longrightarrow> pinned s b'"
proof -
  assume "pinned t b'"
  then obtain j where j: "j < NBUF" "holds_block t b' j" "dirty (bufs t ! j)" by (auto simp: pinned_def)
  show "pinned s b'"
  proof (cases "j = i")
    case True
    with j(2,3) assms(1,4) have "holds_block s b' i" and "dirty (bufs s ! i)" by (auto simp: holds_block_def dirty_def)
    with assms(3) show ?thesis by (auto simp: pinned_def)
  next
    case False
    with j assms(2) [OF False] show ?thesis by (auto simp: pinned_def holds_block_def)
  qed
qed

lemma last_not_before:
  assumes "ring bc xs" and "m < NBUF" and "find (\<lambda>i. i \<notin> {}) (rev xs) = Some i"
  shows "i \<notin> set (take m xs)"
proof -
  have len: "length xs = NBUF" and d: "distinct xs" using length_ring [OF assms(1)] assms(1) by (simp_all add: ring_def linked_list_def)
  have "xs \<noteq> []" using len assms(2) by auto
  then obtain ys y where ys: "xs = ys @ [y]" by (cases xs rule: rev_cases) auto
  with assms(3) have "i = y" by simp
  moreover have "set (take m xs) \<subseteq> set ys" using ys len assms(2) by (auto dest: in_set_takeD)
  ultimately show ?thesis using d ys by auto
qed

lemma two_not_all: "{i} \<noteq> {0..<NBUF}"
proof
  assume "{i} = {0..<NBUF}"
  then have "card {i} = card {0..<NBUF}" by simp
  then show False by (simp add: NBUF_def MAXOPBLOCKS_def)
qed

lemma none_not_all: "{} \<noteq> {0..<NBUF}"
  by (simp add: NBUF_def MAXOPBLOCKS_def)

lemma two_reads:
  assumes ok: "cache_ok s c xs {}" and lh: "l \<noteq> h"
    and r: "unat l < length (k_disk s)" "unat h < length (k_disk s)"
  obtains i j t u where "bread 1 l s = Inr (i, t)" and "bread 1 h t = Inr (j, u)" and "i < NBUF" and "j < NBUF"
    and "i \<noteq> j" and "cache_ok u c xs {i, j}" and "cache_step s u" and "holds_block u l i" and "holds_block u h j"
    and "b_data (bufs u ! i) = view s l" and "\<And>k. k \<noteq> i \<Longrightarrow> k \<noteq> j \<Longrightarrow> bufs u ! k = bufs s ! k"
    and "\<And>b. pinned u b \<Longrightarrow> pinned s b" and "\<forall>k. dirty (bufs u ! k) \<longrightarrow> dirty (bufs s ! k)"
    and "dirty_before s xs m \<Longrightarrow> m < NBUF \<Longrightarrow> pinned s h \<Longrightarrow>
      (\<forall>b. view u b = view s b \<and> pinned u b = pinned s b)"
proof -
  from ok r(1) none_not_all obtain i t where 1: "bread 1 l s = Inr (i, t)" "i < NBUF" "cache_ok t c xs {i}"
    "cache_step s t" "holds_block t l i" "b_data (bufs t ! i) = view s l" "\<And>j. j \<noteq> i \<Longrightarrow> bufs t ! j = bufs s ! j"
    and c1: "holds_block s l i \<and> b_flags (bufs t ! i) = b_flags (bufs s ! i) \<or>
      b_flags (bufs t ! i) = B_VALID \<and> (\<forall>j < NBUF. \<not> holds_block s l j) \<and>
      (b_dev (bufs s ! i) = 1 \<and> b_blockno (bufs s ! i) = l \<and> b_flags (bufs s ! i) = 0 \<or> find (\<lambda>i. i \<notin> {}) (rev xs) = Some i)"
    by (rule bread_spec [where H = "{}"]) auto
  have r2: "unat h < length (k_disk t)" using r(2) cache_stepD(2) [OF 1(4)] by simp
  from 1(5) lh have new: "\<And>k. k \<in> {i} \<Longrightarrow> b_blockno (bufs t ! k) \<noteq> h" by (simp add: holds_block_def)
  from 1(3) r2 two_not_all new obtain j u where 2: "bread 1 h t = Inr (j, u)" "j < NBUF" "j \<notin> {i}"
    "cache_ok u c xs (insert j {i})" "cache_step t u" "holds_block u h j" "b_data (bufs u ! j) = view t h"
    "\<And>k. k \<noteq> j \<Longrightarrow> bufs u ! k = bufs t ! k"
    and c2: "holds_block t h j \<and> b_flags (bufs u ! j) = b_flags (bufs t ! j) \<or>
      b_flags (bufs u ! j) = B_VALID \<and> (\<forall>k < NBUF. \<not> holds_block t h k) \<and>
      (b_dev (bufs t ! j) = 1 \<and> b_blockno (bufs t ! j) = h \<and> b_flags (bufs t ! j) = 0 \<or> find (\<lambda>k. k \<notin> {i}) (rev xs) = Some j)"
    by (rule bread_spec [where H = "{i}"]) auto
  have ui: "bufs u ! i = bufs t ! i" using 2(3,8) by auto
  have p1: "pinned t b \<Longrightarrow> pinned s b" for b using 1(5,7,2) c1 by (rule bread_not_pinned)
  have p2: "pinned u b \<Longrightarrow> pinned t b" for b using 2(6,8,2) c2 by (rule bread_not_pinned)
  have keep: "\<forall>b. view u b = view s b \<and> pinned u b = pinned s b"
    if "dirty_before s xs m" "m < NBUF" "pinned s h"
  proof -
    have "\<not> dirty (bufs s ! i)" if "find (\<lambda>i. i \<notin> {}) (rev xs) = Some i"
      using last_not_before [OF cache_okD(3) [OF ok] \<open>m < NBUF\<close> that] \<open>dirty_before s xs m\<close> 1(2)
      by (auto simp: dirty_before_def)
    with c1 have c1': "holds_block s l i \<and> b_flags (bufs t ! i) = b_flags (bufs s ! i) \<or>
      b_flags (bufs t ! i) = B_VALID \<and> (\<forall>j < NBUF. \<not> holds_block s l j) \<and> \<not> dirty (bufs s ! i)"
      by (auto simp: dirty_def)
    note k1 = bread_keeps [OF ok 1(3,2) _ 1(4,5,6,7) c1']
    have "pinned t h" using k1(2) [of h] that(3) by simp
    then have "\<exists>k < NBUF. holds_block t h k" by (auto simp: pinned_def)
    with c2 have c2': "holds_block t h j \<and> b_flags (bufs u ! j) = b_flags (bufs t ! j) \<or>
      b_flags (bufs u ! j) = B_VALID \<and> (\<forall>k < NBUF. \<not> holds_block t h k) \<and> \<not> dirty (bufs t ! j)" by auto
    note k2 = bread_keeps [OF 1(3) 2(4,2,3,5,6,7,8) c2']
    show ?thesis using k1 k2 by simp
  qed
  show ?thesis
  proof (rule that [OF 1(1) 2(1) 1(2) 2(2)])
    show "i \<noteq> j" "cache_ok u c xs {i, j}" using 2(3,4) by (auto simp: insert_commute)
    show "cache_step s u" using 1(4) 2(5) by (rule cache_step_trans)
    show "holds_block u l i" "b_data (bufs u ! i) = view s l" using 1(5,6) ui by (simp_all add: holds_block_def)
    show "holds_block u h j" by (rule 2(6))
    show "bufs u ! k = bufs s ! k" if "k \<noteq> i" "k \<noteq> j" for k using 1(7) 2(8) that by simp
    show "pinned s b" if "pinned u b" for b using p1 p2 that by blast
    have d1: "dirty (bufs t ! k) \<longrightarrow> dirty (bufs s ! k)" for k using c1 1(7) [of k] by (cases "k = i") (auto simp: dirty_def)
    have d2: "dirty (bufs u ! k) \<longrightarrow> dirty (bufs t ! k)" for k using c2 2(8) [of k] by (cases "k = j") (auto simp: dirty_def)
    show "\<forall>k. dirty (bufs u ! k) \<longrightarrow> dirty (bufs s ! k)" using d1 d2 by blast
    show "\<forall>b. view u b = view s b \<and> pinned u b = pinned s b" if "dirty_before s xs m" "m < NBUF" "pinned s h"
      using keep [OF that] .
  qed
qed

section \<open>Writing a block out\<close>

lemma write_out:
  assumes ok: "cache_ok u c xs {x, y}" and xy: "x \<noteq> y" and d: "length d = BSIZE" and hb: "holds_block u b x"
    and cl: "b_flags (bufs u ! y) = B_VALID \<longrightarrow> b_data (bufs u ! y) = k_disk u ! unat (b_blockno (bufs u ! y))"
  obtains t where
    "bindM (set_bdata x d) (\<lambda>_. bindM (bwrite x) (\<lambda>_. bindM (brelse y) (\<lambda>_. brelse x))) u = Inr ((), t)"
    and "cache_ok t c (x # remove1 x (y # remove1 y xs)) {}" and "k_log t = k_log u"
    and "k_disk t = (k_disk u)[unat b := d]" and "k_writes t = k_writes u @ [(unat b, d)]"
    and "content (bufs t ! x) = (B_VALID, 1, b, d)"
    and "\<forall>k < NBUF. k \<noteq> x \<longrightarrow> content (bufs t ! k) = content (bufs u ! k)"
proof -
  have x: "x \<in> {x, y}" and y: "y \<in> {x, y}" and N: "x < NBUF" "y < NBUF" using cache_okD(4) [OF ok] by auto
  have len: "length (bufs u) = NBUF" using cache_okD(10) [OF ok] .
  define v where "v = buf_upd x (\<lambda>b. b\<lparr>b_data := d\<rparr>) u"
  have sv: "set_bdata x d u = Inr ((), v)" and okv: "cache_ok v c xs {x, y}"
    using set_bdata_spec [OF ok x d] by (simp_all add: v_def)
  have vx: "b_blockno (bufs v ! x) = b" "b_data (bufs v ! x) = d" "k_disk v = k_disk u"
    using N len hb by (simp_all add: v_def holds_block_def)
  define w where "w = disk_write (unat b) d (buf_upd x (\<lambda>b. b\<lparr>b_flags := B_VALID\<rparr>) v)"
  have bw: "bwrite x v = Inr ((), w)" and okw: "cache_ok w c xs {x, y}" and bl: "unat b < length (k_disk u)"
    using bwrite_spec [OF okv x] by (simp_all add: w_def vx)
  have wx: "content (bufs w ! x) = (B_VALID, 1, b, d)"
    using N len hb by (simp add: w_def v_def content_def holds_block_def)
  have wk: "bufs w ! k = bufs u ! k" if "k \<noteq> x" for k using that by (simp add: w_def v_def)
  have yb: "b_flags (bufs u ! y) = B_VALID \<Longrightarrow> unat (b_blockno (bufs u ! y)) \<noteq> unat b"
  proof
    assume "b_flags (bufs u ! y) = B_VALID" and "unat (b_blockno (bufs u ! y)) = unat b"
    then have "b_dev (bufs u ! y) = 1" and "b_blockno (bufs u ! y) = b"
      using cache_okD(6) [OF ok N(2)] by (auto simp: buf_shape_def) (simp add: word_unat_eq_iff)
    with one_eachD [OF cache_okD(9) [OF ok], of x y] N len hb xy show False by (simp add: holds_block_def)
  qed
  have clw: "b_data (bufs w ! y) = k_disk w ! unat (b_blockno (bufs w ! y))" if "b_flags (bufs w ! y) = B_VALID"
    using cl yb that xy by (simp add: wk w_def v_def)
  obtain t1 where 1: "brelse y w = Inr ((), t1)" "cache_ok t1 c (y # remove1 y xs) ({x, y} - {y})"
    "cache_step w t1" "\<forall>j < NBUF. content (bufs t1 ! j) = content (bufs w ! j)"
    by (rule brelse_spec [OF okw y clw])
  have ok1: "cache_ok t1 c (y # remove1 y xs) {x}" using 1(2) xy by (simp add: insert_Diff_if)
  have cl1: "b_data (bufs t1 ! x) = k_disk t1 ! unat (b_blockno (bufs t1 ! x))"
    using 1(4) N(1) wx cache_stepD(2) [OF 1(3)] bl by (simp add: content_def w_def v_def)
  obtain t where 2: "brelse x t1 = Inr ((), t)" "cache_ok t c (x # remove1 x (y # remove1 y xs)) ({x} - {x})"
    "cache_step t1 t" "\<forall>j < NBUF. content (bufs t ! j) = content (bufs t1 ! j)"
    by (rule brelse_spec [OF ok1 singletonI cl1])
  note st = cache_stepD [OF cache_step_trans [OF 1(3) 2(3)]]
  show ?thesis
  proof (rule that)
    show "bindM (set_bdata x d) (\<lambda>_. bindM (bwrite x) (\<lambda>_. bindM (brelse y) (\<lambda>_. brelse x))) u = Inr ((), t)"
      using sv bw 1(1) 2(1) by (simp add: bindM_def)
    show "cache_ok t c (x # remove1 x (y # remove1 y xs)) {}" using 2(2) by simp
    show "k_log t = k_log u" "k_disk t = (k_disk u)[unat b := d]" "k_writes t = k_writes u @ [(unat b, d)]"
      by (simp_all add: st w_def v_def)
    show "content (bufs t ! x) = (B_VALID, 1, b, d)" using 1(4) 2(4) N(1) wx by simp
    show "\<forall>k < NBUF. k \<noteq> x \<longrightarrow> content (bufs t ! k) = content (bufs u ! k)"
      using 1(4) 2(4) wk by simp
  qed
qed

lemma write_out_sees:
  assumes ok: "cache_ok u c xs {x, y}" and ok': "cache_ok t c ys {}" and x: "x < NBUF" and hb: "holds_block u b x"
    and k: "k_disk t = (k_disk u)[unat b := d]" and cx: "content (bufs t ! x) = (B_VALID, 1, b, d)"
    and co': "\<forall>k < NBUF. k \<noteq> x \<longrightarrow> content (bufs t ! k) = content (bufs u ! k)"
  shows "view t b = d" and "clean_block t b" and "b' \<noteq> b \<Longrightarrow> view t b' = view u b'"
    and "b' \<noteq> b \<Longrightarrow> pinned t b' = pinned u b'"
proof -
  have co: "\<And>k. k < NBUF \<Longrightarrow> k \<noteq> x \<Longrightarrow> content (bufs t ! k) = content (bufs u ! k)" using co' by blast
  have hx: "holds_block t b' x \<longleftrightarrow> b' = b" "holds_block u b' x \<longleftrightarrow> b' = b" for b'
    using cx hb by (auto simp: content_def holds_block_def)
  have hk: "holds_block t b' j = holds_block u b' j" if "j < NBUF" for b' j
    using hx [of b'] content_holds [OF co [OF that], of b'] by (cases "j = x") simp_all
  show "view t b = d" using view_cached [OF ok' x, of b] hx cx by (simp add: content_def)
  have "\<not> dirty (bufs t ! j)" if "j < NBUF" "holds_block t b j" for j
  proof -
    have "j = x"
      using one_eachD [OF cache_okD(9) [OF ok'], of j x] cache_okD(10) [OF ok'] x that cx
      by (simp add: holds_block_def content_def)
    with cx show ?thesis by (simp add: content_def dirty_def)
  qed
  then show "clean_block t b" by (simp add: clean_block_def)
  assume b': "b' \<noteq> b"
  show "view t b' = view u b'"
  proof (cases "\<exists>j < NBUF. holds_block u b' j")
    case True
    then obtain j where j: "j < NBUF" "holds_block u b' j" by blast
    with hx b' have "j \<noteq> x" by auto
    with co [OF j(1)] view_cached [OF ok j] view_cached [OF ok' j(1)] hk j show ?thesis by (simp add: content_def)
  next
    case False
    have "unat b' \<noteq> unat b" using b' by (simp add: word_unat_eq_iff)
    with False hk k show ?thesis by (simp add: view_uncached)
  qed
  have "holds_block t b' j \<and> dirty (bufs t ! j) \<longleftrightarrow> holds_block u b' j \<and> dirty (bufs u ! j)" if "j < NBUF" for j
    using hx [of b'] b' content_holds [OF co [OF that], of b'] content_dirty [OF co [OF that]]
    by (cases "j = x") simp_all
  then show "pinned t b' = pinned u b'" by (auto simp: pinned_def)
qed

section \<open>One round of the loops\<close>

definition log_blk :: "logst \<Rightarrow> nat \<Rightarrow> u32" where
  "log_blk lg k = lg_start lg + of_nat k + 1"

lemma view_length:
  assumes "cache_ok s c xs H" and "unat b < length (k_disk s)"
  shows "length (view s b) = BSIZE"
proof (cases "\<exists>i < NBUF. holds_block s b i")
  case True
  then obtain i where i: "i < NBUF" "holds_block s b i" by blast
  with view_cached [OF assms(1) i] cache_okD(6) [OF assms(1) i(1)] show ?thesis by (simp add: buf_shape_def)
next
  case False
  then have "view s b = k_disk s ! unat b" by (intro view_uncached) blast
  with assms cache_okD(5) [OF assms(1)] show ?thesis by simp
qed

lemma pinned_range: "cache_ok s c xs H \<Longrightarrow> pinned s b \<Longrightarrow> unat b < length (k_disk s)"
  using cache_okD(6) by (fastforce simp: pinned_def holds_block_def buf_shape_def)

lemma write_log_round:
  fixes s :: kernel and k :: nat
  defines "l \<equiv> log_blk (k_log s) k" and "h \<equiv> lh_block (k_log s) ! k"
  assumes ok: "cache_ok s c xs {}" and dev: "lg_dev (k_log s) = 1" and db: "dirty_before s xs m" "m < NBUF"
    and l: "unat l < length (k_disk s)" and h: "pinned s h" and lh: "l \<noteq> h"
  obtains t ys where "write_log_loop (k # ks) s = write_log_loop ks t" and "cache_ok t c ys {}"
    and "dirty_before t ys (Suc m)" and "k_log t = k_log s" and "k_disk t = (k_disk s)[unat l := view s h]"
    and "k_writes t = k_writes s @ [(unat l, view s h)]" and "clean_block t l" and "view t l = view s h"
    and "\<forall>b. b \<noteq> l \<longrightarrow> view t b = view s b" and "\<forall>b. b \<noteq> l \<longrightarrow> pinned t b = pinned s b"
proof -
  have hr: "unat h < length (k_disk s)" using pinned_range [OF ok h] .
  obtain i j t0 u where r: "bread 1 l s = Inr (i, t0)" "bread 1 h t0 = Inr (j, u)" "i < NBUF" "j < NBUF" "i \<noteq> j"
    "cache_ok u c xs {i, j}" "cache_step s u" "holds_block u l i" "holds_block u h j"
    "\<And>k. k \<noteq> i \<Longrightarrow> k \<noteq> j \<Longrightarrow> bufs u ! k = bufs s ! k" "\<And>b. pinned u b \<Longrightarrow> pinned s b"
    "\<forall>k. dirty (bufs u ! k) \<longrightarrow> dirty (bufs s ! k)"
    and "dirty_before s xs m \<Longrightarrow> m < NBUF \<Longrightarrow> pinned s h \<Longrightarrow>
      (\<forall>b. view u b = view s b \<and> pinned u b = pinned s b)"
    by (rule two_reads [OF ok lh l hr]) (rule that)
  with db h have see: "\<And>b. view u b = view s b" "\<And>b. pinned u b = pinned s b" by blast+
  have vj: "b_data (bufs u ! j) = view s h" using view_cached [OF r(6,4,9)] see(1) by simp
  have "pinned u h" using see(2) h by simp
  then obtain j' where j': "j' < NBUF" "holds_block u h j'" "dirty (bufs u ! j')" by (auto simp: pinned_def)
  have "j' = j" using holder_unique [OF r(6) j'(1) r(4) j'(2) r(9)] .
  with j'(3) have dj: "dirty (bufs u ! j)" by simp
  then have cl: "b_flags (bufs u ! j) = B_VALID \<longrightarrow> b_data (bufs u ! j) = k_disk u ! unat (b_blockno (bufs u ! j))"
    by (simp add: dirty_def)
  obtain t where t: "bindM (set_bdata i (view s h)) (\<lambda>_. bindM (bwrite i) (\<lambda>_. bindM (brelse j) (\<lambda>_. brelse i))) u = Inr ((), t)"
    "cache_ok t c (i # remove1 i (j # remove1 j xs)) {}" "k_log t = k_log u" "k_disk t = (k_disk u)[unat l := view s h]"
    "k_writes t = k_writes u @ [(unat l, view s h)]" "content (bufs t ! i) = (B_VALID, 1, l, view s h)"
    "\<forall>k < NBUF. k \<noteq> i \<longrightarrow> content (bufs t ! k) = content (bufs u ! k)"
    by (rule write_out [OF r(6,5) view_length [OF ok hr] r(8) cl])
  note sees = write_out_sees [OF r(6) t(2) r(3,8) t(4,6,7)]
  let ?m = "bindM (set_bdata i (view s h)) (\<lambda>_. bindM (bwrite i) (\<lambda>_. bindM (brelse j) (\<lambda>_. brelse i)))"
  have "write_log_loop (k # ks) s = bindM ?m (\<lambda>_. write_log_loop ks) u"
    using r(1,2) vj dev by (simp add: l_def h_def log_blk_def run_bindM_Inr run_getM bdata_def bindM_assoc)
  with run_bindM_Inr [of ?m u "()" t] t(1) have run: "write_log_loop (k # ks) s = write_log_loop ks t" by simp
  have dist: "distinct xs" using cache_okD(3) [OF ok] by (simp add: ring_def linked_list_def)
  have jm: "j \<in> set (take m xs)" using dj r(4,12) db(1) by (simp add: dirty_before_def)
  have "d \<in> set (take (Suc m) (i # remove1 i (j # remove1 j xs)))" if "d < NBUF" "dirty (bufs t ! d)" for d
  proof -
    have "d \<noteq> i" using that(2) t(6) by (auto simp: dirty_def content_def)
    then have "dirty (bufs s ! d)" using content_dirty [of "bufs t ! d" "bufs u ! d"] t(7) that r(12) by simp
    then have "d \<in> set (take m xs)" using that(1) db(1) by (simp add: dirty_before_def)
    from in_take_swap [OF this jm dist] show ?thesis by (rule in_take_front)
  qed
  then have before: "dirty_before t (i # remove1 i (j # remove1 j xs)) (Suc m)" by (simp add: dirty_before_def)
  note cs = cache_stepD [OF r(7)]
  have views: "\<forall>b. b \<noteq> l \<longrightarrow> view t b = view s b" "\<forall>b. b \<noteq> l \<longrightarrow> pinned t b = pinned s b"
    using sees(3,4) see by simp_all
  show ?thesis
    by (rule that [OF run t(2) before _ _ _ sees(2,1) views]) (simp_all add: t(3,4,5) cs)
qed

lemma install_round:
  fixes s :: kernel and k :: nat
  defines "l \<equiv> log_blk (k_log s) k" and "h \<equiv> lh_block (k_log s) ! k"
  assumes ok: "cache_ok s c xs {}" and dev: "lg_dev (k_log s) = 1"
    and l: "unat l < length (k_disk s)" and hr: "unat h < length (k_disk s)" and lh: "l \<noteq> h" and cl: "clean_block s l"
  obtains t ys where "install_loop (k # ks) s = install_loop ks t" and "cache_ok t c ys {}"
    and "k_log t = k_log s" and "k_disk t = (k_disk s)[unat h := k_disk s ! unat l]"
    and "k_writes t = k_writes s @ [(unat h, k_disk s ! unat l)]" and "\<forall>b. clean_block s b \<longrightarrow> clean_block t b"
proof -
  obtain i j t0 u where r: "bread 1 l s = Inr (i, t0)" "bread 1 h t0 = Inr (j, u)" "i < NBUF" "j < NBUF" "i \<noteq> j"
    "cache_ok u c xs {i, j}" "cache_step s u" "holds_block u l i" "holds_block u h j"
    "b_data (bufs u ! i) = view s l"
    "\<And>k. k \<noteq> i \<Longrightarrow> k \<noteq> j \<Longrightarrow> bufs u ! k = bufs s ! k" "\<And>b. pinned u b \<Longrightarrow> pinned s b"
    by (rule two_reads [OF ok lh l hr]) (rule that)
  define d where "d = k_disk s ! unat l"
  have vl: "view s l = d" using view_clean [OF ok cl] by (simp add: d_def)
  note cs = cache_stepD [OF r(7)]
  have ok2: "cache_ok u c xs {j, i}" using r(6) by (simp add: insert_commute)
  have dl: "length d = BSIZE" using view_length [OF ok l] vl by simp
  have cl': "b_flags (bufs u ! i) = B_VALID \<longrightarrow> b_data (bufs u ! i) = k_disk u ! unat (b_blockno (bufs u ! i))"
    using r(8,10) vl by (simp add: holds_block_def d_def cs)
  obtain t where t: "bindM (set_bdata j d) (\<lambda>_. bindM (bwrite j) (\<lambda>_. bindM (brelse i) (\<lambda>_. brelse j))) u = Inr ((), t)"
    "cache_ok t c (j # remove1 j (i # remove1 i xs)) {}" "k_log t = k_log u" "k_disk t = (k_disk u)[unat h := d]"
    "k_writes t = k_writes u @ [(unat h, d)]" "content (bufs t ! j) = (B_VALID, 1, h, d)"
    "\<forall>k < NBUF. k \<noteq> j \<longrightarrow> content (bufs t ! k) = content (bufs u ! k)"
    by (rule write_out [OF ok2 r(5) [symmetric] dl r(9) cl'])
  note sees = write_out_sees [OF ok2 t(2) r(4,9) t(4,6,7)]
  let ?m = "bindM (set_bdata j d) (\<lambda>_. bindM (bwrite j) (\<lambda>_. bindM (brelse i) (\<lambda>_. brelse j)))"
  have "install_loop (k # ks) s = bindM ?m (\<lambda>_. install_loop ks) u"
    using r(1,2,10) vl dev by (simp add: l_def h_def log_blk_def run_bindM_Inr run_getM bdata_def bindM_assoc)
  with run_bindM_Inr [of ?m u "()" t] t(1) have run: "install_loop (k # ks) s = install_loop ks t" by simp
  have clean: "\<forall>b. clean_block s b \<longrightarrow> clean_block t b"
  proof (intro allI impI)
    fix b
    assume "clean_block s b"
    then have "\<not> pinned u b" using r(12) by (auto simp: clean_iff)
    then show "clean_block t b" using sees(2) sees(4) [of b] by (cases "b = h") (auto simp: clean_iff)
  qed
  show ?thesis by (rule that [OF run t(2) _ _ _ clean]) (simp_all add: t(3,4,5) cs d_def)
qed

section \<open>The loops\<close>

definition apply_writes :: "(nat \<times> u8 list) list \<Rightarrow> u8 list list \<Rightarrow> u8 list list" where
  "apply_writes ws d = fold (\<lambda>(b, x) d. d[b := x]) ws d"

lemma apply_writes_simps [simp]:
  "apply_writes [] d = d" "apply_writes ((b, x) # ws) d = apply_writes ws (d[b := x])"
  "apply_writes (ws @ vs) d = apply_writes vs (apply_writes ws d)"
  by (simp_all add: apply_writes_def)

lemma length_apply_writes [simp]: "length (apply_writes ws d) = length d"
  by (induction ws arbitrary: d) auto

lemma apply_writes_other: "b \<notin> fst ` set ws \<Longrightarrow> apply_writes ws d ! b = d ! b"
  by (induction ws arbitrary: d) (auto simp: nth_upd)

lemma apply_writes_one:
  assumes "distinct (map fst ws)" and "(b, x) \<in> set ws" and "b < length d"
  shows "apply_writes ws d ! b = x"
  using assms
proof (induction ws arbitrary: d)
  case Nil
  then show ?case by simp
next
  case (Cons w ws)
  show ?case
  proof (cases "w = (b, x)")
    case True
    with Cons.prems have "b \<notin> fst ` set ws" by simp
    with True Cons.prems(3) show ?thesis by (simp add: apply_writes_other)
  next
    case False
    with Cons.prems have "(b, x) \<in> set ws" "distinct (map fst ws)" by auto
    with Cons.IH [of "d[fst w := snd w]"] Cons.prems(3) show ?thesis by (cases w) simp
  qed
qed

text \<open>The log fits on the disk; its \<open>n\<close> blocks have their homes outside it.\<close>

definition log_fits :: "kernel \<Rightarrow> nat \<Rightarrow> bool" where
  "log_fits s n \<longleftrightarrow>
     lg_dev (k_log s) = 1 \<and> unat (lg_start (k_log s)) + LOGSIZE < length (k_disk s) \<and> length (k_disk s) \<le> 2 ^ 32 \<and>
     n \<le> LOGSIZE \<and> length (lh_block (k_log s)) = LOGSIZE \<and>
     (\<forall>k < n. unat (lh_block (k_log s) ! k) < length (k_disk s) \<and>
        unat (lh_block (k_log s) ! k) \<notin> {unat (lg_start (k_log s))..unat (lg_start (k_log s)) + LOGSIZE})"

definition homes :: "kernel \<Rightarrow> nat \<Rightarrow> nat" where
  "homes s k = unat (lh_block (k_log s) ! k)"

lemma unat_log_blk:
  assumes "log_fits s n" and "k < LOGSIZE"
  shows "unat (log_blk (k_log s) k) = unat (lg_start (k_log s)) + k + 1"
proof -
  have b: "unat (lg_start (k_log s)) + k + 1 < 2 ^ 32" using assms by (simp add: log_fits_def)
  then have "k < 2 ^ 32" by simp
  then have k: "unat (of_nat k :: u32) = k" by (simp add: unat_of_nat)
  have "unat (lg_start (k_log s) + of_nat k) = unat (lg_start (k_log s)) + k"
    using b k by (subst unat_add_u32) simp_all
  then show ?thesis unfolding log_blk_def using b by (subst unat_add_u32) simp_all
qed

lemma log_blk_facts:
  assumes "log_fits s n" and "k < n"
  shows "unat (log_blk (k_log s) k) < length (k_disk s)" and "j < n \<Longrightarrow> log_blk (k_log s) k \<noteq> lh_block (k_log s) ! j"
    and "j < n \<Longrightarrow> log_blk (k_log s) k = log_blk (k_log s) j \<longleftrightarrow> k = j" and "log_blk (k_log s) k \<noteq> lg_start (k_log s)"
proof -
  have kL: "k < LOGSIZE" using assms by (simp add: log_fits_def)
  note u = unat_log_blk [OF assms(1) kL]
  show "unat (log_blk (k_log s) k) < length (k_disk s)" using u kL assms(1) by (simp add: log_fits_def)
  show "log_blk (k_log s) k \<noteq> lg_start (k_log s)"
  proof
    assume "log_blk (k_log s) k = lg_start (k_log s)"
    then have "unat (log_blk (k_log s) k) = unat (lg_start (k_log s))" by (simp only:)
    with u show False by linarith
  qed
  assume "j < n"
  then have jL: "j < LOGSIZE" using assms by (simp add: log_fits_def)
  have "unat (lh_block (k_log s) ! j) \<notin> {unat (lg_start (k_log s))..unat (lg_start (k_log s)) + LOGSIZE}"
    using assms(1) \<open>j < n\<close> by (simp only: log_fits_def) blast
  moreover have "unat (log_blk (k_log s) k) \<in> {unat (lg_start (k_log s))..unat (lg_start (k_log s)) + LOGSIZE}"
    using u kL by simp
  ultimately show "log_blk (k_log s) k \<noteq> lh_block (k_log s) ! j" by metis
  show "log_blk (k_log s) k = log_blk (k_log s) j \<longleftrightarrow> k = j"
  proof
    assume "log_blk (k_log s) k = log_blk (k_log s) j"
    then have "unat (log_blk (k_log s) k) = unat (log_blk (k_log s) j)" by (simp only:)
    with u unat_log_blk [OF assms(1) jL] show "k = j" by linarith
  qed simp
qed

definition wrote :: "kernel \<Rightarrow> (nat \<times> u8 list) list \<Rightarrow> kernel \<Rightarrow> bool" where
  "wrote s ws t \<longleftrightarrow> k_log t = k_log s \<and> k_writes t = k_writes s @ ws \<and> k_disk t = apply_writes ws (k_disk s)"

lemma wrote_trans: "wrote s ws t \<Longrightarrow> wrote t vs u \<Longrightarrow> wrote s (ws @ vs) u"
  by (simp add: wrote_def)

lemma log_fits_wrote: "wrote s ws t \<Longrightarrow> log_fits t n = log_fits s n"
  by (simp add: wrote_def log_fits_def)

definition log_copies :: "kernel \<Rightarrow> nat \<Rightarrow> nat \<Rightarrow> (nat \<times> u8 list) list" where
  "log_copies s k n = map (\<lambda>j. (unat (log_blk (k_log s) j), view s (lh_block (k_log s) ! j))) [k..<n]"

lemma write_log_run:
  assumes "cache_ok s c xs {}" and "log_fits s n" and "dirty_before s xs m" and "m + (n - k) \<le> NBUF" and "k \<le> n"
    and "\<forall>j. k \<le> j \<and> j < n \<longrightarrow> pinned s (lh_block (k_log s) ! j)"
  shows "\<exists>t ys. write_log_loop [k..<n] s = Inr ((), t) \<and> cache_ok t c ys {} \<and> wrote s (log_copies s k n) t \<and>
    (\<forall>j. k \<le> j \<and> j < n \<longrightarrow> clean_block t (log_blk (k_log s) j)) \<and>
    (\<forall>b. (\<forall>j. k \<le> j \<and> j < n \<longrightarrow> b \<noteq> log_blk (k_log s) j) \<longrightarrow> pinned t b = pinned s b)"
  using assms
proof (induction "n - k" arbitrary: k s xs m)
  case 0
  then have "k = n" by simp
  with 0 show ?case by (auto simp: retM_def wrote_def log_copies_def)
next
  case (Suc d)
  then have kn: "k < n" and mN: "m < NBUF" by auto
  let ?l = "log_blk (k_log s)" and ?h = "\<lambda>j. lh_block (k_log s) ! j"
  note lf = log_blk_facts [OF Suc.prems(2)]
  have dev: "lg_dev (k_log s) = 1" using Suc.prems(2) by (simp add: log_fits_def)
  have pk: "pinned s (?h k)" using Suc.prems(6) kn by blast
  have rest: "[k..<n] = k # [Suc k..<n]" using kn by (rule upt_conv_Cons)
  obtain t ys where t: "write_log_loop (k # [Suc k..<n]) s = write_log_loop [Suc k..<n] t" "cache_ok t c ys {}"
    "dirty_before t ys (Suc m)" "k_log t = k_log s" "k_disk t = (k_disk s)[unat (?l k) := view s (?h k)]"
    "k_writes t = k_writes s @ [(unat (?l k), view s (?h k))]" "clean_block t (?l k)" "view t (?l k) = view s (?h k)"
    "\<forall>b. b \<noteq> ?l k \<longrightarrow> view t b = view s b" "\<forall>b. b \<noteq> ?l k \<longrightarrow> pinned t b = pinned s b"
    by (rule write_log_round [OF Suc.prems(1) dev Suc.prems(3) mN lf(1) [OF kn] pk lf(2) [OF kn kn]])
  have w1: "wrote s [(unat (?l k), view s (?h k))] t" using t(4,5,6) by (simp add: wrote_def)
  have fits: "log_fits t n" using Suc.prems(2) log_fits_wrote [OF w1] by simp
  have hl: "?h j \<noteq> ?l k" if "j < n" for j using lf(2) [OF kn that] by (rule not_sym)
  have "d = n - Suc k" and "Suc m + (n - Suc k) \<le> NBUF" and "Suc k \<le> n" using Suc.hyps(2) Suc.prems(4) kn by simp_all
  moreover have "\<forall>j. Suc k \<le> j \<and> j < n \<longrightarrow> pinned t (lh_block (k_log t) ! j)"
    using Suc.prems(6) t(4,10) hl by simp
  ultimately obtain u zs where u: "write_log_loop [Suc k..<n] t = Inr ((), u)" "cache_ok u c zs {}"
    "wrote t (log_copies t (Suc k) n) u" "\<forall>j. Suc k \<le> j \<and> j < n \<longrightarrow> clean_block u (?l j)"
    "\<forall>b. (\<forall>j. Suc k \<le> j \<and> j < n \<longrightarrow> b \<noteq> ?l j) \<longrightarrow> pinned u b = pinned t b"
    using Suc.hyps(1) [of "Suc k" t ys "Suc m"] t(2,3) fits unfolding t(4) by blast
  have cp: "log_copies t (Suc k) n = log_copies s (Suc k) n"
    using t(4,9) hl by (simp add: log_copies_def)
  have "log_copies s k n = [(unat (?l k), view s (?h k))] @ log_copies s (Suc k) n"
    unfolding log_copies_def rest by simp
  with wrote_trans [OF w1 u(3)] have w: "wrote s (log_copies s k n) u" by (simp only: cp)
  have lne: "?l k \<noteq> ?l j" if "Suc k \<le> j" "j < n" for j using lf(3) [OF kn that(2)] that by simp
  have "clean_block u (?l k)" using u(5) lne t(7) by (simp add: clean_iff)
  then have cl: "\<forall>j. k \<le> j \<and> j < n \<longrightarrow> clean_block u (?l j)" using u(4) by (metis Suc_leI le_neq_implies_less)
  have "\<forall>b. (\<forall>j. k \<le> j \<and> j < n \<longrightarrow> b \<noteq> ?l j) \<longrightarrow> pinned u b = pinned s b"
    using u(5) t(10) kn by (metis Suc_leD le_refl)
  with t(1) rest u(1,2) w cl show ?case by metis
qed

definition installs :: "kernel \<Rightarrow> nat \<Rightarrow> nat \<Rightarrow> (nat \<times> u8 list) list" where
  "installs s k n = map (\<lambda>j. (homes s j, k_disk s ! unat (log_blk (k_log s) j))) [k..<n]"

lemma install_run:
  assumes "cache_ok s c xs {}" and "log_fits s n" and "k \<le> n"
    and "\<forall>j. k \<le> j \<and> j < n \<longrightarrow> clean_block s (log_blk (k_log s) j)"
  shows "\<exists>t ys. install_loop [k..<n] s = Inr ((), t) \<and> cache_ok t c ys {} \<and> wrote s (installs s k n) t \<and>
    (\<forall>b. clean_block s b \<longrightarrow> clean_block t b)"
  using assms
proof (induction "n - k" arbitrary: k s xs)
  case 0
  then have "k = n" by simp
  with 0 show ?case by (auto simp: retM_def wrote_def installs_def)
next
  case (Suc d)
  then have kn: "k < n" by auto
  let ?l = "log_blk (k_log s)" and ?h = "\<lambda>j. lh_block (k_log s) ! j"
  note lf = log_blk_facts [OF Suc.prems(2)]
  have dev: "lg_dev (k_log s) = 1" and hr: "unat (?h k) < length (k_disk s)"
    using Suc.prems(2) kn by (simp_all add: log_fits_def)
  have ck: "clean_block s (?l k)" using Suc.prems(4) kn by blast
  have rest: "[k..<n] = k # [Suc k..<n]" using kn by (rule upt_conv_Cons)
  obtain t ys where t: "install_loop (k # [Suc k..<n]) s = install_loop [Suc k..<n] t" "cache_ok t c ys {}"
    "k_log t = k_log s" "k_disk t = (k_disk s)[unat (?h k) := k_disk s ! unat (?l k)]"
    "k_writes t = k_writes s @ [(unat (?h k), k_disk s ! unat (?l k))]" "\<forall>b. clean_block s b \<longrightarrow> clean_block t b"
    by (rule install_round [OF Suc.prems(1) dev lf(1) [OF kn] hr lf(2) [OF kn kn] ck])
  have w1: "wrote s [(homes s k, k_disk s ! unat (?l k))] t" using t(3,4,5) by (simp add: wrote_def homes_def)
  have fits: "log_fits t n" using Suc.prems(2) log_fits_wrote [OF w1] by simp
  have hl: "unat (?h k) \<noteq> unat (?l j)" if "j < n" for j using lf(2) [OF that kn] by (metis word_unat_eq_iff)
  have "d = n - Suc k" and "Suc k \<le> n" using Suc.hyps(2) kn by simp_all
  moreover have "\<forall>j. Suc k \<le> j \<and> j < n \<longrightarrow> clean_block t (log_blk (k_log t) j)"
    using Suc.prems(4) t(3,6) by simp
  ultimately obtain u zs where u: "install_loop [Suc k..<n] t = Inr ((), u)" "cache_ok u c zs {}"
    "wrote t (installs t (Suc k) n) u" "\<forall>b. clean_block t b \<longrightarrow> clean_block u b"
    using Suc.hyps(1) [of "Suc k" t ys] t(2) fits by blast
  have cp: "installs t (Suc k) n = installs s (Suc k) n"
    using t(3,4) hl by (simp add: installs_def homes_def)
  have "installs s k n = [(homes s k, k_disk s ! unat (?l k))] @ installs s (Suc k) n"
    unfolding installs_def rest by simp
  with wrote_trans [OF w1 u(3)] have w: "wrote s (installs s k n) u" by (simp only: cp)
  from t(1,6) rest u(1,2,4) w show ?case by metis
qed

text \<open>Writing a single block.\<close>

lemma one_write:
  assumes ok: "cache_ok s c xs {}" and b: "unat b < length (k_disk s)" and f: "\<And>d. length (f d) = length d"
  shows "\<exists>t ys. bindM (bread 1 b) (\<lambda>i. bindM (bdata i) (\<lambda>d. bindM (set_bdata i (f d)) (\<lambda>_. bindM (bwrite i) (\<lambda>_. brelse i)))) s =
      Inr ((), t) \<and> cache_ok t c ys {} \<and> wrote s [(unat b, f (view s b))] t \<and> clean_block t b \<and>
    (\<forall>b'. clean_block s b' \<longrightarrow> clean_block t b')"
proof -
  obtain i u where r: "bread 1 b s = Inr (i, u)" "i < NBUF" "i \<notin> {}" "cache_ok u c xs {i}" "cache_step s u"
    "holds_block u b i" "b_data (bufs u ! i) = view s b" "\<And>j. j \<noteq> i \<Longrightarrow> bufs u ! j = bufs s ! j"
    "holds_block s b i \<and> b_flags (bufs u ! i) = b_flags (bufs s ! i) \<or> b_flags (bufs u ! i) = B_VALID \<and>
      (\<forall>j < NBUF. \<not> holds_block s b j) \<and> (b_dev (bufs s ! i) = 1 \<and> b_blockno (bufs s ! i) = b \<and> b_flags (bufs s ! i) = 0 \<or> find (\<lambda>i. i \<notin> {}) (rev xs) = Some i)"
    using bread_spec [OF ok b none_not_all] by auto
  define d where "d = f (view s b)"
  have dl: "length d = BSIZE" using f view_length [OF ok b] by (simp add: d_def)
  define v where "v = buf_upd i (\<lambda>b. b\<lparr>b_data := d\<rparr>) u"
  have sv: "set_bdata i d u = Inr ((), v)" and okv: "cache_ok v c xs {i}"
    using set_bdata_spec [OF r(4) singletonI dl] by (simp_all add: v_def)
  have len: "length (bufs u) = NBUF" using cache_okD(10) [OF r(4)] .
  have vx: "b_blockno (bufs v ! i) = b" "b_data (bufs v ! i) = d" "k_disk v = k_disk u"
    using r(2,6) len by (simp_all add: v_def holds_block_def)
  define w where "w = disk_write (unat b) d (buf_upd i (\<lambda>b. b\<lparr>b_flags := B_VALID\<rparr>) v)"
  have bw: "bwrite i v = Inr ((), w)" and okw: "cache_ok w c xs {i}" and bl: "unat b < length (k_disk u)"
    using bwrite_spec [OF okv singletonI] by (simp_all add: w_def vx)
  have wi: "content (bufs w ! i) = (B_VALID, 1, b, d)"
    using r(2,6) len by (simp add: w_def v_def content_def holds_block_def)
  have cl: "b_data (bufs w ! i) = k_disk w ! unat (b_blockno (bufs w ! i))"
    using wi bl by (simp add: content_def w_def v_def)
  obtain t where t: "brelse i w = Inr ((), t)" "cache_ok t c (i # remove1 i xs) ({i} - {i})" "cache_step w t"
    "\<forall>j < NBUF. content (bufs t ! j) = content (bufs w ! j)"
    by (rule brelse_spec [OF okw singletonI cl])
  have run: "bindM (bread 1 b) (\<lambda>i. bindM (bdata i) (\<lambda>d. bindM (set_bdata i (f d)) (\<lambda>_. bindM (bwrite i) (\<lambda>_. brelse i)))) s = Inr ((), t)"
    using r(1,7) sv bw t(1) by (simp add: bindM_def bdata_def getM_def d_def)
  have wr: "wrote s [(unat b, d)] t"
    by (simp add: wrote_def cache_stepD [OF t(3)] w_def v_def cache_stepD [OF r(5)])
  have okt: "cache_ok t c (i # remove1 i xs) {}" using t(2) by simp
  have pin: "pinned t b' \<Longrightarrow> pinned s b' \<and> b' \<noteq> b" for b'
  proof -
    assume "pinned t b'"
    then obtain j where j: "j < NBUF" "holds_block t b' j" "dirty (bufs t ! j)" by (auto simp: pinned_def)
    have ji: "j \<noteq> i" using j(3) t(4) r(2) wi by (auto simp: dirty_def content_def)
    have co: "content (bufs t ! j) = content (bufs s ! j)" using t(4) j(1) ji r(8) [OF ji] by (simp add: w_def v_def)
    have "holds_block s b' j" "dirty (bufs s ! j)"
      using j(2,3) content_holds [OF co, of b'] content_dirty [OF co] by simp_all
    moreover have "b' \<noteq> b"
    proof
      assume "b' = b"
      moreover have "holds_block t b i" using t(4) r(2) wi by (auto simp: content_def holds_block_def)
      ultimately show False using holder_unique [OF okt j(1) r(2) j(2)] ji by simp
    qed
    ultimately show ?thesis using j(1) by (auto simp: pinned_def)
  qed
  have "clean_block t b" and "\<forall>b'. clean_block s b' \<longrightarrow> clean_block t b'" using pin by (auto simp: clean_iff)
  with run okt wr show ?thesis unfolding d_def by blast
qed

lemma length_head_encode [simp]: "length (head_encode n bs d) = length d"
proof -
  have "length (fold (\<lambda>i. put32 (4 + 4 * i) (bs ! i)) is x) = length x" for "is" x
    by (induction "is" arbitrary: x) auto
  then show ?thesis by (simp add: head_encode_def)
qed

lemma write_head_run:
  assumes ok: "cache_ok s c xs {}" and fits: "log_fits s n"
  shows "\<exists>t ys. write_head s = Inr ((), t) \<and> cache_ok t c ys {} \<and>
    wrote s [(unat (lg_start (k_log s)), head_encode (lh_n (k_log s)) (lh_block (k_log s)) (view s (lg_start (k_log s))))] t \<and>
    clean_block t (lg_start (k_log s)) \<and> (\<forall>b. clean_block s b \<longrightarrow> clean_block t b)"
proof -
  let ?lg = "k_log s"
  have "unat (lg_start ?lg) < length (k_disk s)" and dev: "lg_dev ?lg = 1" using fits by (simp_all add: log_fits_def)
  from one_write [OF ok this(1), of "head_encode (lh_n ?lg) (lh_block ?lg)"] show ?thesis
    by (simp add: write_head_def run_bindM_Inr run_getM dev)
qed

section \<open>The header block\<close>

lemma get32_fold_put32:
  assumes "\<And>i. i \<in> set is \<Longrightarrow> 8 + 4 * i \<le> length d" and "8 + 4 * k \<le> length d"
  shows "get32 (fold (\<lambda>i. put32 (4 + 4 * i) (f i)) is d) (4 + 4 * k) = (if k \<in> set is then f k else get32 d (4 + 4 * k))"
    and "get32 (fold (\<lambda>i. put32 (4 + 4 * i) (f i)) is d) 0 = get32 d 0"
proof -
  have "get32 (fold (\<lambda>i. put32 (4 + 4 * i) (f i)) is d) (4 + 4 * k) = (if k \<in> set is then f k else get32 d (4 + 4 * k)) \<and>
      get32 (fold (\<lambda>i. put32 (4 + 4 * i) (f i)) is d) 0 = get32 d 0"
    using assms
  proof (induction "is" arbitrary: d)
    case Nil
    then show ?case by simp
  next
    case (Cons i "is")
    let ?d = "put32 (4 + 4 * i) (f i) d"
    have i: "8 + 4 * i \<le> length d" using Cons.prems(1) by simp
    have "get32 ?d (4 + 4 * k) = (if k = i then f i else get32 d (4 + 4 * k))"
    proof (cases "k = i")
      case False
      then have "4 + 4 * i + 4 \<le> 4 + 4 * k \<or> 4 + 4 * k + 4 \<le> 4 + 4 * i" by linarith
      with i Cons.prems(2) False get32_put32_other [of "4 + 4 * i" d "4 + 4 * k" "f i"] show ?thesis by simp
    qed (use i get32_put32 [of "4 + 4 * i" d "f i"] in simp)
    moreover have "get32 ?d 0 = get32 d 0" using i by (intro get32_put32_other) auto
    ultimately show ?case using Cons.IH [of ?d] Cons.prems by auto
  qed
  then show "get32 (fold (\<lambda>i. put32 (4 + 4 * i) (f i)) is d) (4 + 4 * k) = (if k \<in> set is then f k else get32 d (4 + 4 * k))"
    and "get32 (fold (\<lambda>i. put32 (4 + 4 * i) (f i)) is d) 0 = get32 d 0" by simp_all
qed

lemma head_decode:
  assumes "length d = BSIZE" and "sint n = int m" and "m \<le> LOGSIZE"
  shows "get32 (head_encode n bs d) 0 = n" and "k < m \<Longrightarrow> get32 (head_encode n bs d) (4 + 4 * k) = bs ! k"
proof -
  have L: "8 + 4 * i \<le> length (put32 0 n d)" if "i < LOGSIZE" for i
    using that assms(1) by (simp add: BSIZE_def LOGSIZE_def MAXOPBLOCKS_def)
  have b: "8 + 4 * i \<le> length (put32 0 n d)" if "i \<in> set (loop_n n)" for i
    using that assms(2,3) by (intro L) (simp add: loop_n_def)
  show "get32 (head_encode n bs d) 0 = n"
    unfolding head_encode_def using get32_fold_put32(2) [where ?is = "loop_n n" and d = "put32 0 n d" and k = 0 and f = "\<lambda>i. bs ! i"] b L [of 0] get32_put32 [of 0 d n] assms(1)
    by (simp add: LOGSIZE_def MAXOPBLOCKS_def BSIZE_def)
  assume "k < m"
  then show "get32 (head_encode n bs d) (4 + 4 * k) = bs ! k"
    unfolding head_encode_def using get32_fold_put32(1) [where ?is = "loop_n n" and d = "put32 0 n d" and k = k and f = "\<lambda>i. bs ! i"] b L [of k] assms(2,3)
    by (simp add: loop_n_def)
qed

section \<open>Commit\<close>

lemma cache_ok_log [simp]: "cache_ok (s\<lparr>k_log := l\<rparr>) c xs H = cache_ok s c xs H"
  by (simp add: cache_ok_def at_rest_def)

lemma clean_block_log [simp]: "clean_block (s\<lparr>k_log := l\<rparr>) b = clean_block s b"
  by (simp add: clean_block_def holds_block_def)

text \<open>The blocks that a commit writes, in order; \<open>x\<close> and \<open>y\<close> are what the header block held before.\<close>

definition commit_writes :: "kernel \<Rightarrow> nat \<Rightarrow> u8 list \<Rightarrow> u8 list \<Rightarrow> (nat \<times> u8 list) list" where
  "commit_writes s n x y =
     log_copies s 0 n @
     (unat (lg_start (k_log s)), head_encode (lh_n (k_log s)) (lh_block (k_log s)) x) #
     map (\<lambda>j. (homes s j, view s (lh_block (k_log s) ! j))) [0..<n] @
     [(unat (lg_start (k_log s)), head_encode 0 (lh_block (k_log s)) y)]"

lemma log_copies_disk:
  assumes "log_fits s n" and "j < n"
  shows "apply_writes (log_copies s 0 n) (k_disk s) ! unat (log_blk (k_log s) j) = view s (lh_block (k_log s) ! j)"
proof (rule apply_writes_one)
  have "inj_on (\<lambda>j. unat (log_blk (k_log s) j)) {0..<n}"
    using log_blk_facts(3) [OF assms(1)] by (intro inj_onI) (metis atLeastLessThan_iff word_unat_eq_iff)
  then show "distinct (map fst (log_copies s 0 n))" by (simp add: log_copies_def comp_def distinct_map)
  show "(unat (log_blk (k_log s) j), view s (lh_block (k_log s) ! j)) \<in> set (log_copies s 0 n)"
    using assms(2) by (auto simp: log_copies_def)
  show "unat (log_blk (k_log s) j) < length (k_disk s)" using log_blk_facts(1) [OF assms] .
qed

lemma commit_run:
  assumes ok: "cache_ok s c xs {}" and fits: "log_fits s n" and nn: "sint (lh_n (k_log s)) = int n" and "0 < n"
    and db: "dirty_before s xs (NBUF - n)" and pin: "\<forall>j < n. pinned s (lh_block (k_log s) ! j)"
  shows "\<exists>t ys x y. commit s = Inr ((), t) \<and> cache_ok t c ys {} \<and> k_log t = (k_log s)\<lparr>lh_n := 0\<rparr> \<and>
    length x = BSIZE \<and> length y = BSIZE \<and> k_writes t = k_writes s @ commit_writes s n x y \<and>
    k_disk t = apply_writes (commit_writes s n x y) (k_disk s)"
proof -
  let ?lg = "k_log s" and ?st = "lg_start (k_log s)"
  have loop: "loop_n (lh_n ?lg) = [0..<n]" using nn by (simp add: loop_n_def)
  have nN: "n \<le> NBUF" using fits by (simp add: log_fits_def LOGSIZE_def NBUF_def)
  have stl: "unat ?st < length (k_disk s)" using fits by (simp add: log_fits_def)
  obtain t1 y1 where 1: "write_log_loop [0..<n] s = Inr ((), t1)" "cache_ok t1 c y1 {}" "wrote s (log_copies s 0 n) t1"
    "\<forall>j. 0 \<le> j \<and> j < n \<longrightarrow> clean_block t1 (log_blk ?lg j)"
    using write_log_run [OF ok fits db, of 0] nN pin by auto
  have fits1: "log_fits t1 n" and lg1: "k_log t1 = ?lg" using fits log_fits_wrote [OF 1(3)] 1(3) by (simp_all add: wrote_def)
  obtain t2 y2 where 2: "write_head t1 = Inr ((), t2)" "cache_ok t2 c y2 {}"
    "wrote t1 [(unat ?st, head_encode (lh_n ?lg) (lh_block ?lg) (view t1 ?st))] t2" "\<forall>b. clean_block t1 b \<longrightarrow> clean_block t2 b"
    using write_head_run [OF 1(2) fits1] unfolding lg1 by blast
  have fits2: "log_fits t2 n" and lg2: "k_log t2 = ?lg" using fits1 log_fits_wrote [OF 2(3)] 2(3) lg1 by (simp_all add: wrote_def)
  have cl2: "\<forall>j. 0 \<le> j \<and> j < n \<longrightarrow> clean_block t2 (log_blk (k_log t2) j)" using 1(4) 2(4) lg2 by simp
  obtain t3 y3 where 3: "install_loop [0..<n] t2 = Inr ((), t3)" "cache_ok t3 c y3 {}" "wrote t2 (installs t2 0 n) t3"
    using install_run [OF 2(2) fits2 _ cl2] by auto
  have lg3: "k_log t3 = ?lg" using 3(3) lg2 by (simp add: wrote_def)
  define t4 where "t4 = t3\<lparr>k_log := ?lg\<lparr>lh_n := 0\<rparr>\<rparr>"
  have fits4: "log_fits t4 0"
    using fits2 log_fits_wrote [OF 3(3), of n] lg3 by (simp add: log_fits_def t4_def)
  have ok4: "cache_ok t4 c y3 {}" using 3(2) by (simp add: t4_def)
  obtain t5 y5 where 5: "write_head t4 = Inr ((), t5)" "cache_ok t5 c y5 {}"
    "wrote t4 [(unat ?st, head_encode 0 (lh_block ?lg) (view t4 ?st))] t5"
    using write_head_run [OF ok4 fits4] by (auto simp: t4_def)
  have run: "commit s = Inr ((), t5)"
    using nn \<open>0 < n\<close> 1(1) 2(1) 3(1) 5(1) loop lg2 lg3
    by (simp add: commit_def write_log_def install_trans_def bindM_def getM_def log_upd_def modM_def t4_def)
  have ins: "installs t2 0 n = map (\<lambda>j. (homes s j, view s (lh_block ?lg ! j))) [0..<n]"
  proof -
    have "k_disk t2 ! unat (log_blk ?lg j) = view s (lh_block ?lg ! j)" if "j < n" for j
    proof -
      have "unat ?st \<noteq> unat (log_blk ?lg j)" using log_blk_facts(4) [OF fits that] by (metis word_unat_eq_iff)
      with log_copies_disk [OF fits that] 1(3) 2(3) show ?thesis by (simp add: wrote_def)
    qed
    then show ?thesis by (simp add: installs_def lg2 homes_def)
  qed
  have w: "k_writes t5 = k_writes s @ commit_writes s n (view t1 ?st) (view t4 ?st)"
    using 1(3) 2(3) 3(3) 5(3) ins by (simp add: wrote_def commit_writes_def t4_def)
  have dk: "k_disk t5 = apply_writes (commit_writes s n (view t1 ?st) (view t4 ?st)) (k_disk s)"
    using 1(3) 2(3) 3(3) 5(3) ins by (simp add: wrote_def commit_writes_def t4_def)
  have "length (view t1 ?st) = BSIZE" "length (view t4 ?st) = BSIZE"
    using view_length [OF 1(2), of ?st] view_length [OF ok4, of ?st] fits1 fits4 lg1
    by (simp_all add: log_fits_def t4_def)
  moreover have "k_log t5 = ?lg\<lparr>lh_n := 0\<rparr>" using 5(3) by (simp add: wrote_def t4_def)
  ultimately show ?thesis using run 5(2) w dk by blast
qed

section \<open>Recovery\<close>

text \<open>
  What recovery makes of a disk whose log starts at block \<open>st\<close>: every block named in the header gets
  its copy from the log, then the header is cleared.
\<close>

definition head_count :: "u8 list \<Rightarrow> nat" where
  "head_count hdr = nat (sint (get32 hdr 0))"

definition head_home :: "u8 list \<Rightarrow> nat \<Rightarrow> nat" where
  "head_home hdr k = unat (get32 hdr (4 + 4 * k))"

definition replay :: "nat \<Rightarrow> u8 list list \<Rightarrow> (nat \<times> u8 list) list" where
  "replay st d = map (\<lambda>k. (head_home (d ! st) k, d ! (st + k + 1))) [0..<head_count (d ! st)]"

definition recovered :: "nat \<Rightarrow> u8 list list \<Rightarrow> u8 list list" where
  "recovered st d = (apply_writes (replay st d) d)[st := put32 0 0 (d ! st)]"

definition head_ok :: "nat \<Rightarrow> u8 list list \<Rightarrow> bool" where
  "head_ok st d \<longleftrightarrow>
     0 \<le> sint (get32 (d ! st) 0) \<and> head_count (d ! st) \<le> LOGSIZE \<and>
     (\<forall>k < head_count (d ! st). head_home (d ! st) k < length d \<and> head_home (d ! st) k \<notin> {st..st + LOGSIZE})"

text \<open>A machine that has just started: nothing in the cache is dirty, the log parameters are set.\<close>

definition boots :: "kernel \<Rightarrow> nat \<Rightarrow> nat list \<Rightarrow> bool" where
  "boots s c xs \<longleftrightarrow> cache_ok s c xs {} \<and> (\<forall>b. clean_block s b) \<and> log_fits s 0"

lemma fold_list_update:
  "length (fold (\<lambda>i bs. bs[i := f i]) [0..<n] bs) = length bs"
  "k < length bs \<Longrightarrow> fold (\<lambda>i bs. bs[i := f i]) [0..<n] bs ! k = (if k < n then f k else bs ! k)"
proof -
  have *: "length (fold (\<lambda>i bs. bs[i := f i]) [0..<n] bs) = length bs" for n by (induction n) auto
  then show "length (fold (\<lambda>i bs. bs[i := f i]) [0..<n] bs) = length bs" .
  show "k < length bs \<Longrightarrow> fold (\<lambda>i bs. bs[i := f i]) [0..<n] bs ! k = (if k < n then f k else bs ! k)"
    by (induction n) (auto simp: * nth_upd less_Suc_eq)
qed

lemma read_head_run:
  assumes b: "boots s c xs" and h: "head_ok (unat (lg_start (k_log s))) (k_disk s)"
  defines "hdr \<equiv> k_disk s ! unat (lg_start (k_log s))"
  shows "\<exists>t ys. read_head s = Inr ((), t) \<and> cache_ok t c ys {} \<and> k_disk t = k_disk s \<and> k_writes t = k_writes s \<and>
    k_log t = (k_log s)\<lparr>lh_n := get32 hdr 0,
      lh_block := fold (\<lambda>i bs. bs[i := get32 hdr (4 + 4 * i)]) [0..<head_count hdr] (lh_block (k_log s))\<rparr> \<and>
    (\<forall>b. clean_block t b)"
proof -
  let ?lg = "k_log s" and ?st = "lg_start (k_log s)"
  have ok: "cache_ok s c xs {}" and cl: "\<And>b. clean_block s b" and fits: "log_fits s 0" using b by (simp_all add: boots_def)
  have stl: "unat ?st < length (k_disk s)" and dev: "lg_dev ?lg = 1" using fits by (simp_all add: log_fits_def)
  obtain i u where r: "bread 1 ?st s = Inr (i, u)" "i < NBUF" "i \<notin> {}" "cache_ok u c xs {i}" "cache_step s u"
    "holds_block u ?st i" "b_data (bufs u ! i) = view s ?st" "\<And>j. j \<noteq> i \<Longrightarrow> bufs u ! j = bufs s ! j"
    "holds_block s ?st i \<and> b_flags (bufs u ! i) = b_flags (bufs s ! i) \<or> b_flags (bufs u ! i) = B_VALID \<and>
      (\<forall>j < NBUF. \<not> holds_block s ?st j) \<and> (b_dev (bufs s ! i) = 1 \<and> b_blockno (bufs s ! i) = ?st \<and> b_flags (bufs s ! i) = 0 \<or> find (\<lambda>i. i \<notin> {}) (rev xs) = Some i)"
    using bread_spec [OF ok stl none_not_all] by auto
  have hdr: "b_data (bufs u ! i) = hdr" using r(7) view_clean [OF ok cl] by (simp add: hdr_def)
  note cs = cache_stepD [OF r(5)]
  define l where "l = ?lg\<lparr>lh_n := get32 hdr 0,
      lh_block := fold (\<lambda>i bs. bs[i := get32 hdr (4 + 4 * i)]) [0..<head_count hdr] (lh_block ?lg)\<rparr>"
  define v where "v = u\<lparr>k_log := l\<rparr>"
  have okv: "cache_ok v c xs {i}" using r(4) by (simp add: v_def)
  have clv: "b_data (bufs v ! i) = k_disk v ! unat (b_blockno (bufs v ! i))"
    using hdr r(6) by (simp add: v_def hdr_def holds_block_def cs)
  obtain t where t: "brelse i v = Inr ((), t)" "cache_ok t c (i # remove1 i xs) ({i} - {i})" "cache_step v t"
    "\<forall>j < NBUF. content (bufs t ! j) = content (bufs v ! j)"
    by (rule brelse_spec [OF okv singletonI clv])
  note ct = cache_stepD [OF t(3)]
  have le: "sint (get32 hdr 0) \<le> int LOGSIZE"
    using h unfolding head_ok_def head_count_def hdr_def by (meson nat_le_iff)
  have loop: "loop_n (get32 hdr 0) = [0..<head_count hdr]" by (simp add: loop_n_def head_count_def)
  have run: "read_head s = Inr ((), t)"
    using r(1) hdr t(1) le loop
    by (simp add: read_head_def bindM_def getM_def bdata_def dev log_upd_def modM_def assertM_def v_def l_def cs)
  have "\<not> pinned t b" for b
  proof -
    have "pinned t b = pinned v b" using t(4) by (intro pinned_content) simp
    moreover have "pinned v b = pinned u b" by (simp add: v_def pinned_def holds_block_def)
    moreover have "\<not> pinned u b" using bread_not_pinned [OF r(6,8,2,9), of b] cl by (auto simp: clean_iff)
    ultimately show ?thesis by simp
  qed
  then have "\<forall>b. clean_block t b" by (simp add: clean_iff)
  moreover have "cache_ok t c (i # remove1 i xs) {}" using t(2) by simp
  moreover have "k_disk t = k_disk s" "k_writes t = k_writes s" "k_log t = l" by (simp_all add: ct v_def cs)
  ultimately show ?thesis using run unfolding l_def by blast
qed

lemma recover_run:
  assumes b: "boots s c xs" and h: "head_ok (unat (lg_start (k_log s))) (k_disk s)"
  shows "\<exists>t ys. recover_from_log s = Inr ((), t) \<and> cache_ok t c ys {} \<and> (\<forall>b. clean_block t b) \<and>
    k_disk t = recovered (unat (lg_start (k_log s))) (k_disk s) \<and> lh_n (k_log t) = 0"
proof -
  let ?lg = "k_log s" and ?st = "lg_start (k_log s)"
  define hdr where "hdr = k_disk s ! unat ?st"
  define n where "n = head_count hdr"
  have fits: "log_fits s 0" and ok: "cache_ok s c xs {}" using b by (simp_all add: boots_def)
  obtain t1 y1 where 1: "read_head s = Inr ((), t1)" "cache_ok t1 c y1 {}" "k_disk t1 = k_disk s" "k_writes t1 = k_writes s"
    "k_log t1 = ?lg\<lparr>lh_n := get32 hdr 0, lh_block := fold (\<lambda>i bs. bs[i := get32 hdr (4 + 4 * i)]) [0..<n] (lh_block ?lg)\<rparr>"
    "\<forall>b. clean_block t1 b"
    using read_head_run [OF b h] unfolding hdr_def n_def by blast
  have nL: "n \<le> LOGSIZE" and n0: "0 \<le> sint (get32 hdr 0)" using h by (simp_all add: head_ok_def hdr_def n_def)
  have st1: "lg_start (k_log t1) = ?st" by (simp add: 1(5))
  have hb: "lh_block (k_log t1) ! k = get32 hdr (4 + 4 * k)" if "k < n" for k
    using that nL fits by (simp add: 1(5) fold_list_update log_fits_def)
  have fits1: "log_fits t1 n"
    using fits nL h hb by (simp add: log_fits_def 1(3) head_ok_def hdr_def [symmetric] n_def [symmetric] head_home_def)
      (simp add: 1(5) fold_list_update)
  obtain t2 y2 where 2: "install_loop [0..<n] t1 = Inr ((), t2)" "cache_ok t2 c y2 {}" "wrote t1 (installs t1 0 n) t2"
    "\<forall>b. clean_block t1 b \<longrightarrow> clean_block t2 b"
    using install_run [OF 1(2) fits1, of 0] 1(6) by blast
  have ins: "installs t1 0 n = replay (unat ?st) (k_disk s)"
    using unat_log_blk [OF fits1] nL hb
    by (simp add: installs_def replay_def homes_def head_home_def hdr_def [symmetric] n_def [symmetric] 1(3) st1)
  have ow: "apply_writes (replay (unat ?st) (k_disk s)) (k_disk s) ! unat ?st = hdr"
    using h by (subst apply_writes_other) (auto simp: replay_def head_ok_def hdr_def)
  define t3 where "t3 = t2\<lparr>k_log := (k_log t2)\<lparr>lh_n := 0\<rparr>\<rparr>"
  have lg2: "k_log t2 = k_log t1" using 2(3) by (simp add: wrote_def)
  have ok3: "cache_ok t3 c y2 {}" and fits3: "log_fits t3 0" and cl3: "\<forall>b. clean_block t3 b"
    using 2 fits1 log_fits_wrote [OF 2(3), of n] 1(6) by (simp_all add: t3_def log_fits_def)
  obtain t4 y4 where 4: "write_head t3 = Inr ((), t4)" "cache_ok t4 c y4 {}"
    "wrote t3 [(unat ?st, head_encode 0 (lh_block (k_log t3)) (view t3 ?st))] t4" "\<forall>b. clean_block t3 b \<longrightarrow> clean_block t4 b"
    using write_head_run [OF ok3 fits3] by (auto simp: t3_def lg2 st1)
  have "view t3 ?st = hdr"
    using view_clean [OF ok3] cl3 2(3) 1(3) ins ow by (simp add: t3_def wrote_def)
  then have he: "head_encode 0 (lh_block (k_log t3)) (view t3 ?st) = put32 0 0 hdr"
    by (simp add: head_encode_def loop_n_def)
  have "k_disk t4 = recovered (unat ?st) (k_disk s)"
    using 4(3) 2(3) he by (simp add: wrote_def t3_def 1(3) ins recovered_def hdr_def)
  moreover have "recover_from_log s = Inr ((), t4)"
  proof -
    have "loop_n (lh_n (k_log t1)) = [0..<n]" by (simp add: loop_n_def 1(5) n_def head_count_def)
    then show ?thesis
      using 1(1) 2(1) 4(1)
      by (simp add: recover_from_log_def install_trans_def bindM_def getM_def log_upd_def modM_def t3_def)
  qed
  moreover have "lh_n (k_log t4) = 0" using 4(3) by (simp add: wrote_def t3_def)
  ultimately show ?thesis using 4(2,4) cl3 by blast
qed

section \<open>Crashes\<close>

text \<open>Equal disks, but for the blocks of the log.\<close>

definition fs_same :: "nat \<Rightarrow> u8 list list \<Rightarrow> u8 list list \<Rightarrow> bool" where
  "fs_same st d d' \<longleftrightarrow> length d = length d' \<and> (\<forall>b < length d. b \<notin> {st..st + LOGSIZE} \<longrightarrow> d ! b = d' ! b)"

text \<open>The blocks of a transaction in their homes.\<close>

definition home_writes :: "kernel \<Rightarrow> nat \<Rightarrow> (nat \<times> u8 list) list" where
  "home_writes s n = map (\<lambda>j. (homes s j, view s (lh_block (k_log s) ! j))) [0..<n]"

definition committed :: "kernel \<Rightarrow> nat \<Rightarrow> u8 list list" where
  "committed s n = apply_writes (home_writes s n) (k_disk s)"

lemma fs_same_writes: "fst ` set ws \<subseteq> {st..st + LOGSIZE} \<Longrightarrow> fs_same st (apply_writes ws d) d"
  by (auto simp: fs_same_def intro!: apply_writes_other)

lemma fs_same_head: "fs_same st (d[st := h]) d' = fs_same st d d'"
  by (auto simp: fs_same_def nth_upd)

lemma fs_same_trans: "fs_same st a b \<Longrightarrow> fs_same st b c \<Longrightarrow> fs_same st a c"
  by (simp add: fs_same_def)

lemma apply_writes_base:
  assumes "length d = length e" and "b < length d" and "b \<in> fst ` set ws \<or> d ! b = e ! b"
  shows "apply_writes ws d ! b = apply_writes ws e ! b"
  using assms
proof (induction ws arbitrary: d e)
  case Nil
  then show ?case by simp
next
  case (Cons w ws)
  obtain k x where w: "w = (k, x)" by force
  have "b \<in> fst ` set ws \<or> d[k := x] ! b = e[k := x] ! b" using Cons.prems by (auto simp: w nth_upd)
  with Cons.IH [of "d[k := x]" "e[k := x]"] Cons.prems show ?case by (simp add: w)
qed

lemma fs_same_apply:
  assumes "fs_same st d e"
  shows "fs_same st (apply_writes ws d) (apply_writes ws e)"
  using assms by (auto simp: fs_same_def intro!: apply_writes_base)

lemma apply_writes_again:
  assumes "b < length d"
  shows "apply_writes ws (apply_writes (take m ws) d) ! b = apply_writes ws d ! b"
proof (rule apply_writes_base)
  show "b \<in> fst ` set ws \<or> apply_writes (take m ws) d ! b = d ! b"
    using apply_writes_other [of b "take m ws" d] set_take_subset [of m ws] by blast
qed (use assms in simp_all)

lemma log_copies_area:
  assumes "log_fits s n"
  shows "fst ` set (log_copies s 0 n) \<subseteq> {Suc (unat (lg_start (k_log s)))..unat (lg_start (k_log s)) + LOGSIZE}"
proof -
  have "unat (log_blk (k_log s) j) = unat (lg_start (k_log s)) + j + 1" if "j < n" for j
    using unat_log_blk [OF assms, of j] that assms by (simp add: log_fits_def)
  moreover have "n \<le> LOGSIZE" using assms by (simp add: log_fits_def)
  ultimately show ?thesis by (auto simp: log_copies_def)
qed

lemma home_writes_area:
  assumes "log_fits s n"
  shows "fst ` set (home_writes s n) \<inter> {unat (lg_start (k_log s))..unat (lg_start (k_log s)) + LOGSIZE} = {}"
  using assms by (auto simp: home_writes_def homes_def log_fits_def)

text \<open>A disk on which the header has been written, and any part of the installation.\<close>

lemma crash_after_head:
  fixes m :: nat
  assumes fits: "log_fits s n" and nn: "sint (lh_n (k_log s)) = int n" and x: "length x = BSIZE"
  defines "st \<equiv> unat (lg_start (k_log s))" and "hdr \<equiv> head_encode (lh_n (k_log s)) (lh_block (k_log s)) x"
  defines "d \<equiv> apply_writes (take m (home_writes s n)) ((apply_writes (log_copies s 0 n) (k_disk s))[st := hdr])"
  shows "head_ok st d" and "fs_same st (recovered st d) (committed s n)"
proof -
  define e where "e = (apply_writes (log_copies s 0 n) (k_disk s))[st := hdr]"
  have nL: "n \<le> LOGSIZE" and sl: "st + LOGSIZE < length (k_disk s)" using fits by (simp_all add: log_fits_def st_def)
  have le: "length e = length (k_disk s)" "length d = length (k_disk s)" by (simp_all add: e_def d_def)
  have area: "b \<notin> fst ` set (take m (home_writes s n))" if "b \<in> {st..st + LOGSIZE}" for b
    using home_writes_area [OF fits] that set_take_subset [of m "home_writes s n"] unfolding st_def by blast
  have de: "d ! b = e ! b" if "b \<in> {st..st + LOGSIZE}" for b
    unfolding d_def e_def [symmetric] using area [OF that] by (rule apply_writes_other)
  have hd: "d ! st = hdr" using de [of st] sl by (simp add: e_def)
  have cnt: "head_count hdr = n" and n0: "0 \<le> sint (get32 hdr 0)"
    using head_decode(1) [OF x nn nL] nn by (simp_all add: hdr_def head_count_def)
  have home: "head_home hdr k = homes s k" if "k < n" for k
    using head_decode(2) [OF x nn nL that] by (simp add: hdr_def head_home_def homes_def)
  have inr: "homes s k < length (k_disk s) \<and> homes s k \<notin> {st..st + LOGSIZE}" if "k < n" for k
    using fits that by (simp add: log_fits_def homes_def st_def)
  show "head_ok st d" using cnt n0 nL home inr le by (simp add: head_ok_def hd)
  have copy: "d ! (st + k + 1) = view s (lh_block (k_log s) ! k)" if "k < n" for k
  proof -
    have u: "unat (log_blk (k_log s) k) = st + k + 1" using unat_log_blk [OF fits, of k] that nL by (simp add: st_def)
    have "d ! (st + k + 1) = e ! (st + k + 1)" using that nL by (intro de) auto
    also have "\<dots> = view s (lh_block (k_log s) ! k)" using log_copies_disk [OF fits that] u by (simp add: e_def)
    finally show ?thesis .
  qed
  have rp: "replay st d = home_writes s n"
    using home copy by (simp add: replay_def hd cnt home_writes_def)
  have "fs_same st (apply_writes (log_copies s 0 n) (k_disk s)) (k_disk s)"
    using log_copies_area [OF fits] by (intro fs_same_writes) (auto simp: st_def)
  then have es: "fs_same st e (k_disk s)" by (simp add: e_def fs_same_head)
  have "fs_same st (apply_writes (home_writes s n) d) (apply_writes (home_writes s n) e)"
    using apply_writes_again [of _ e "home_writes s n" m] le by (auto simp: fs_same_def d_def e_def [symmetric])
  then have "fs_same st (apply_writes (home_writes s n) d) (committed s n)"
    using fs_same_apply [OF es, of "home_writes s n"] unfolding committed_def by (rule fs_same_trans)
  then show "fs_same st (recovered st d) (committed s n)" by (simp add: recovered_def rp fs_same_head)
qed

lemma crash_no_head:
  assumes "head_count (d ! st) = 0" and "sint (get32 (d ! st) 0) = 0" and "fs_same st d d'"
  shows "head_ok st d" and "fs_same st (recovered st d) d'"
  using assms by (simp_all add: head_ok_def recovered_def replay_def fs_same_head)

lemma commit_installs:
  assumes "log_fits s n"
  shows "fs_same (unat (lg_start (k_log s))) (apply_writes (commit_writes s n x y) (k_disk s)) (committed s n)"
proof -
  let ?st = "unat (lg_start (k_log s))"
  have "fs_same ?st (apply_writes (log_copies s 0 n) (k_disk s)) (k_disk s)"
    using log_copies_area [OF assms] by (intro fs_same_writes) auto
  then have "fs_same ?st ((apply_writes (log_copies s 0 n) (k_disk s))[?st := h]) (k_disk s)" for h
    by (simp add: fs_same_head)
  from fs_same_apply [OF this, of "home_writes s n"] show ?thesis
    by (simp add: commit_writes_def home_writes_def [symmetric] committed_def fs_same_head)
qed

lemma crash_recovers:
  fixes m :: nat
  assumes fits: "log_fits s n" and nn: "sint (lh_n (k_log s)) = int n" and x: "length x = BSIZE" and y: "length y = BSIZE"
  defines "st \<equiv> unat (lg_start (k_log s))"
  assumes old: "get32 (k_disk s ! st) 0 = 0"
  defines "d \<equiv> apply_writes (take m (commit_writes s n x y)) (k_disk s)"
  shows "head_ok st d \<and> (fs_same st (recovered st d) (k_disk s) \<or> fs_same st (recovered st d) (committed s n))"
proof -
  let ?A = "log_copies s 0 n" and ?B = "home_writes s n"
  let ?h = "(st, head_encode (lh_n (k_log s)) (lh_block (k_log s)) x)" and ?z = "(st, head_encode 0 (lh_block (k_log s)) y)"
  have W: "commit_writes s n x y = ?A @ ?h # ?B @ [?z]" by (simp add: commit_writes_def home_writes_def st_def)
  have lA: "length ?A = n" and lB: "length ?B = n" by (simp_all add: log_copies_def home_writes_def)
  have sl: "st + LOGSIZE < length (k_disk s)" using fits by (simp add: log_fits_def st_def)
  consider "m \<le> n" | "n < m" "m \<le> 2 * n + 1" | "2 * n + 1 < m" by linarith
  then show ?thesis
  proof cases
    case 1
    then have d: "d = apply_writes (take m ?A) (k_disk s)" by (simp add: d_def W lA)
    have "fst ` set (take m ?A) \<subseteq> {Suc st..st + LOGSIZE}"
      using log_copies_area [OF fits] set_take_subset [of m ?A] by (auto simp: st_def)
    then have "d ! st = k_disk s ! st" and "fs_same st d (k_disk s)"
      unfolding d by (auto intro!: apply_writes_other fs_same_writes)
    with crash_no_head [of d st "k_disk s"] old show ?thesis by (simp add: head_count_def)
  next
    case 2
    then have "take m (commit_writes s n x y) = ?A @ ?h # take (m - n - 1) ?B"
      by (simp add: W lA lB take_Cons' )
    then have "d = apply_writes (take (m - n - 1) ?B) ((apply_writes ?A (k_disk s))[st := snd ?h])" by (simp add: d_def)
    with crash_after_head [OF fits nn x, of "m - n - 1"] show ?thesis by (simp add: st_def)
  next
    case 3
    then have "take m (commit_writes s n x y) = commit_writes s n x y" by (simp add: W lA lB)
    then have d: "d = (apply_writes ?B ((apply_writes ?A (k_disk s))[st := snd ?h]))[st := snd ?z]" by (simp add: d_def W)
    have "fs_same st d (committed s n)"
      using commit_installs [OF fits, of x y] \<open>take m (commit_writes s n x y) = commit_writes s n x y\<close> by (simp add: d_def st_def)
    moreover have "d ! st = snd ?z" using sl by (simp add: d)
    moreover have "get32 (snd ?z) 0 = 0" using head_decode(1) [OF y, of 0 0] by simp
    ultimately show ?thesis using crash_no_head [of d st] by (simp add: head_count_def)
  qed
qed

text \<open>
  C15: The log makes a transaction atomic, when the buffer cache cannot recycle a dirty buffer of the transaction. The cache is well formed
  and no buffer of it is held; the \<open>n\<close> logged blocks fit the log and lie outside it; every logged block has its dirty buffer in
  the cache, and at least \<open>n\<close> clean buffers were used less recently than every dirty one, so that the reads of the commit recycle only
  those (for different blocks this bounds \<open>n\<close> by 15, half of the cache); the header on disk is clear. The code does not ensure the condition on the dirty buffers: no field of
  a buffer keeps \<^verbatim>\<open>bget\<close> from recycling it, see \<open>bread_evicts_dirty\<close>. Under these conditions \<^verbatim>\<open>commit\<close> returns and
  installs the \<open>n\<close> blocks; and when the machine stops after any number \<open>m\<close> of its disk writes, each of them atomic,
  \<^verbatim>\<open>recover_from_log\<close> on the next boot returns, and leaves outside the log either the old contents of all blocks or the new
  contents of all of them.
\<close>

theorem commit_crash_atomic:
  assumes ok: "cache_ok s c xs {}" and fits: "log_fits s n" and nn: "sint (lh_n (k_log s)) = int n"
    and db: "dirty_before s xs (NBUF - n)" and pin: "\<forall>j < n. pinned s (lh_block (k_log s) ! j)"
    and old: "get32 (k_disk s ! unat (lg_start (k_log s))) 0 = 0"
  shows "\<exists>t ws. commit s = Inr ((), t) \<and> k_writes t = k_writes s @ ws \<and>
    fs_same (unat (lg_start (k_log s))) (k_disk t) (committed s n) \<and>
    (\<forall>m b c' ys. boots b c' ys \<and> lg_start (k_log b) = lg_start (k_log s) \<and> k_disk b = apply_writes (take m ws) (k_disk s) \<longrightarrow>
      (\<exists>u. recover_from_log b = Inr ((), u) \<and>
        (fs_same (unat (lg_start (k_log s))) (k_disk u) (k_disk s) \<or>
         fs_same (unat (lg_start (k_log s))) (k_disk u) (committed s n))))"
proof (cases "n = 0")
  case True
  have id: "commit s = Inr ((), s)" using nn True by (simp add: commit_def bindM_def getM_def retM_def)
  have same: "committed s n = k_disk s" by (simp add: committed_def home_writes_def True)
  have "\<exists>u. recover_from_log b = Inr ((), u) \<and> fs_same (unat (lg_start (k_log s))) (k_disk u) (k_disk s)"
    if b: "boots b c' ys" and "lg_start (k_log b) = lg_start (k_log s)" and "k_disk b = k_disk s" for b c' ys
    using recover_run [OF b] that old crash_no_head [of "k_disk s" "unat (lg_start (k_log s))" "k_disk s"]
    by (auto simp: head_count_def fs_same_def)
  with id same show ?thesis by (intro exI [of _ s] exI [of _ "[]"]) (auto simp: fs_same_def)
next
  case False
  let ?st = "unat (lg_start (k_log s))"
  obtain t ys x y where t: "commit s = Inr ((), t)" "length x = BSIZE" "length y = BSIZE"
    "k_writes t = k_writes s @ commit_writes s n x y" "k_disk t = apply_writes (commit_writes s n x y) (k_disk s)"
    using commit_run [OF ok fits nn _ db pin] False by blast
  have "\<exists>u. recover_from_log b = Inr ((), u) \<and> (fs_same ?st (k_disk u) (k_disk s) \<or> fs_same ?st (k_disk u) (committed s n))"
    if b: "boots b c' ys" and st: "lg_start (k_log b) = lg_start (k_log s)"
      and d: "k_disk b = apply_writes (take m (commit_writes s n x y)) (k_disk s)" for m b c' ys
    using crash_recovers [OF fits nn t(2,3) old, of m] recover_run [OF b] unfolding st d by auto
  moreover have "fs_same ?st (k_disk t) (committed s n)"
    unfolding t(5) by (rule commit_installs [OF fits])
  ultimately show ?thesis using t(1,4) by blast
qed

text \<open>
  A process that runs alone, with one modified block in the cache: block 40, in buffer \<open>k\<close>, logged in
  the first entry of the log that starts at block 2.
\<close>

definition crash_ex :: "nat \<Rightarrow> kernel" where
  "crash_ex k =
     (kernel0 (\<lambda>_. 0) (replicate 100 (replicate 512 0)))
       \<lparr>k_sync := sync0\<lparr>cpus := cpu0\<lparr>c_proc := Some 0\<rparr> # replicate 7 cpu0\<rparr>,
        k_bcache := \<lparr>bc_buf = map (\<lambda>i. (if i = k then buf0\<lparr>b_flags := B_VALID OR B_DIRTY, b_dev := 1, b_blockno := 40,
             b_data := replicate 512 7\<rparr> else buf0)\<lparr>b_prev := if i = 0 then NBUF else i - 1, b_next := Suc i\<rparr>) [0..<NBUF],
           bc_head_prev = NBUF - 1, bc_head_next = 0\<rparr>,
        k_log := \<lparr>lg_start = 2, lg_size = 31, lg_outstanding = 0, lg_committing = True, lg_dev = 1, lh_n = 1,
          lh_block = 40 # replicate 29 0\<rparr>\<rparr>"

lemma crash_ex_buf:
  "i < NBUF \<Longrightarrow> bufs (crash_ex k) ! i = (if i = k then buf0\<lparr>b_flags := B_VALID OR B_DIRTY, b_dev := 1, b_blockno := 40,
     b_data := replicate 512 7\<rparr> else buf0)\<lparr>b_prev := if i = 0 then NBUF else i - 1, b_next := Suc i\<rparr>"
  "length (bufs (crash_ex k)) = NBUF"
  by (simp_all add: crash_ex_def)

lemma linked_up: "(\<And>i. i < n \<Longrightarrow> f i = Suc i) \<Longrightarrow> k < n \<Longrightarrow> linked f k [Suc k..<n] n"
proof (induction "n - k" arbitrary: k)
  case (Suc d)
  show ?case
  proof (cases "Suc k = n")
    case False
    then have "linked f (Suc k) [Suc (Suc k)..<n] n" using Suc by (intro Suc.hyps(1)) auto
    with False Suc.prems show ?thesis by (simp add: upt_conv_Cons)
  qed (use Suc.prems in auto)
qed simp

lemma linked_down: "(\<And>i. i < n \<Longrightarrow> f (Suc i) = i) \<Longrightarrow> f 0 = z \<Longrightarrow> linked f n (rev [0..<n]) z"
  by (induction n) auto

lemma crash_ex_ring: "ring (k_bcache (crash_ex k)) [0..<NBUF]"
proof -
  have N: "0 < NBUF" by (simp add: NBUF_def MAXOPBLOCKS_def)
  have h: "bc_head_next (k_bcache (crash_ex k)) = 0" "bc_head_prev (k_bcache (crash_ex k)) = NBUF - 1"
    by (simp_all add: crash_ex_def)
  have nx: "lnk_next (k_bcache (crash_ex k)) i = Suc i" if "i < NBUF" for i
    using that by (simp add: lnk_next_def crash_ex_buf)
  have pv: "lnk_prev (k_bcache (crash_ex k)) (Suc i) = i" if "i < NBUF" for i
    using that h by (cases "Suc i = NBUF") (auto simp: lnk_prev_def crash_ex_buf)
  have "linked (lnk_next (k_bcache (crash_ex k))) 0 [Suc 0..<NBUF] NBUF" using nx N by (rule linked_up)
  then have "linked (lnk_next (k_bcache (crash_ex k))) NBUF [0..<NBUF] NBUF"
    using N h by (simp add: upt_conv_Cons lnk_next_def)
  moreover have "linked (lnk_prev (k_bcache (crash_ex k))) NBUF (rev [0..<NBUF]) NBUF"
    using pv N by (intro linked_down) (simp_all add: lnk_prev_def crash_ex_buf)
  ultimately show ?thesis using crash_ex_buf(2) by (simp add: ring_def linked_list_def atLeast0LessThan)
qed

lemma crash_ex_rest: "at_rest (crash_ex k) 0"
  by (simp add: at_rest_def crash_ex_def kernel0_def quiet_def calm_def lock_free_def sync0_def cpu0_def find_cpu_def
      readeflags_def cur_def)

lemma crash_ex_ok: "cache_ok (crash_ex k) 0 [0..<NBUF] {}"
proof -
  have "buf_shape 100 (bufs (crash_ex k) ! i)" "buf_idle (k_disk (crash_ex k)) (bufs (crash_ex k) ! i)" if "i < NBUF" for i
    using that by (simp_all add: crash_ex_buf buf_shape_def buf_idle_def buf0_def sleeplock0_def BSIZE_def)
  moreover have "b_dev (bufs (crash_ex k) ! i) = 1 \<Longrightarrow> i < NBUF \<Longrightarrow> i = k" for i
    by (cases "i = k") (simp_all add: crash_ex_buf buf0_def)
  then have "one_each (bufs (crash_ex k))" unfolding one_each_def crash_ex_buf(2) by blast
  ultimately show ?thesis
    using crash_ex_rest crash_ex_ring
    by (simp add: cache_ok_def) (simp add: crash_ex_def kernel0_def ptab0_def NPROC_def BSIZE_def)
qed

lemma crash_ex_holds:
  "k < NBUF \<Longrightarrow> holds_block (crash_ex k) 40 k" "k < NBUF \<Longrightarrow> dirty (bufs (crash_ex k) ! k)"
  "dirty (bufs (crash_ex k) ! i) \<Longrightarrow> i < NBUF \<Longrightarrow> i = k" "b \<noteq> 40 \<Longrightarrow> i < NBUF \<Longrightarrow> b_dev (bufs (crash_ex k) ! i) = 1 \<Longrightarrow>
     b_blockno (bufs (crash_ex k) ! i) \<noteq> b"
  by (auto simp: holds_block_def crash_ex_buf dirty_def buf0_def split: if_splits)

theorem commit_crash_atomic_witness:
  "\<exists>t ws. commit (crash_ex 0) = Inr ((), t) \<and> k_writes t = ws \<and> k_disk t ! 40 = replicate 512 7 \<and>
    (\<forall>m b c ys. boots b c ys \<and> lg_start (k_log b) = 2 \<and> k_disk b = apply_writes (take m ws) (replicate 100 (replicate 512 0)) \<longrightarrow>
      (\<exists>u. recover_from_log b = Inr ((), u) \<and> k_disk u ! 40 \<in> {replicate 512 0, replicate 512 7}))"
proof -
  have lg: "k_log (crash_ex 0) = \<lparr>lg_start = 2, lg_size = 31, lg_outstanding = 0, lg_committing = True, lg_dev = 1, lh_n = 1,
      lh_block = 40 # replicate 29 0\<rparr>" and dk: "k_disk (crash_ex 0) = replicate 100 (replicate 512 0)" and wr: "k_writes (crash_ex 0) = []"
    by (simp_all add: crash_ex_def kernel0_def)
  have fits: "log_fits (crash_ex 0) 1" by (simp add: log_fits_def lg dk LOGSIZE_def MAXOPBLOCKS_def)
  have nn: "sint (lh_n (k_log (crash_ex 0))) = int 1" by (simp add: lg)
  have N: "NBUF - 1 = Suc 28" "0 < NBUF" by (simp_all add: NBUF_def MAXOPBLOCKS_def)
  have db: "dirty_before (crash_ex 0) [0..<NBUF] (NBUF - 1)"
    unfolding dirty_before_def N(1) using crash_ex_holds(3) N(2) by (auto simp: upt_conv_Cons)
  have pin: "\<forall>j < 1. pinned (crash_ex 0) (lh_block (k_log (crash_ex 0)) ! j)"
    using crash_ex_holds(1,2) N(2) by (auto simp: lg pinned_def)
  have old: "get32 (k_disk (crash_ex 0) ! unat (lg_start (k_log (crash_ex 0)))) 0 = 0"
    by (simp add: lg dk get32_def u32_le_def)
  have v: "view (crash_ex 0) 40 = replicate 512 7"
    using view_cached [OF crash_ex_ok N(2) crash_ex_holds(1) [OF N(2)]] N(2) by (simp add: crash_ex_buf)
  have new: "committed (crash_ex 0) 1 ! 40 = replicate 512 7"
    by (simp add: committed_def home_writes_def homes_def lg dk v)
  have L: "\<And>d d'. fs_same 2 d d' \<Longrightarrow> length d' = 100 \<Longrightarrow> d ! 40 = d' ! 40"
    by (simp add: fs_same_def LOGSIZE_def MAXOPBLOCKS_def)
  have len: "length (committed (crash_ex 0) 1) = 100" by (simp add: committed_def dk)
  obtain t ws where t: "commit (crash_ex 0) = Inr ((), t)" "k_writes t = k_writes (crash_ex 0) @ ws"
      "fs_same (unat (lg_start (k_log (crash_ex 0)))) (k_disk t) (committed (crash_ex 0) 1)"
    and c: "\<forall>m b c' ys. boots b c' ys \<and> lg_start (k_log b) = lg_start (k_log (crash_ex 0)) \<and>
      k_disk b = apply_writes (take m ws) (k_disk (crash_ex 0)) \<longrightarrow>
      (\<exists>u. recover_from_log b = Inr ((), u) \<and>
        (fs_same (unat (lg_start (k_log (crash_ex 0)))) (k_disk u) (k_disk (crash_ex 0)) \<or>
         fs_same (unat (lg_start (k_log (crash_ex 0)))) (k_disk u) (committed (crash_ex 0) 1)))"
    using commit_crash_atomic [OF crash_ex_ok fits nn db pin old] by blast
  have st: "unat (lg_start (k_log (crash_ex 0))) = 2" "lg_start (k_log (crash_ex 0)) = 2" by (simp_all add: lg)
  have "\<exists>u. recover_from_log b = Inr ((), u) \<and> k_disk u ! 40 \<in> {replicate 512 0, replicate 512 7}"
    if bt: "boots b c ys" "lg_start (k_log b) = 2" "k_disk b = apply_writes (take m ws) (replicate 100 (replicate 512 0))" for m b c ys
  proof -
    obtain u where u: "recover_from_log b = Inr ((), u)" and "fs_same 2 (k_disk u) (k_disk (crash_ex 0)) \<or> fs_same 2 (k_disk u) (committed (crash_ex 0) 1)"
      using c [rule_format, of b c ys m] bt by (auto simp: st(2) dk)
    then have "k_disk u ! 40 = k_disk (crash_ex 0) ! 40 \<or> k_disk u ! 40 = committed (crash_ex 0) 1 ! 40"
      using L len by (auto simp: dk)
    with u new show ?thesis by (simp add: dk)
  qed
  moreover have "k_disk t ! 40 = replicate 512 7" using L [OF _ len] t(3) new by (simp add: st(2))
  ultimately show ?thesis using t(1,2) wr by auto
qed

text \<open>
  C16: The cache evicts modified blocks. \<^verbatim>\<open>bget\<close> takes the least recently used buffer with no references, and
  does not look at \<^verbatim>\<open>B_DIRTY\<close>: when that buffer holds a block that \<^verbatim>\<open>log_write\<close> marked dirty and that is
  not yet on disk, reading any uncached block returns this buffer, writes nothing, and from then on the kernel sees
  the old contents of the dirty block.
\<close>

theorem bread_evicts_dirty:
  assumes ok: "cache_ok s c xs {}" and b: "unat b < length (k_disk s)"
    and new: "\<forall>j < NBUF. b_dev (bufs s ! j) = 1 \<longrightarrow> b_blockno (bufs s ! j) \<noteq> b"
    and d: "dirty (bufs s ! last xs)"
  shows "\<exists>t. bread 1 b s = Inr (last xs, t) \<and> k_disk t = k_disk s \<and>
    view s (b_blockno (bufs s ! last xs)) = b_data (bufs s ! last xs) \<and>
    view t (b_blockno (bufs s ! last xs)) = k_disk s ! unat (b_blockno (bufs s ! last xs))"
proof -
  let ?l = "last xs" and ?old = "b_blockno (bufs s ! last xs)"
  have ne: "xs \<noteq> []" and sx: "set xs = {0..<NBUF}" using ringD(3) [OF cache_okD(3) [OF ok]] by (auto simp: NBUF_def MAXOPBLOCKS_def)
  then have l: "?l < NBUF" using last_in_set [OF ne] by simp
  have h: "holds_block s ?old ?l"
    using cache_okD(6) [OF ok l] d by (auto simp: holds_block_def buf_shape_def dirty_def B_VALID_def B_DIRTY_def)
  have fl: "find (\<lambda>i. i \<notin> {}) (rev xs) = Some ?l" using ne by (cases xs rule: rev_cases) auto
  obtain i t where r: "bread 1 b s = Inr (i, t)" "i < NBUF" "i \<notin> {}" "cache_ok t c xs {i}" "cache_step s t"
    "holds_block t b i" "b_data (bufs t ! i) = view s b" "\<And>j. j \<noteq> i \<Longrightarrow> bufs t ! j = bufs s ! j"
    "holds_block s b i \<and> b_flags (bufs t ! i) = b_flags (bufs s ! i) \<or> b_flags (bufs t ! i) = B_VALID \<and>
      (\<forall>j < NBUF. \<not> holds_block s b j) \<and> (b_dev (bufs s ! i) = 1 \<and> b_blockno (bufs s ! i) = b \<and> b_flags (bufs s ! i) = 0
        \<or> find (\<lambda>i. i \<notin> {}) (rev xs) = Some i)"
    using bread_spec [OF ok b none_not_all] by auto
  have i: "i = ?l" using r(2,9) new fl by (auto simp: holds_block_def)
  have "b \<noteq> ?old" using new l h by (auto simp: holds_block_def)
  have "\<not> holds_block t ?old j" if "j < NBUF" for j
  proof (cases "j = ?l")
    case False
    then have "bufs t ! j = bufs s ! j" using r(8) i by simp
    with one_eachD [OF cache_okD(9) [OF ok], of j ?l] False that l h cache_okD(10) [OF ok] show ?thesis
      by (auto simp: holds_block_def)
  qed (use r(6) i \<open>b \<noteq> ?old\<close> in \<open>auto simp: holds_block_def\<close>)
  with r(1) i view_cached [OF ok l h] view_uncached [of t ?old] cache_stepD(2) [OF r(5)] show ?thesis by auto
qed

theorem bread_evicts_dirty_witness:
  "\<exists>t. bread 1 41 (crash_ex 29) = Inr (29, t) \<and> view (crash_ex 29) 40 = replicate 512 7 \<and> view t 40 = replicate 512 0"
proof -
  have N: "NBUF = 30" by (simp add: NBUF_def MAXOPBLOCKS_def)
  have l: "last [0..<NBUF] = 29" by (simp add: N)
  have dk: "k_disk (crash_ex 29) = replicate 100 (replicate 512 0)" by (simp add: crash_ex_def kernel0_def)
  have bl: "b_blockno (bufs (crash_ex 29) ! 29) = 40" "b_data (bufs (crash_ex 29) ! 29) = replicate 512 7"
    by (simp_all add: crash_ex_buf N)
  have new: "\<forall>j < NBUF. b_dev (bufs (crash_ex 29) ! j) = 1 \<longrightarrow> b_blockno (bufs (crash_ex 29) ! j) \<noteq> 41"
    using crash_ex_holds(4) [of 41] by simp
  have d: "dirty (bufs (crash_ex 29) ! last [0..<NBUF])" unfolding l by (rule crash_ex_holds(2)) (simp add: N)
  have r: "unat (41::u32) < length (k_disk (crash_ex 29))" by (simp add: dk)
  show ?thesis using bread_evicts_dirty [OF crash_ex_ok r new d] unfolding l bl by (auto simp: dk)
qed

end
