(* ===== verification/Ulib.thy ===== *)
theory Ulib
  imports Memory
begin

text \<open>
  The user library: the string functions of \<^verbatim>\<open>ulib.c\<close> and the formatted output of
  \<^verbatim>\<open>printf.c\<close>. A C string is the list of its characters without the terminating zero, so
  that a pointer into it is a suffix of the list and the character at the end is zero. Output is the list of
  characters passed to \<^verbatim>\<open>write\<close>.
\<close>

abbreviation NUL :: char where "NUL \<equiv> CHR 0x00"

abbreviation newline :: char where "newline \<equiv> CHR 0x0A"

definition uchar :: "char \<Rightarrow> nat" where
  "uchar c = of_char c"

section \<open>Strings\<close>

text \<open>The character a pointer points to.\<close>

fun deref :: "string \<Rightarrow> char" where
  "deref [] = NUL"
| "deref (c # s) = c"

text \<open>The characters that \<^verbatim>\<open>strcpy\<close> writes from the start of the target on.\<close>

definition strcpy :: "string \<Rightarrow> string" where
  "strcpy t = t @ [NUL]"

fun strcmp :: "string \<Rightarrow> string \<Rightarrow> int" where
  "strcmp [] q = 0 - int (uchar (deref q))"
| "strcmp (c # p) q =
     (if c \<noteq> NUL \<and> c = deref q then strcmp p (tl q) else int (uchar c) - int (uchar (deref q)))"

definition ustrlen :: "string \<Rightarrow> nat" where
  "ustrlen s = length s"

fun strchr :: "string \<Rightarrow> char \<Rightarrow> string option" where
  "strchr [] c = None"
| "strchr (x # s) c = (if x = c then Some (x # s) else strchr s c)"

text \<open>
  The result of \<^verbatim>\<open>gets\<close> on the characters that single-byte reads return, and the input that is left;
  \<open>n\<close> is \<^verbatim>\<open>max - 1\<close>, the room before the terminating zero.
\<close>

fun gets :: "nat \<Rightarrow> string \<Rightarrow> string \<times> string" where
  "gets 0 inp = ([], inp)"
| "gets (Suc n) [] = ([], [])"
| "gets (Suc n) (c # inp) =
     (if c = newline \<or> c = CHR 0x0D then ([c], inp) else let (s, r) = gets n inp in (c # s, r))"

fun atoi_from :: "u32 \<Rightarrow> string \<Rightarrow> u32" where
  "atoi_from n [] = n"
| "atoi_from n (c # s) =
     (if 48 \<le> uchar c \<and> uchar c \<le> 57 then atoi_from (n * 10 + of_nat (uchar c) - 48) s else n)"

definition atoi :: "string \<Rightarrow> u32" where
  "atoi s = atoi_from 0 s"

definition umemmove :: "u32 \<Rightarrow> u32 \<Rightarrow> u32 \<Rightarrow> mem \<Rightarrow> mem" where
  "umemmove vdst vsrc n m =
     (if vsrc > vdst then copy_fwd (nat (sint n)) vdst vsrc m
      else copy_bwd (nat (sint n)) (vdst + n) (vsrc + n) m)"

section \<open>printf\<close>

lemma div_less_u32: "1 < (b::u32) \<Longrightarrow> x div b \<noteq> 0 \<Longrightarrow> unat (x div b) < unat x"
proof -
  assume b: "1 < b" and "x div b \<noteq> 0"
  then have "unat x div unat b \<noteq> 0" by (metis unat_div unsigned_0 word_unat_eq_iff)
  then have "0 < unat x" by (cases "unat x") auto
  moreover have "1 < unat b" using b by (simp add: word_less_nat_alt)
  ultimately show ?thesis by (simp add: unat_div)
qed

text \<open>
  The digits of a number, lowest first, as \<^verbatim>\<open>printint\<close> stores them; the callers pass the bases 10 and 16.
\<close>

function digits :: "string \<Rightarrow> u32 \<Rightarrow> u32 \<Rightarrow> string" where
  "digits tab base x =
     tab ! unat (x mod base) # (if 1 < base \<and> x div base \<noteq> 0 then digits tab base (x div base) else [])"
  by pat_completeness auto

termination
  by (relation "measure (\<lambda>(tab, base, x). unat x)") (auto simp: div_less_u32)

declare digits.simps [simp del]

definition int_text :: "string \<Rightarrow> u32 \<Rightarrow> u32 \<Rightarrow> bool \<Rightarrow> string" where
  "int_text tab xx base sg =
     (let neg = sg \<and> sint xx < 0; x = (if neg then - xx else xx) in
      rev (digits tab base x @ (if neg then ''-'' else [])))"

definition printint :: "u32 \<Rightarrow> u32 \<Rightarrow> bool \<Rightarrow> string" where
  "printint xx base sg = int_text ''0123456789ABCDEF'' xx base sg"

text \<open>
  The output of \<^verbatim>\<open>printf\<close>. The arguments are the words behind \<^verbatim>\<open>fmt\<close> on the stack, and \<open>str\<close>
  gives the string at an address; reading more words than were passed has no meaning (\<open>None\<close>). The flag tells
  that the last character was a percent sign.
\<close>

fun printf_from :: "(u32 \<Rightarrow> string) \<Rightarrow> bool \<Rightarrow> string \<Rightarrow> u32 list \<Rightarrow> string option" where
  "printf_from str st [] ap = Some []"
| "printf_from str False (c # fmt) ap =
     (if c = CHR ''%'' then printf_from str True fmt ap
      else map_option (Cons c) (printf_from str False fmt ap))"
| "printf_from str True (c # fmt) ap =
     (if c = CHR ''d'' then
        (case ap of [] \<Rightarrow> None
         | a # ap \<Rightarrow> map_option (append (printint a 10 True)) (printf_from str False fmt ap))
      else if c = CHR ''x'' \<or> c = CHR ''p'' then
        (case ap of [] \<Rightarrow> None
         | a # ap \<Rightarrow> map_option (append (printint a 16 False)) (printf_from str False fmt ap))
      else if c = CHR ''s'' then
        (case ap of [] \<Rightarrow> None
         | a # ap \<Rightarrow> map_option (append (if a = 0 then ''(null)'' else str a)) (printf_from str False fmt ap))
      else if c = CHR ''c'' then
        (case ap of [] \<Rightarrow> None
         | a # ap \<Rightarrow> map_option (Cons (char_of (unat a))) (printf_from str False fmt ap))
      else if c = CHR ''%'' then map_option (Cons c) (printf_from str False fmt ap)
      else map_option (append [CHR ''%'', c]) (printf_from str False fmt ap))"

definition printf :: "(u32 \<Rightarrow> string) \<Rightarrow> string \<Rightarrow> u32 list \<Rightarrow> string option" where
  "printf str fmt ap = printf_from str False fmt ap"

section \<open>Lemmas\<close>

lemma uchar_inj [simp]: "uchar c = uchar d \<longleftrightarrow> c = d"
  by (simp add: uchar_def)

lemma uchar_NUL: "uchar NUL = 0" "uchar c = 0 \<longleftrightarrow> c = NUL"
  using uchar_inj [of c NUL] by (simp_all add: uchar_def)

lemma strcmp_eq_0: "NUL \<notin> set p \<Longrightarrow> NUL \<notin> set q \<Longrightarrow> strcmp p q = 0 \<longleftrightarrow> p = q"
proof (induction p arbitrary: q)
  case Nil
  then show ?case by (cases q) (auto simp: uchar_NUL)
next
  case (Cons c p)
  then show ?case by (cases q) (auto simp: uchar_NUL)
qed

lemma strchr_eq: "strchr s c = (if c \<in> set s then Some (dropWhile (\<lambda>x. x \<noteq> c) s) else None)"
  by (induction s) auto

lemma gets_split: "gets n inp = (s, r) \<Longrightarrow> inp = s @ r \<and> length s \<le> n"
  by (induction n inp arbitrary: s r rule: gets.induct) (auto split: if_splits prod.splits)

lemma umemmove_correct:
  assumes "0 \<le> sint n" and "unat vsrc + unat n < 4294967296" and "unat vdst + unat n < 4294967296"
  shows "umemmove vdst vsrc n m = moved vdst vsrc (unat n) m"
proof -
  have n: "nat (sint n) = unat n" using assms(1) unsigned_less [of n, where ?'a = nat] by (auto simp: sint_u32 simp del: of_nat_unat split: if_splits)
  show ?thesis
  proof (cases "vsrc > vdst")
    case True
    then have "unat vdst < unat vsrc" by (simp add: word_less_nat_alt)
    with assms have "copy_fwd (unat n) vdst vsrc m = moved vdst vsrc (unat n) m"
      by (intro copy_fwd_moved no_wrap_neq [of _ _ _ 0, simplified] no_wrap_neq) auto
    with True n show ?thesis by (simp add: umemmove_def)
  next
    case False
    then have "unat vsrc \<le> unat vdst" by (simp add: word_less_nat_alt)
    with assms have "copy_bwd (unat n) (vdst + of_nat (unat n)) (vsrc + of_nat (unat n)) m = moved vdst vsrc (unat n) m"
      by (intro copy_bwd_moved no_wrap_neq) auto
    with False n show ?thesis by (simp add: umemmove_def)
  qed
qed

text \<open>The value of a list of digits, lowest first.\<close>

fun digit_sum :: "(char \<Rightarrow> nat) \<Rightarrow> nat \<Rightarrow> string \<Rightarrow> nat" where
  "digit_sum v b [] = 0"
| "digit_sum v b (c # s) = v c + b * digit_sum v b s"

lemma digits_sum:
  assumes "1 < base" and "\<And>k. k < unat base \<Longrightarrow> v (tab ! k) = k"
  shows "digit_sum v (unat base) (digits tab base x) = unat x"
  using assms
proof (induction tab base x rule: digits.induct)
  case (1 tab base x)
  have "unat (x mod base) < unat base" using "1.prems"(1) by (simp add: unat_mod word_less_nat_alt)
  then have v: "v (tab ! unat (x mod base)) = unat x mod unat base" using "1.prems"(2) by (simp add: unat_mod)
  have d: "unat x = unat x mod unat base + unat base * unat (x div base)" by (simp add: unat_div)
  show ?case
  proof (cases "x div base = 0")
    case True
    then show ?thesis using d v by (simp add: digits.simps [of tab base x])
  next
    case False
    with "1.prems" "1.IH" have "digit_sum v (unat base) (digits tab base (x div base)) = unat (x div base)" by blast
    with False "1.prems"(1) d v show ?thesis by (simp add: digits.simps [of tab base x])
  qed
qed

lemma digits_length: "1 < base \<Longrightarrow> unat x < unat base ^ n \<Longrightarrow> 0 < n \<Longrightarrow> length (digits tab base x) \<le> n"
proof (induction tab base x arbitrary: n rule: digits.induct)
  case (1 tab base x)
  show ?case
  proof (cases "x div base = 0")
    case True
    with "1.prems"(3) show ?thesis by (simp add: digits.simps [of tab base x])
  next
    case False
    obtain k where n: "n = Suc k" using "1.prems"(3) by (cases n) auto
    have b: "1 < unat base" using "1.prems"(1) by (simp add: word_less_nat_alt)
    have "unat x div unat base \<noteq> 0" using False by (metis unat_div unsigned_0 word_unat_eq_iff)
    then have "k \<noteq> 0" using "1.prems"(2) n b by (cases k) auto
    moreover have "unat (x div base) < unat base ^ k"
      using "1.prems"(2) n b by (simp add: unat_div less_mult_imp_div_less mult.commute)
    ultimately have "length (digits tab base (x div base)) \<le> k" using "1.IH" "1.prems"(1) False by blast
    with n "1.prems"(1) False show ?thesis by (simp add: digits.simps [of tab base x])
  qed
qed

lemma digits_set: "1 < base \<Longrightarrow> c \<in> set (digits tab base x) \<Longrightarrow> \<exists>k < unat base. c = tab ! k"
proof (induction tab base x rule: digits.induct)
  case (1 tab base x)
  have "unat (x mod base) < unat base" using "1.prems"(1) by (simp add: unat_mod word_less_nat_alt)
  with "1.prems" "1.IH" show ?case
    by (cases "x div base = 0") (auto simp: digits.simps [of tab base x])
qed

text \<open>Reading a number back: the value of a text in base \<open>b\<close>, highest digit first, with its sign.\<close>

definition digit_val :: "char \<Rightarrow> nat" where
  "digit_val c = (if uchar c < 58 then uchar c - 48 else if uchar c < 71 then uchar c - 55 else uchar c - 87)"

definition text_val :: "nat \<Rightarrow> string \<Rightarrow> nat" where
  "text_val b s = foldl (\<lambda>n c. n * b + digit_val c) 0 s"

definition int_val :: "nat \<Rightarrow> string \<Rightarrow> int" where
  "int_val b s = (if deref s = CHR ''-'' then - int (text_val b (tl s)) else int (text_val b s))"

lemma text_val_rev: "text_val b (rev s) = digit_sum digit_val b s"
  unfolding text_val_def by (induction s) simp_all

lemma upper_digits:
  assumes "k < 16"
  shows "digit_val (''0123456789ABCDEF'' ! k) = k" "''0123456789ABCDEF'' ! k \<noteq> CHR ''-''"
proof -
  have "\<forall>k \<in> set [0..<16]. digit_val (''0123456789ABCDEF'' ! k) = k \<and> ''0123456789ABCDEF'' ! k \<noteq> CHR ''-''" by code_simp
  with assms show "digit_val (''0123456789ABCDEF'' ! k) = k" "''0123456789ABCDEF'' ! k \<noteq> CHR ''-''" by auto
qed

lemma int_text_val:
  assumes tab: "\<And>k. k < unat base \<Longrightarrow> digit_val (tab ! k) = k" "\<And>k. k < unat base \<Longrightarrow> tab ! k \<noteq> CHR ''-''"
    and b: "1 < base"
  shows "int_val (unat base) (int_text tab xx base sg) = (if sg then sint xx else uint xx)"
proof -
  have d: "text_val (unat base) (rev (digits tab base x)) = unat x" for x
    unfolding text_val_rev using digits_sum [OF b tab(1)] by simp
  have nm: "deref (rev (digits tab base x)) \<noteq> CHR ''-''" for x
  proof -
    have "digits tab base x \<noteq> []" by (simp add: digits.simps [of tab base x])
    then obtain c s where r: "rev (digits tab base x) = c # s" by (cases "rev (digits tab base x)") auto
    then have "c \<in> set (digits tab base x)" by (metis list.set_intros(1) set_rev)
    with digits_set [OF b this] tab(2) r show ?thesis by auto
  qed
  show ?thesis
  proof (cases "sg \<and> sint xx < 0")
    case True
    then have x: "2147483648 \<le> unat xx" "sint xx = uint xx - 4294967296" by (auto simp: sint_u32 split: if_splits)
    have "0 < uint xx" using x(1) by (cases "xx = 0") (auto simp: order_less_le uint_0_iff)
    then have "uint (- xx) = 4294967296 - uint xx"
      using unsigned_less [of xx, where ?'a = int] by (simp add: uint_word_ariths zmod_zminus1_eq_if)
    with True x d [of "- xx"] show ?thesis by (simp add: int_text_def int_val_def Let_def)
  next
    case False
    have "sg \<Longrightarrow> sint xx = int (unat xx)" using False unsigned_less [of xx, where ?'a = int]
      by (auto simp: sint_u32 split: if_splits)
    with False d [of xx] nm [of xx] show ?thesis by (auto simp: int_text_def int_val_def Let_def)
  qed
qed

lemma int_text_length:
  assumes "unat xx < unat base ^ n" "unat (- xx) < unat base ^ n" "1 < base" "0 < n"
  shows "length (int_text tab xx base sg) \<le> (if sg then Suc n else n)"
  using digits_length [OF assms(3,1,4), of tab] digits_length [OF assms(3,2,4), of tab]
  by (auto simp: int_text_def Let_def)

lemma atoi_from_append: "\<forall>c \<in> set s. 48 \<le> uchar c \<and> uchar c \<le> 57 \<Longrightarrow> atoi_from n (s @ t) = atoi_from (atoi_from n s) t"
  by (induction s arbitrary: n) auto

lemma atoi_digits:
  assumes "\<forall>c \<in> set s. 48 \<le> uchar c \<and> uchar c \<le> 57"
  shows "atoi_from 0 (rev s) = of_nat (digit_sum digit_val 10 s)"
  using assms
proof (induction s)
  case (Cons c s)
  then have "digit_val c = uchar c - 48" "48 \<le> uchar c" by (simp_all add: digit_val_def)
  then have "(of_nat (digit_val c) :: u32) = of_nat (uchar c) - 48" by (simp add: of_nat_diff)
  with Cons show ?case by (simp add: atoi_from_append algebra_simps)
qed (simp add: )

text \<open>
  C22: What \<^verbatim>\<open>printint\<close> prints reads back as the number it was given, for every 32-bit value: as a
  signed decimal number (the least integer included), as an unsigned hexadecimal number, and through \<^verbatim>\<open>atoi\<close>.
  The text fits its 16-byte buffer.
\<close>

theorem printint_roundtrip:
  "int_val 10 (printint xx 10 True) = sint xx \<and> int_val 16 (printint xx 16 False) = uint xx \<and>
   atoi (printint xx 10 False) = xx \<and> length (printint xx 10 True) \<le> 11 \<and> length (printint xx 16 False) \<le> 8"
proof -
  have up: "digit_val (''0123456789ABCDEF'' ! k) = k" "''0123456789ABCDEF'' ! k \<noteq> CHR ''-''" if "k < unat (10::u32)" for k
    using upper_digits [of k] that by simp_all
  have lt: "unat x < 4294967296" for x :: u32 using unsigned_less [of x, where ?'a = nat] by simp
  have "\<forall>c \<in> set (digits ''0123456789ABCDEF'' 10 xx). 48 \<le> uchar c \<and> uchar c \<le> 57"
  proof
    fix c
    assume "c \<in> set (digits ''0123456789ABCDEF'' 10 xx)"
    then obtain k where k: "k < 10" "c = ''0123456789ABCDEF'' ! k" using digits_set [of 10 c] by auto
    have "\<forall>k \<in> set [0..<10]. 48 \<le> uchar (''0123456789ABCDEF'' ! k) \<and> uchar (''0123456789ABCDEF'' ! k) \<le> 57" by code_simp
    with k show "48 \<le> uchar c \<and> uchar c \<le> 57" by auto
  qed
  from atoi_digits [OF this] have "atoi (printint xx 10 False) = xx"
    using digits_sum [of 10 digit_val "''0123456789ABCDEF''" xx] up(1) by (simp add: atoi_def printint_def int_text_def)
  moreover have "int_val 10 (printint xx 10 True) = sint xx"
    using int_text_val [of 10 "''0123456789ABCDEF''" xx True] up by (simp add: printint_def)
  moreover have "int_val 16 (printint xx 16 False) = uint xx"
    using int_text_val [of 16 "''0123456789ABCDEF''" xx False] upper_digits by (simp add: printint_def)
  moreover have "length (printint xx 10 True) \<le> 11"
    using int_text_length [of xx 10 10 "''0123456789ABCDEF''" True] lt [of xx] lt [of "- xx"]
    by (simp add: printint_def)
  moreover have "length (printint xx 16 False) \<le> 8"
    using int_text_length [of xx 16 8 "''0123456789ABCDEF''" False] lt [of xx] lt [of "- xx"] by (simp add: printint_def)
  ultimately show ?thesis by blast
qed

end
