(* ===== verification/Filters.thy ===== *)
theory Filters
  imports Ulib
begin

text \<open>
  The user programs that read text: \<^verbatim>\<open>grep.c\<close> with its matcher of regular expressions, and \<^verbatim>\<open>wc.c\<close>.
  The input of a program is the list of the byte strings that are available when it reads; a read
  returns at most the number of bytes asked for and nothing at the end of the input.
\<close>

fun uread :: "nat \<Rightarrow> string list \<Rightarrow> string \<times> string list" where
  "uread k [] = ([], [])"
| "uread k (c # cs) = (take k c, if length c \<le> k then cs else drop k c # cs)"

section \<open>The matcher of grep\<close>

function matchhere :: "string \<Rightarrow> string \<Rightarrow> bool"
  and matchstar :: "char \<Rightarrow> string \<Rightarrow> string \<Rightarrow> bool" where
  "matchhere re tx =
     (case re of [] \<Rightarrow> True
      | c # r \<Rightarrow>
          if deref r = CHR ''*'' then matchstar c (tl r) tx
          else if c = CHR ''$'' \<and> r = [] then tx = []
          else if tx \<noteq> [] \<and> (c = CHR ''.'' \<or> c = hd tx) then matchhere r (tl tx)
          else False)"
| "matchstar c re tx =
     (if matchhere re tx then True
      else if tx \<noteq> [] \<and> (hd tx = c \<or> c = CHR ''.'') then matchstar c re (tl tx)
      else False)"
  by pat_completeness auto

termination
  by (relation "measures [\<lambda>x. case x of Inl (re, t) \<Rightarrow> 2 * length re | Inr (c, re, t) \<Rightarrow> Suc (2 * length re),
      \<lambda>x. case x of Inl (re, t) \<Rightarrow> length t | Inr (c, re, t) \<Rightarrow> length t]") auto

fun match_from :: "string \<Rightarrow> string \<Rightarrow> bool" where
  "match_from re [] = matchhere re []"
| "match_from re (c # tx) = (if matchhere re (c # tx) then True else match_from re tx)"

definition grep_match :: "string \<Rightarrow> string \<Rightarrow> bool" where
  "grep_match re tx = (if deref re = CHR ''^'' then matchhere (tl re) tx else match_from re tx)"

section \<open>grep\<close>

lemma length_tl_drop: "x \<in> set p \<Longrightarrow> length (tl (dropWhile (\<lambda>c. c \<noteq> x) p)) < length p"
  by (induction p) (auto simp: less_Suc_eq)

lemma length_tl_dropWhile: "x \<in> set (takeWhile P p) \<Longrightarrow> length (tl (dropWhile (\<lambda>c. c \<noteq> x) p)) < length p"
  by (rule length_tl_drop) (auto dest: set_takeWhileD)

text \<open>
  The inner loop of \<^verbatim>\<open>grep\<close>: the output for the complete lines of the buffer and the rest behind them;
  \<^verbatim>\<open>strchr\<close> stops at a zero byte.
\<close>

function grep_lines :: "string \<Rightarrow> string \<Rightarrow> string \<times> string" where
  "grep_lines re p =
     (if newline \<in> set (takeWhile (\<lambda>c. c \<noteq> NUL) p) then
        let line = takeWhile (\<lambda>c. c \<noteq> newline) p; (out, r) = grep_lines re (tl (dropWhile (\<lambda>c. c \<noteq> newline) p)) in
        ((if grep_match re line then line @ [newline] else []) @ out, r)
      else ([], p))"
  by pat_completeness auto

termination
  by (relation "measure (\<lambda>(re, p). length p)") (auto dest!: length_tl_dropWhile)

declare grep_lines.simps [simp del] matchhere.simps [simp del] matchstar.simps [simp del]

lemma uread_shrinks: "uread k inp = (c, inp') \<Longrightarrow> c \<noteq> [] \<Longrightarrow> sum_list (map length inp') < sum_list (map length inp)"
  by (cases inp) (auto split: if_splits)

text \<open>The outer loop; \<open>left\<close> is the part of the last line that is kept in the buffer of 1024 bytes.\<close>

function grep_loop :: "string \<Rightarrow> string \<Rightarrow> string list \<Rightarrow> string" where
  "grep_loop re left inp =
     (let (c, inp') = uread (1023 - length left) inp in
      if c = [] then []
      else let buf = left @ c; (out, p) = grep_lines re buf in
        out @ grep_loop re (if length p = length buf then [] else p) inp')"
  by pat_completeness auto

termination
  by (relation "measure (\<lambda>(re, left, inp). sum_list (map length inp))") (auto dest!: uread_shrinks [OF sym])

declare grep_loop.simps [simp del]

definition grep :: "string \<Rightarrow> string list \<Rightarrow> string" where
  "grep re inp = grep_loop re [] inp"

section \<open>wc\<close>

definition is_space :: "char \<Rightarrow> bool" where
  "is_space c \<longleftrightarrow> strchr [CHR '' '', CHR 0x0D, CHR 0x09, newline, CHR 0x0B] c \<noteq> None"

record wcst =
  wc_l :: u32
  wc_w :: u32
  wc_c :: u32
  wc_inword :: bool

definition wc_byte :: "char \<Rightarrow> wcst \<Rightarrow> wcst" where
  "wc_byte ch s =
     (let s = s\<lparr>wc_c := wc_c s + 1, wc_l := (if ch = newline then wc_l s + 1 else wc_l s)\<rparr> in
      if is_space ch then s\<lparr>wc_inword := False\<rparr>
      else if \<not> wc_inword s then s\<lparr>wc_w := wc_w s + 1, wc_inword := True\<rparr>
      else s)"

function wc_loop :: "string list \<Rightarrow> wcst \<Rightarrow> wcst" where
  "wc_loop inp s = (let (b, inp') = uread 512 inp in if b = [] then s else wc_loop inp' (fold wc_byte b s))"
  by pat_completeness auto

termination
  by (relation "measure (\<lambda>(inp, s). sum_list (map length inp))") (auto dest!: uread_shrinks [OF sym])

declare wc_loop.simps [simp del]

text \<open>
  \<^verbatim>\<open>wc\<close> for reads that succeed; the three numbers are the result. The exit on a read error and the printing are left out.
\<close>

definition wc :: "string list \<Rightarrow> u32 \<times> u32 \<times> u32" where
  "wc inp = (let s = wc_loop inp \<lparr>wc_l = 0, wc_w = 0, wc_c = 0, wc_inword = False\<rparr> in (wc_l s, wc_w s, wc_c s))"

section \<open>Correctness of the matcher\<close>

text \<open>
  The meaning of an expression: it is a sequence of items, each a character or any number of repetitions of a
  character, where the dot stands for every character, possibly bound to the end of the text.
\<close>

datatype item = One char | Many char

fun fits :: "char \<Rightarrow> char \<Rightarrow> bool" where
  "fits c x \<longleftrightarrow> c = CHR ''.'' \<or> x = c"

fun item_lang :: "item \<Rightarrow> string set" where
  "item_lang (One c) = {[x] | x. fits c x}"
| "item_lang (Many c) = {xs. \<forall>x \<in> set xs. fits c x}"

fun lang :: "item list \<Rightarrow> string set" where
  "lang [] = {[]}"
| "lang (i # is) = {u @ v | u v. u \<in> item_lang i \<and> v \<in> lang is}"

fun parse_re :: "string \<Rightarrow> item list \<times> bool" where
  "parse_re [] = ([], False)"
| "parse_re [c] = (if c = CHR ''$'' then ([], True) else ([One c], False))"
| "parse_re (c # d # re) =
     (if d = CHR ''*'' then let (is, e) = parse_re re in (Many c # is, e)
      else let (is, e) = parse_re (d # re) in (One c # is, e))"

definition here :: "string \<Rightarrow> string \<Rightarrow> bool" where
  "here re tx \<longleftrightarrow>
     (\<exists>v w. tx = v @ w \<and> v \<in> lang (fst (parse_re re)) \<and> (snd (parse_re re) \<longrightarrow> w = []))"

lemma here_Nil [simp]: "here [] tx"
  by (simp add: here_def)

lemma here_Eol: "here ''$'' tx \<longleftrightarrow> tx = []"
  by (simp add: here_def)

lemma here_Many:
  "here (c # CHR ''*'' # re) tx \<longleftrightarrow> (\<exists>u v. tx = u @ v \<and> (\<forall>x \<in> set u. fits c x) \<and> here re v)"
  (is "?l \<longleftrightarrow> ?r")
proof -
  obtain js e where p: "parse_re re = (js, e)" by force
  then have q: "parse_re (c # CHR ''*'' # re) = (Many c # js, e)" by simp
  show ?thesis
  proof
    assume ?l
    then obtain v w where "tx = v @ w" "v \<in> lang (Many c # js)" "e \<longrightarrow> w = []" unfolding here_def q by auto
    then obtain a b where "tx = a @ b @ w" "\<forall>x \<in> set a. fits c x" "b \<in> lang js" "e \<longrightarrow> w = []"
      by (auto simp del: fits.simps)
    then show ?r by (intro exI [of _ a] exI [of _ "b @ w"]) (auto simp: here_def p simp del: fits.simps)
  next
    assume ?r
    then obtain a b w where "tx = a @ b @ w" "\<forall>x \<in> set a. fits c x" "b \<in> lang js" "e \<longrightarrow> w = []"
      by (auto simp: here_def p simp del: fits.simps)
    then show ?l unfolding here_def q by (intro exI [of _ "a @ b"] exI [of _ w]) (auto simp del: fits.simps)
  qed
qed

lemma split_first:
  "(\<exists>u v. x # t = u @ v \<and> (\<forall>y \<in> set u. f y) \<and> P v) \<longleftrightarrow>
     P (x # t) \<or> f x \<and> (\<exists>u v. t = u @ v \<and> (\<forall>y \<in> set u. f y) \<and> P v)" (is "?l \<longleftrightarrow> ?r")
proof
  assume ?l
  then obtain u v where "x # t = u @ v" "\<forall>y \<in> set u. f y" "P v" by blast
  then show ?r by (cases u) auto
next
  assume ?r
  then show ?l
  proof
    assume "P (x # t)"
    then show ?l by (intro exI [of _ "[]"] exI [of _ "x # t"]) simp
  next
    assume "f x \<and> (\<exists>u v. t = u @ v \<and> (\<forall>y \<in> set u. f y) \<and> P v)"
    then obtain u v where "f x" "t = u @ v" "\<forall>y \<in> set u. f y" "P v" by blast
    then show ?l by (intro exI [of _ "x # u"] exI [of _ v]) simp
  qed
qed

lemma lang_One: "s \<in> lang (One c # is) \<longleftrightarrow> s \<noteq> [] \<and> fits c (hd s) \<and> tl s \<in> lang is"
proof (cases s)
  case (Cons x t)
  have "x # t \<in> lang (One c # is)" if "fits c x" "t \<in> lang is"
    unfolding lang.simps mem_Collect_eq using that by (intro exI [of _ "[x]"] exI [of _ t]) (simp del: fits.simps)
  with Cons show ?thesis by (auto simp del: fits.simps)
qed auto

lemma here_One:
  assumes "deref r \<noteq> CHR ''*''" and "\<not> (c = CHR ''$'' \<and> r = [])"
  shows "here (c # r) tx \<longleftrightarrow> tx \<noteq> [] \<and> fits c (hd tx) \<and> here r (tl tx)"
proof -
  obtain js e where p: "parse_re r = (js, e)" by force
  then have q: "parse_re (c # r) = (One c # js, e)" using assms by (cases r) auto
  have "(\<exists>v w. tx = v @ w \<and> v \<in> lang (One c # js) \<and> (e \<longrightarrow> w = [])) \<longleftrightarrow>
      tx \<noteq> [] \<and> fits c (hd tx) \<and> (\<exists>v w. tl tx = v @ w \<and> v \<in> lang js \<and> (e \<longrightarrow> w = []))" (is "?l \<longleftrightarrow> ?r")
  proof
    assume ?l
    then obtain v w where "tx = v @ w" "v \<in> lang (One c # js)" "e \<longrightarrow> w = []" by blast
    then show ?r unfolding lang_One by (cases v) auto
  next
    assume ?r
    then obtain v w where "tx \<noteq> []" "fits c (hd tx)" "tl tx = v @ w" "v \<in> lang js" "e \<longrightarrow> w = []" by blast
    then show ?l unfolding lang_One by (intro exI [of _ "hd tx # v"] exI [of _ w]) (cases tx, auto)
  qed
  then show ?thesis by (simp add: here_def p q del: lang.simps)
qed

lemma matchhere_here:
  "matchhere re tx = here re tx"
  "matchstar c re tx = (\<exists>u v. tx = u @ v \<and> (\<forall>x \<in> set u. fits c x) \<and> here re v)"
proof (induction re tx and c re tx rule: matchhere_matchstar.induct)
  case (1 re tx)
  show ?case
  proof (cases re)
    case Nil
    then show ?thesis by (simp add: matchhere.simps)
  next
    case (Cons c r)
    show ?thesis
    proof (cases "deref r = CHR ''*''")
      case True
      then obtain r' where r: "r = CHR ''*'' # r'" by (cases r) auto
      with 1(1) [OF Cons True] show ?thesis
        unfolding Cons r here_Many by (simp add: matchhere.simps)
    next
      case star: False
      show ?thesis
      proof (cases "c = CHR ''$'' \<and> r = []")
        case True
        with Cons show ?thesis by (simp add: matchhere.simps here_Eol)
      next
        case False
        show ?thesis
        proof (cases "tx \<noteq> [] \<and> (c = CHR ''.'' \<or> c = hd tx)")
          case True
          with 1(2) [OF Cons star False True] show ?thesis
            unfolding Cons here_One [OF star False] using star False by (auto simp: matchhere.simps)
        next
          case no: False
          then show ?thesis
            unfolding Cons here_One [OF star False] using star False by (auto simp: matchhere.simps)
        qed
      qed
    qed
  qed
next
  case (2 c re tx)
  show ?case
  proof (cases "matchhere re tx")
    case True
    with 2(1) show ?thesis by (subst matchstar.simps) (auto intro: exI [of _ "[]"])
  next
    case False
    with 2(1) have nh: "\<not> here re tx" by simp
    show ?thesis
    proof (cases "tx \<noteq> [] \<and> (hd tx = c \<or> c = CHR ''.'')")
      case True
      then obtain x t where t: "tx = x # t" "fits c x" by (cases tx) auto
      with 2(2) [OF False True] False True nh show ?thesis
        unfolding t(1) split_first by (simp add: matchstar.simps [of c re "x # t"] del: fits.simps)
    next
      case no: False
      then have "\<not> (\<exists>u v. tx = u @ v \<and> (\<forall>x \<in> set u. fits c x) \<and> here re v)"
        using nh by (cases tx) (auto simp: split_first)
      moreover have "\<not> matchstar c re tx" using False no by (auto simp: matchstar.simps [of c re tx])
      ultimately show ?thesis by blast
    qed
  qed
qed

lemma match_from_here: "match_from re tx \<longleftrightarrow> (\<exists>u v. tx = u @ v \<and> here re v)"
proof (induction tx)
  case (Cons c tx)
  with split_first [of c tx "\<lambda>_. True" "here re"] show ?case by (auto simp: matchhere_here)
qed (auto simp: matchhere_here)

text \<open>
  C19: The matcher of \<^verbatim>\<open>grep\<close> decides its little language: \<^verbatim>\<open>match\<close> accepts a text exactly when a part of
  it is a string of the language that the expression denotes, a part that starts the text after a circumflex and
  ends it before a dollar sign.
\<close>

theorem match_correct:
  "grep_match re tx =
     (let bol = (deref re = CHR ''^''); (is, eol) = parse_re (if bol then tl re else re) in
      \<exists>u v w. tx = u @ v @ w \<and> v \<in> lang is \<and> (if bol then u = [] else True) \<and> (if eol then w = [] else True))"
  by (simp add: grep_match_def match_from_here matchhere_here here_def Let_def split: prod.splits) blast

section \<open>Correctness of grep\<close>

function complete_lines :: "string \<Rightarrow> string list" where
  "complete_lines s =
     (if newline \<in> set s then takeWhile (\<lambda>c. c \<noteq> newline) s # complete_lines (tl (dropWhile (\<lambda>c. c \<noteq> newline) s)) else [])"
  by pat_completeness auto

termination
  by (relation "measure length") (auto dest!: length_tl_drop)

declare complete_lines.simps [simp del]

fun tail_of :: "string \<Rightarrow> string" where
  "tail_of [] = []"
| "tail_of (c # s) = (if newline \<in> set (c # s) then tail_of s else c # s)"

definition grep_out :: "string \<Rightarrow> string list \<Rightarrow> string" where
  "grep_out re ls = concat (map (\<lambda>l. l @ [newline]) (filter (grep_match re) ls))"

lemma grep_out_simps [simp]:
  "grep_out re [] = []" "grep_out re (ls @ ms) = grep_out re ls @ grep_out re ms"
  "grep_out re (l # ls) = (if grep_match re l then l @ [newline] else []) @ grep_out re ls"
  by (simp_all add: grep_out_def)

lemma complete_lines_none: "newline \<notin> set s \<Longrightarrow> complete_lines s = []"
  by (simp add: complete_lines.simps [of s])

lemma complete_lines_line: "newline \<notin> set l \<Longrightarrow> complete_lines (l @ newline # s) = l # complete_lines s"
  by (simp add: complete_lines.simps [of "l @ newline # s"] takeWhile_append dropWhile_append)

lemma tail_none: "newline \<notin> set s \<Longrightarrow> tail_of s = s"
  by (cases s) auto

lemma tail_line: "newline \<notin> set l \<Longrightarrow> tail_of (l @ newline # s) = tail_of s"
proof (induction l)
  case Nil
  then show ?case by simp
qed auto

lemma line_split: "newline \<in> set s \<Longrightarrow> \<exists>l r. s = l @ newline # r \<and> newline \<notin> set l"
  by (metis split_list_first)

lemma line_induct [case_names none line]:
  assumes "\<And>s. newline \<notin> set s \<Longrightarrow> P s" and "\<And>l s. newline \<notin> set l \<Longrightarrow> P s \<Longrightarrow> P (l @ newline # s)"
  shows "P s"
proof (induction s rule: length_induct)
  case (1 s)
  show ?case
  proof (cases "newline \<in> set s")
    case True
    then obtain l r where "s = l @ newline # r" "newline \<notin> set l" using line_split by blast
    with 1 assms(2) show ?thesis by simp
  qed (rule assms(1))
qed

lemma tail_no_newline: "newline \<notin> set (tail_of s)"
  by (induction s rule: line_induct) (simp_all add: tail_none tail_line)

lemma tail_length: "newline \<in> set s \<Longrightarrow> length (tail_of s) < length s"
proof (induction s rule: line_induct)
  case (line l s)
  then show ?case by (cases "newline \<in> set s") (simp_all add: tail_line tail_none)
qed simp

lemma tail_sub: "set (tail_of s) \<subseteq> set s"
  by (induction s rule: line_induct) (auto simp: tail_none tail_line)

lemma complete_lines_append:
  "complete_lines (s @ t) = complete_lines s @ complete_lines (tail_of s @ t)"
  by (induction s rule: line_induct) (simp_all add: complete_lines_none complete_lines_line tail_none tail_line)

lemma grep_lines_spec: "NUL \<notin> set p \<Longrightarrow> grep_lines re p = (grep_out re (complete_lines p), tail_of p)"
proof (induction p rule: line_induct)
  case (none s)
  then have "newline \<notin> set (takeWhile (\<lambda>c. c \<noteq> NUL) s)" by (auto dest: set_takeWhileD)
  with none show ?case by (simp add: grep_lines.simps [of re s] complete_lines_none tail_none)
next
  case (line l s)
  let ?p = "l @ newline # s"
  have tw: "takeWhile (\<lambda>c. c \<noteq> NUL) ?p = ?p" using line.prems by (auto simp: takeWhile_eq_all_conv)
  have ln: "takeWhile (\<lambda>c. c \<noteq> newline) ?p = l" "tl (dropWhile (\<lambda>c. c \<noteq> newline) ?p) = s"
    using line.hyps by (simp_all add: takeWhile_append dropWhile_append)
  show ?case
    unfolding grep_lines.simps [of re ?p] tw ln using line
    by (simp add: complete_lines_line tail_line)
qed

lemma grep_loop_end: "grep_loop re left [] = []" "grep_loop re left [[]] = []"
  by (simp_all add: grep_loop.simps [of re left])

lemma grep_loop_file:
  assumes "length left < 1023" and "newline \<notin> set left" and "NUL \<notin> set (left @ d)"
    and "\<forall>l \<in> set (complete_lines (left @ d)). length l < 1023"
  shows "grep_loop re left [d] = grep_out re (complete_lines (left @ d))"
  using assms
proof (induction "length d" arbitrary: left d rule: less_induct)
  case less
  let ?k = "1023 - length left" and ?rest = "\<lambda>d. if length d \<le> 1023 - length left then [] else [drop (1023 - length left) d]"
  show ?case
  proof (cases "d = []")
    case True
    with less.prems(2) show ?thesis by (simp add: grep_loop_end complete_lines_none)
  next
    case False
    let ?b = "left @ take ?k d"
    have k: "0 < ?k" using less.prems(1) by simp
    have nul: "NUL \<notin> set ?b" using less.prems(3) by (auto dest: in_set_takeD)
    have step: "grep_loop re left [d] = grep_out re (complete_lines ?b) @
        grep_loop re (if length (tail_of ?b) = length ?b then [] else tail_of ?b) (?rest d)"
      using False k by (simp add: grep_loop.simps [of re left "[d]"] grep_lines_spec [OF nul] Let_def del: length_append)
    have whole: "left @ d = ?b @ drop ?k d" by simp
    have drop: "length (drop ?k d) < length d" using k False length_greater_0_conv [of d] unfolding length_drop by linarith
    show ?thesis
    proof (cases "newline \<in> set ?b")
      case True
      then have tl: "length (tail_of ?b) < length ?b" by (rule tail_length)
      have "length ?b \<le> 1023" using less.prems(1) by simp
      have eq: "complete_lines (left @ d) = complete_lines ?b @ complete_lines (tail_of ?b @ drop ?k d)"
        by (subst whole) (rule complete_lines_append)
      have "grep_loop re (tail_of ?b) (?rest d) = grep_out re (complete_lines (tail_of ?b @ drop ?k d))"
      proof (cases "length d \<le> ?k")
        case True
        then show ?thesis by (simp add: grep_loop_end complete_lines_none tail_no_newline)
      next
        case False
        have "grep_loop re (tail_of ?b) [drop ?k d] = grep_out re (complete_lines (tail_of ?b @ drop ?k d))"
        proof (rule less.hyps [OF drop])
          show "length (tail_of ?b) < 1023" using tl \<open>length ?b \<le> 1023\<close> by simp
          show "NUL \<notin> set (tail_of ?b @ drop ?k d)" using nul less.prems(3) tail_sub [of ?b] by (auto dest: in_set_dropD)
          show "\<forall>l \<in> set (complete_lines (tail_of ?b @ drop ?k d)). length l < 1023" using less.prems(4) eq by auto
        qed (rule tail_no_newline)
        with False show ?thesis by simp
      qed
      with step tl eq show ?thesis by simp
    next
      case nb: False
      then have t: "tail_of ?b = ?b" "complete_lines ?b = []" by (simp_all add: tail_none complete_lines_none)
      show ?thesis
      proof (cases "length d \<le> ?k")
        case True
        then have "complete_lines (left @ d) = []" using nb by (simp add: complete_lines_none)
        with step t True show ?thesis by (simp add: grep_loop_end)
      next
        case long: False
        have "newline \<notin> set (left @ d)"
        proof
          assume "newline \<in> set (left @ d)"
          then obtain l r where lr: "left @ d = l @ newline # r" "newline \<notin> set l" using line_split by blast
          then have "l \<in> set (complete_lines (left @ d))" by (simp add: complete_lines_line)
          then have "length l < 1023" using less.prems(4) by blast
          have "?b = take 1023 (left @ d)" using less.prems(1) by simp
          then have "newline \<in> set ?b" unfolding lr(1) using \<open>length l < 1023\<close> by (simp add: take_Cons')
          with nb show False by blast
        qed
        then have "complete_lines (left @ d) = []" and nd: "newline \<notin> set (drop ?k d)"
          by (auto simp: complete_lines_none dest: in_set_dropD)
        moreover have "grep_loop re [] [drop ?k d] = grep_out re (complete_lines ([] @ drop ?k d))"
          using less.prems(3) complete_lines_none [OF nd] by (intro less.hyps [OF drop]) (auto dest: in_set_dropD)
        ultimately show ?thesis using step t long complete_lines_none [OF nd] by simp
      qed
    qed
  qed
qed

text \<open>
  C23: On a file without zero bytes whose lines are shorter than the buffer, \<^verbatim>\<open>grep\<close> prints exactly the lines
  that match, in order, however many reads the file takes; a last line without a newline is not printed.
\<close>

theorem grep_file:
  assumes "NUL \<notin> set d" and "\<forall>l \<in> set (complete_lines d). length l < 1023"
  shows "grep re [d] = grep_out re (complete_lines d)"
  using grep_loop_file [of "[]" d re] assms by (simp add: grep_def)

theorem grep_file_witness: "grep ''b.*d'' [''abcd'' @ [newline] @ ''bc'' @ [newline] @ ''bd''] = ''abcd'' @ [newline]"
proof -
  let ?d = "''abcd'' @ newline # ''bc'' @ newline # ''bd''"
  have c: "complete_lines ?d = [''abcd'', ''bc'']"
    by (subst complete_lines_line, simp, subst complete_lines_line, simp) (simp add: complete_lines_none)
  have "grep_match ''b.*d'' ''abcd''" "\<not> grep_match ''b.*d'' ''bc''" by code_simp+
  with grep_file [of ?d "''b.*d''"] c show ?thesis by simp
qed

text \<open>
  C26: When a read returns the beginning of a line and no newline, as reads from a pipe do, \<^verbatim>\<open>grep\<close> forgets that
  part: the line is then matched and printed without it.
\<close>

theorem grep_loses_split_line:
  assumes "a \<noteq> []" and "length a \<le> 1023" and "length b < 1023" and "newline \<notin> set (a @ b)" and "NUL \<notin> set (a @ b)"
  shows "grep re [a, b @ [newline]] = (if grep_match re b then b @ [newline] else [])"
proof -
  have a: "grep_lines re a = ([], a)" using assms grep_lines_spec [of a re] by (simp add: complete_lines_none tail_none)
  have "grep_lines re (b @ [newline]) = ((if grep_match re b then b @ [newline] else []), [])"
    using assms grep_lines_spec [of "b @ [newline]" re] complete_lines_line [of b "[]"] tail_line [of b "[]"]
    by (simp add: complete_lines_none)
  then have "grep_loop re [] [b @ [newline]] = (if grep_match re b then b @ [newline] else [])"
    using assms(3) by (simp add: grep_loop.simps [of re "[]" "[b @ [newline]]"] grep_loop_end)
  with a assms(1,2) show ?thesis
    by (simp add: grep_def grep_loop.simps [of re "[]" "[a, b @ [newline]]"])
qed

theorem grep_loses_split_line_witness:
  "grep ''hello'' [''hel'', ''lo'' @ [newline]] = [] \<and> grep_match ''hello'' ''hello''"
proof -
  have "\<not> grep_match ''hello'' ''lo''" "grep_match ''hello'' ''hello''" by code_simp+
  with grep_loses_split_line [of "''hel''" "''lo''" "''hello''"] show ?thesis by simp
qed

section \<open>Correctness of wc\<close>

text \<open>A word starts at a character that is no space and follows a space or nothing.\<close>

definition word_starts :: "string \<Rightarrow> nat" where
  "word_starts s = length (filter (\<lambda>i. \<not> is_space (s ! i) \<and> (i = 0 \<or> is_space (s ! (i - 1)))) [0..<length s])"

lemma word_starts_snoc:
  "word_starts (s @ [x]) = word_starts s + (if \<not> is_space x \<and> (s = [] \<or> is_space (last s)) then 1 else 0)"
proof -
  let ?P = "\<lambda>s i. \<not> is_space (s ! i) \<and> (i = 0 \<or> is_space (s ! (i - 1)))"
  have "filter (?P (s @ [x])) [0..<length s] = filter (?P s) [0..<length s]"
    by (rule filter_cong) (auto simp: nth_append)
  moreover have "?P (s @ [x]) (length s) \<longleftrightarrow> \<not> is_space x \<and> (s = [] \<or> is_space (last s))"
    by (cases "s = []") (auto simp: nth_append last_conv_nth)
  ultimately show ?thesis by (simp add: word_starts_def)
qed

lemma wc_bytes:
  "fold wc_byte s \<lparr>wc_l = 0, wc_w = 0, wc_c = 0, wc_inword = False\<rparr> =
     \<lparr>wc_l = of_nat (count_list s newline), wc_w = of_nat (word_starts s), wc_c = of_nat (length s),
      wc_inword = (s \<noteq> [] \<and> \<not> is_space (last s))\<rparr>"
proof (induction s rule: rev_induct)
  case Nil
  then show ?case by (simp add: word_starts_def)
next
  case (snoc x s)
  then show ?case by (simp add: word_starts_snoc count_list_append) (auto simp: wc_byte_def Let_def)
qed

lemma wc_loop_bytes: "\<forall>c \<in> set inp. c \<noteq> [] \<Longrightarrow> wc_loop inp s = fold wc_byte (concat inp) s"
proof (induction inp s rule: wc_loop.induct)
  case (1 inp s)
  show ?case
  proof (cases inp)
    case (Cons c cs)
    let ?r = "if length c \<le> 512 then cs else drop 512 c # cs"
    have c: "take 512 c \<noteq> []" using "1.prems" Cons by auto
    have u: "uread 512 inp = (take 512 c, ?r)" using Cons by simp
    have "wc_loop inp s = wc_loop ?r (fold wc_byte (take 512 c) s)"
      using c by (simp add: wc_loop.simps [of inp s] u)
    also have "\<dots> = fold wc_byte (concat ?r) (fold wc_byte (take 512 c) s)"
      using "1.prems" Cons c by (intro "1.IH" [OF u [symmetric] refl]) auto
    also have "\<dots> = fold wc_byte (take 512 c @ concat ?r) s" by simp
    also have "take 512 c @ concat ?r = concat inp" using Cons by simp
    finally show ?thesis .
  qed (simp add: wc_loop.simps)
qed

text \<open>
  C24: \<^verbatim>\<open>wc\<close> counts the newlines, the words and the characters of its input, in 32-bit arithmetic,
  independently of how reads split the input. The reads are taken to succeed: the exit on a read error and the printing of the
  three numbers are not part of the model.
\<close>

theorem wc_counts:
  assumes "\<forall>c \<in> set inp. c \<noteq> []"
  shows "wc inp = (of_nat (count_list (concat inp) newline), of_nat (word_starts (concat inp)), of_nat (length (concat inp)))"
  using wc_loop_bytes [OF assms] by (simp add: wc_def wc_bytes)

theorem wc_counts_witness: "wc [''ab c'', ''d'' @ [newline]] = (1, 2, 6)"
proof -
  have "word_starts (concat [''ab c'', ''d'' @ [newline]]) = 2" by code_simp
  with wc_counts [of "[''ab c'', ''d'' @ [newline]]"] show ?thesis by simp
qed

end
