(* ===== verification/Umalloc.thy ===== *)
theory Umalloc
  imports Memory
begin

text \<open>
  The allocator of user programs, \<^verbatim>\<open>umalloc.c\<close>: a circular list of free blocks in order of address, which starts
  at the static variable \<^verbatim>\<open>base\<close>. A block starts with a header of 8 bytes, and its size counts units of 8 bytes,
  the header included. The headers are a map from their addresses; all of them lie at multiples of 8 bytes from each other, so
  that two headers never overlap in part. Whether \<^verbatim>\<open>sbrk\<close> succeeds is decided by the kernel, a parameter \<open>grow\<close> of
  the model: it gets the old end of the heap and the number of bytes.
\<close>

record header =
  h_ptr :: u32
  h_size :: u32

record umem =
  um_hdr :: "u32 \<Rightarrow> header"
  um_freep :: u32
  um_brk :: u32

definition set_ptr :: "u32 \<Rightarrow> u32 \<Rightarrow> (u32 \<Rightarrow> header) \<Rightarrow> u32 \<Rightarrow> header" where
  "set_ptr a v h = h(a := (h a)\<lparr>h_ptr := v\<rparr>)"

definition set_size :: "u32 \<Rightarrow> u32 \<Rightarrow> (u32 \<Rightarrow> header) \<Rightarrow> u32 \<Rightarrow> header" where
  "set_size a v h = h(a := (h a)\<lparr>h_size := v\<rparr>)"

text \<open>The loop of \<^verbatim>\<open>free\<close> that looks for the block after which the freed block belongs.\<close>

partial_function (option) free_find :: "(u32 \<Rightarrow> header) \<Rightarrow> u32 \<Rightarrow> u32 \<Rightarrow> u32 option" where
  "free_find h bp p =
     (if bp > p \<and> bp < h_ptr (h p) then Some p
      else if p \<ge> h_ptr (h p) \<and> (bp > p \<or> bp < h_ptr (h p)) then Some p
      else free_find h bp (h_ptr (h p)))"

definition free :: "u32 \<Rightarrow> umem \<Rightarrow> umem option" where
  "free ap s =
     (let bp = ap - 8; h = um_hdr s in
      case free_find h bp (um_freep s) of None \<Rightarrow> None
      | Some p \<Rightarrow>
          let q = h_ptr (h p);
              h1 = (if bp + 8 * h_size (h bp) = q
                    then set_ptr bp (h_ptr (h q)) (set_size bp (h_size (h bp) + h_size (h q)) h)
                    else set_ptr bp q h);
              h2 = (if p + 8 * h_size (h1 p) = bp
                    then set_ptr p (h_ptr (h1 bp)) (set_size p (h_size (h1 p) + h_size (h1 bp)) h1)
                    else set_ptr p bp h1)
          in Some (s\<lparr>um_hdr := h2, um_freep := p\<rparr>))"

text \<open>
  The system call \<^verbatim>\<open>sbrk\<close>: whether the kernel grants the memory is the parameter \<open>grow\<close>. Only growth is modelled: \<^verbatim>\<open>morecore\<close>
  never asks for a negative amount unless the size wraps.
\<close>

definition usbrk :: "(u32 \<Rightarrow> u32 \<Rightarrow> bool) \<Rightarrow> u32 \<Rightarrow> umem \<Rightarrow> u32 \<times> umem" where
  "usbrk grow n s = (if grow (um_brk s) n then (um_brk s, s\<lparr>um_brk := um_brk s + n\<rparr>) else (- 1, s))"

definition morecore :: "(u32 \<Rightarrow> u32 \<Rightarrow> bool) \<Rightarrow> u32 \<Rightarrow> umem \<Rightarrow> (u32 \<times> umem) option" where
  "morecore grow nu s =
     (let nu = (if nu < 4096 then 4096 else nu); (p, s) = usbrk grow (nu * 8) s in
      if p = - 1 then Some (0, s)
      else case free (p + 8) (s\<lparr>um_hdr := set_size p nu (um_hdr s)\<rparr>) of None \<Rightarrow> None
        | Some s \<Rightarrow> Some (um_freep s, s))"

definition carve :: "u32 \<Rightarrow> u32 \<Rightarrow> u32 \<Rightarrow> umem \<Rightarrow> u32 \<times> umem" where
  "carve nunits prevp p s =
     (let h = um_hdr s;
          (p, h) = (if h_size (h p) = nunits then (p, set_ptr prevp (h_ptr (h p)) h)
                    else let r = h_size (h p) - nunits in
                      (p + 8 * r, set_size (p + 8 * r) nunits (set_size p r h)))
      in (p + 8, s\<lparr>um_hdr := h, um_freep := prevp\<rparr>))"

partial_function (option) malloc_loop ::
  "(u32 \<Rightarrow> u32 \<Rightarrow> bool) \<Rightarrow> u32 \<Rightarrow> u32 \<Rightarrow> u32 \<Rightarrow> umem \<Rightarrow> (u32 \<times> umem) option" where
  "malloc_loop grow nunits prevp p s =
     (if h_size (um_hdr s p) \<ge> nunits then Some (carve nunits prevp p s)
      else if p = um_freep s then
        (case morecore grow nunits s of None \<Rightarrow> None
         | Some (p, s) \<Rightarrow> if p = 0 then Some (0, s) else malloc_loop grow nunits p (h_ptr (um_hdr s p)) s)
      else malloc_loop grow nunits p (h_ptr (um_hdr s p)) s)"

declare free_find.simps [code] malloc_loop.simps [code]

definition units :: "u32 \<Rightarrow> u32" where
  "units nbytes = (nbytes + 8 - 1) div 8 + 1"

definition malloc :: "(u32 \<Rightarrow> u32 \<Rightarrow> bool) \<Rightarrow> u32 \<Rightarrow> u32 \<Rightarrow> umem \<Rightarrow> (u32 \<times> umem) option" where
  "malloc grow base nbytes s =
     (let s = (if um_freep s = 0
               then s\<lparr>um_hdr := set_size base 0 (set_ptr base base (um_hdr s)), um_freep := base\<rparr> else s)
      in malloc_loop grow (units nbytes) (um_freep s) (h_ptr (um_hdr s (um_freep s))) s)"

section \<open>The list of free blocks\<close>

type_synonym block = "u32 \<times> u32"

fun first_of :: "block list \<Rightarrow> u32 \<Rightarrow> u32" where
  "first_of [] z = z"
| "first_of ((a, n) # bs) z = a"

fun seg :: "(u32 \<Rightarrow> header) \<Rightarrow> block list \<Rightarrow> u32 \<Rightarrow> bool" where
  "seg h [] z \<longleftrightarrow> True"
| "seg h ((a, n) # bs) z \<longleftrightarrow> h a = \<lparr>h_ptr = first_of bs z, h_size = n\<rparr> \<and> seg h bs z"

definition block_end :: "block \<Rightarrow> nat" where
  "block_end x = unat (fst x) + 8 * max 1 (unat (snd x))"

definition before :: "block \<Rightarrow> block \<Rightarrow> bool" where
  "before x y \<longleftrightarrow> block_end x \<le> unat (fst y)"

definition apart :: "block \<Rightarrow> block \<Rightarrow> bool" where
  "apart x y \<longleftrightarrow> before x y \<or> before y x"

definition heap_ok :: "u32 \<Rightarrow> umem \<Rightarrow> block list \<Rightarrow> block set \<Rightarrow> bool" where
  "heap_ok base s bs A \<longleftrightarrow>
     base \<noteq> 0 \<and> unat (um_brk s) < 2147483648 \<and> block_end (base, 0) \<le> unat (um_brk s) \<and>
     seg (um_hdr s) ((base, 0) # bs) base \<and> um_freep s \<in> insert base (fst ` set bs) \<and>
     sorted_wrt before ((base, 0) # bs) \<and>
     (\<forall>x \<in> set bs \<union> A. snd x \<noteq> 0 \<and> before (base, 0) x \<and> block_end x \<le> unat (um_brk s)) \<and>
     (\<forall>x \<in> A. h_size (um_hdr s (fst x)) = snd x) \<and>
     (\<forall>x \<in> A. \<forall>y \<in> set bs. apart x y) \<and> (\<forall>x \<in> A. \<forall>y \<in> A. x \<noteq> y \<longrightarrow> apart x y)"

lemma seg_append: "seg h (xs @ ys) z \<longleftrightarrow> seg h xs (first_of ys z) \<and> seg h ys z"
proof (induction xs)
  case (Cons x xs)
  then show ?case by (cases x; cases xs) auto
qed simp

lemma first_of_append: "first_of (xs @ ys) z = first_of xs (first_of ys z)"
  by (cases xs) auto

lemma seg_upd: "a \<notin> fst ` set bs \<Longrightarrow> seg (h(a := v)) bs z \<longleftrightarrow> seg h bs z"
  by (induction bs) auto

lemma before_trans: "before x y \<Longrightarrow> before y z \<Longrightarrow> before x z"
  by (simp add: before_def block_end_def)

lemma before_less: "before x y \<Longrightarrow> fst x < fst y"
  by (simp add: before_def block_end_def word_less_nat_alt)

lemma sorted_addr: "sorted_wrt before L \<Longrightarrow> sorted_wrt (\<lambda>x y. fst x < fst y) L"
  by (erule sorted_wrt_mono_rel [rotated]) (rule before_less)

section \<open>free\<close>

lemma first_in: "first_of bs z = z \<or> (\<exists>n. (first_of bs z, n) \<in> set bs)"
  by (cases bs) auto

lemma find_low:
  assumes "seg h (ls @ (p, sp) # rs) z" and "sorted_wrt (\<lambda>x y. fst x < fst y) (ls @ (p, sp) # rs)"
    and "\<forall>x \<in> set ls. fst x < bp" and "p < bp" and "free_find h bp p = Some p"
  shows "\<forall>x \<in> set ls. free_find h bp (fst x) = Some p"
  using assms
proof (induction ls)
  case (Cons x ls)
  obtain a n where x: "x = (a, n)" by force
  let ?nx = "first_of (ls @ (p, sp) # rs) z"
  have sg: "seg h (ls @ (p, sp) # rs) z" using Cons.prems(1) x by simp
  have IH: "\<forall>x \<in> set ls. free_find h bp (fst x) = Some p" using Cons.IH [OF sg] Cons.prems(2-) by simp
  have nx: "?nx = p \<or> (\<exists>n. (?nx, n) \<in> set ls)" by (cases ls) auto
  then have "?nx < bp" "a < ?nx" "free_find h bp ?nx = Some p"
    using Cons.prems IH x by force+
  moreover have "h_ptr (h a) = ?nx" using Cons.prems(1) x by simp
  ultimately have "free_find h bp a = Some p"
    by (subst free_find.simps) auto
  with IH x show ?case by simp
qed simp

lemma find_high:
  assumes "seg h rs base" and "sorted_wrt (\<lambda>x y. fst x < fst y) rs"
    and "\<forall>x \<in> set rs. bp < fst x" and "base < bp" and "free_find h bp base = Some p"
  shows "\<forall>x \<in> set rs. free_find h bp (fst x) = Some p"
  using assms
proof (induction rs)
  case (Cons x rs)
  obtain a n where x: "x = (a, n)" by force
  let ?nx = "first_of rs base"
  have sg: "seg h rs base" using Cons.prems(1) x by simp
  have IH: "\<forall>x \<in> set rs. free_find h bp (fst x) = Some p" using Cons.IH [OF sg] Cons.prems(2-) by simp
  have "a < ?nx \<or> ?nx = base" "free_find h bp ?nx = Some p"
    using first_in [of rs base] Cons.prems IH x by force+
  moreover have "h_ptr (h a) = ?nx" "bp < a" using Cons.prems x by simp_all
  ultimately have "free_find h bp a = Some p"
    using \<open>base < bp\<close> by (subst free_find.simps) auto
  with IH x show ?case by simp
qed simp

lemma free_find_spec:
  assumes L: "(base, 0) # bs = ls @ (p, sp) # rs" and seg: "seg h ((base, 0) # bs) base"
    and so: "sorted_wrt (\<lambda>x y. fst x < fst y) ((base, 0) # bs)" and f: "f \<in> insert base (fst ` set bs)"
    and lo: "\<forall>x \<in> set ls. fst x < bp" "p < bp" and hi: "\<forall>x \<in> set rs. bp < fst x"
  shows "free_find h bp f = Some p"
proof -
  have pb: "base \<le> p" "base < bp" using L so lo by (cases ls; auto)+
  have hp: "h_ptr (h p) = first_of rs base" using seg unfolding L by (simp add: seg_append)
  have "bp < first_of rs base \<or> first_of rs base = base" using hi by (cases rs) auto
  then have at: "free_find h bp p = Some p"
    using lo(2) pb hp by (subst free_find.simps) auto
  have low: "\<forall>x \<in> set ls. free_find h bp (fst x) = Some p"
    using find_low [of h ls p sp rs base bp] seg so lo at unfolding L by blast
  have "base = p \<or> (base, 0) \<in> set ls" using L by (cases ls) auto
  then have "free_find h bp base = Some p" using at low by force
  then have high: "\<forall>x \<in> set rs. free_find h bp (fst x) = Some p"
    using find_high [of h rs base bp p] seg so hi pb unfolding L by (simp add: seg_append sorted_wrt_append)
  have "f \<in> fst ` set ((base, 0) # bs)" using f by simp
  then show ?thesis unfolding L using low high at by auto
qed

text \<open>What the list becomes: the freed block joins its neighbours when it touches them.\<close>

fun join_next :: "block \<Rightarrow> block list \<Rightarrow> block list" where
  "join_next (a, n) [] = [(a, n)]"
| "join_next (a, n) ((b, m) # bs) = (if a + 8 * n = b then (a, n + m) # bs else (a, n) # (b, m) # bs)"

lemma free_run:
  assumes L: "(base, 0) # bs = ls @ (p, sp) # rs" and seg: "seg (um_hdr s) ((base, 0) # bs) base"
    and so: "sorted_wrt (\<lambda>x y. fst x < fst y) ((base, 0) # bs)" and f: "um_freep s \<in> insert base (fst ` set bs)"
    and lo: "\<forall>x \<in> set ls. fst x < bp" "p < bp" and hi: "\<forall>x \<in> set rs. bp < fst x"
    and n: "h_size (um_hdr s bp) = n" and nb: "bp + 8 * n \<noteq> base"
  shows "\<exists>h. free (bp + 8) s = Some (s\<lparr>um_hdr := h, um_freep := p\<rparr>) \<and>
    seg h (ls @ join_next (p, sp) (join_next (bp, n) rs)) base \<and> (\<forall>a. a \<noteq> p \<and> a \<noteq> bp \<longrightarrow> h a = um_hdr s a)"
proof -
  have ff: "free_find (um_hdr s) bp (um_freep s) = Some p"
    by (rule free_find_spec [OF L seg so f lo hi])
  have d: "p \<notin> fst ` set ls" "bp \<notin> fst ` set ls" "p \<notin> fst ` set rs" "bp \<notin> fst ` set rs" "p \<noteq> bp"
    using so lo hi unfolding L by (auto simp: sorted_wrt_append)
  have sg: "seg (um_hdr s) ls p" "um_hdr s p = \<lparr>h_ptr = first_of rs base, h_size = sp\<rparr>" "seg (um_hdr s) rs base"
    using seg unfolding L by (simp_all add: seg_append)
  show ?thesis
    using d sg n nb
    by (cases rs) (auto simp: free_def ff Let_def set_ptr_def set_size_def seg_append seg_upd first_of_append)
qed

definition sized :: "nat \<Rightarrow> block \<Rightarrow> bool" where
  "sized lim x \<longleftrightarrow> snd x \<noteq> 0 \<and> block_end x \<le> lim"

lemma sizedD:
  assumes "sized lim (a, n)"
  shows "0 < unat n" and "block_end (a, n) = unat a + 8 * unat n" and "unat a + 8 * unat n \<le> lim"
proof -
  show p: "0 < unat n" using assms by (simp add: sized_def unat_gt_0)
  then show e: "block_end (a, n) = unat a + 8 * unat n" by (simp add: block_end_def max_def)
  show "unat a + 8 * unat n \<le> lim" using assms e by (simp add: sized_def)
qed

lemma touch:
  assumes "sized lim (a, n)" and "lim < 4294967296"
  shows "unat (a + 8 * n) = unat a + 8 * unat n"
proof -
  have le: "unat a + 8 * unat n \<le> lim" using sizedD [OF assms(1)] by simp
  then have "unat (8 * n) = 8 * unat n" using assms(2) by (simp add: unat_word_ariths)
  with le assms(2) show ?thesis by (simp add: unat_add_u32)
qed

lemma joined:
  assumes "sized lim (a, n)" and "sized lim (b, m)" and "lim < 4294967296" and "a + 8 * n = b"
  shows "sized lim (a, n + m)" and "block_end (a, n + m) = block_end (b, m)" and "n \<le> n + m" and "m \<le> n + m"
proof -
  have b: "unat b = unat a + 8 * unat n" using touch [OF assms(1,3)] assms(4) by simp
  note n = sizedD [OF assms(1)] and m = sizedD [OF assms(2)]
  have "unat n + unat m < 4294967296" using n m b assms(3) by linarith
  then have u: "unat (n + m) = unat n + unat m" by (rule unat_add_u32)
  then have nz: "n + m \<noteq> 0" using n by (auto simp: word_unat_eq_iff)
  have "max 1 (unat n + unat m) = unat n + unat m" using n by (intro max_absorb2) linarith
  then have e: "block_end (a, n + m) = unat a + 8 * (unat n + unat m)" by (simp add: block_end_def u)
  show be: "block_end (a, n + m) = block_end (b, m)" unfolding e m(2) b by simp
  show "sized lim (a, n + m)" using be m nz unfolding sized_def by simp
  show "n \<le> n + m" "m \<le> n + m" using u by (simp_all add: word_le_nat_alt)
qed

lemma join_next_props:
  assumes so: "sorted_wrt before (x # bs)" and sz: "\<forall>y \<in> set (x # bs). sized lim y" and lim: "lim < 4294967296"
  shows "sorted_wrt before (join_next x bs)" and "\<forall>y \<in> set (join_next x bs). sized lim y"
    and "\<forall>y \<in> set (x # bs). before w y \<Longrightarrow> \<forall>y \<in> set (join_next x bs). before w y"
    and "\<forall>y \<in> set (x # bs). apart w y \<Longrightarrow> \<forall>y \<in> set (join_next x bs). apart w y"
    and "\<exists>y \<in> set (join_next x bs). snd x \<le> snd y" and "\<exists>m. hd (join_next x bs) = (fst x, m)"
    and "\<forall>z \<in> set bs. \<exists>y \<in> set (join_next x bs). snd z \<le> snd y"
proof -
  obtain a n where x: "x = (a, n)" by force
  have "sorted_wrt before (join_next x bs) \<and> (\<forall>y \<in> set (join_next x bs). sized lim y) \<and>
     ((\<forall>y \<in> set (x # bs). before w y) \<longrightarrow> (\<forall>y \<in> set (join_next x bs). before w y)) \<and>
     ((\<forall>y \<in> set (x # bs). apart w y) \<longrightarrow> (\<forall>y \<in> set (join_next x bs). apart w y)) \<and>
     (\<exists>y \<in> set (join_next x bs). snd x \<le> snd y) \<and> (\<exists>m. hd (join_next x bs) = (fst x, m)) \<and>
     (\<forall>z \<in> set bs. \<exists>y \<in> set (join_next x bs). snd z \<le> snd y)"
  proof (cases "\<exists>b m cs. bs = (b, m) # cs \<and> a + 8 * n = b")
    case True
    then obtain b m cs where bs: "bs = (b, m) # cs" and t: "a + 8 * n = b" by blast
    have sa: "sized lim (a, n)" "sized lim (b, m)" using sz x bs by auto
    note j = joined [OF sa lim t]
    have jb: "join_next x bs = (a, n + m) # cs" using x bs t by simp
    have "block_end (a, n) = unat b" using touch [OF sa(1) lim] sizedD [OF sa(1)] t by simp
    then have "apart w (a, n + m)" if "apart w (a, n)" "apart w (b, m)" for w
      using that j(2) unfolding apart_def before_def by (auto simp: block_end_def)
    moreover have "before (a, n + m) y" if "y \<in> set cs" for y
      using so x bs that j(2) by (auto simp: before_def)
    ultimately show ?thesis unfolding jb using so sz x bs j by (auto simp: before_def)
  next
    case False
    then have "join_next x bs = x # bs" using x by (cases bs) auto
    with so sz x show ?thesis by auto
  qed
  then show "sorted_wrt before (join_next x bs)" "\<forall>y \<in> set (join_next x bs). sized lim y"
    "\<forall>y \<in> set (x # bs). before w y \<Longrightarrow> \<forall>y \<in> set (join_next x bs). before w y"
    "\<forall>y \<in> set (x # bs). apart w y \<Longrightarrow> \<forall>y \<in> set (join_next x bs). apart w y"
    "\<exists>y \<in> set (join_next x bs). snd x \<le> snd y" "\<exists>m. hd (join_next x bs) = (fst x, m)"
    "\<forall>z \<in> set bs. \<exists>y \<in> set (join_next x bs). snd z \<le> snd y" by blast+
qed

lemma split_at:
  assumes "sorted_wrt before L" and "\<forall>y \<in> set L. apart x y" and "\<exists>y \<in> set L. before y x"
  obtains ls p rs where "L = ls @ p # rs" and "before p x" and "\<forall>y \<in> set ls. before y x" and "\<forall>y \<in> set rs. before x y"
proof -
  obtain ls p rs where L: "L = ls @ p # rs" "before p x" "\<forall>y \<in> set rs. \<not> before y x"
    using split_list_last_prop [OF assms(3)] by blast
  have "\<forall>y \<in> set ls. before y p" using assms(1) L(1) by (simp add: sorted_wrt_append)
  then have "\<forall>y \<in> set ls. before y x" using L(2) before_trans by blast
  moreover have "\<forall>y \<in> set rs. before x y" using assms(2) L by (auto simp: apart_def)
  ultimately show ?thesis using that L by blast
qed

lemma heap_okD:
  assumes "heap_ok base s bs A"
  shows "base \<noteq> 0" and "unat (um_brk s) < 2147483648" and "seg (um_hdr s) ((base, 0) # bs) base"
    and "um_freep s \<in> insert base (fst ` set bs)" and "sorted_wrt before ((base, 0) # bs)"
    and "\<And>x. x \<in> set bs \<union> A \<Longrightarrow> sized (unat (um_brk s)) x" and "\<And>x. x \<in> set bs \<union> A \<Longrightarrow> before (base, 0) x"
    and "\<And>x. x \<in> A \<Longrightarrow> h_size (um_hdr s (fst x)) = snd x" and "\<And>x y. x \<in> A \<Longrightarrow> y \<in> set bs \<Longrightarrow> apart x y"
    and "\<And>x y. x \<in> A \<Longrightarrow> y \<in> A \<Longrightarrow> x \<noteq> y \<Longrightarrow> apart x y" and "block_end (base, 0) \<le> unat (um_brk s)"
  using assms by (auto simp: heap_ok_def sized_def)

lemma heap_okI:
  assumes "base \<noteq> 0" and "unat (um_brk s) < 2147483648" and "seg (um_hdr s) ((base, 0) # bs) base"
    and "um_freep s \<in> insert base (fst ` set bs)" and "sorted_wrt before bs"
    and "\<And>x. x \<in> set bs \<union> A \<Longrightarrow> sized (unat (um_brk s)) x" and "\<And>x. x \<in> set bs \<union> A \<Longrightarrow> before (base, 0) x"
    and "\<And>x. x \<in> A \<Longrightarrow> h_size (um_hdr s (fst x)) = snd x" and "\<And>x y. x \<in> A \<Longrightarrow> y \<in> set bs \<Longrightarrow> apart x y"
    and "\<And>x y. x \<in> A \<Longrightarrow> y \<in> A \<Longrightarrow> x \<noteq> y \<Longrightarrow> apart x y" and "block_end (base, 0) \<le> unat (um_brk s)"
  shows "heap_ok base s bs A"
  using assms unfolding heap_ok_def sized_def by auto

text \<open>The new list: a freed block \<open>x\<close> between the parts of the list.\<close>

lemma join_both:
  assumes so: "sorted_wrt before (ls @ p # rs)" and x: "before p x" "\<forall>y \<in> set ls. before y x" "\<forall>y \<in> set rs. before x y"
    and sz: "\<forall>y \<in> set (x # ls @ p # rs). sized lim y" and lim: "lim < 4294967296"
  defines "bs \<equiv> ls @ join_next p (join_next x rs)"
  shows "sorted_wrt before bs" and "\<forall>y \<in> set bs. sized lim y"
    and "\<forall>y \<in> set (x # ls @ p # rs). before w y \<Longrightarrow> \<forall>y \<in> set bs. before w y"
    and "\<forall>y \<in> set (x # ls @ p # rs). apart w y \<Longrightarrow> \<forall>y \<in> set bs. apart w y"
    and "\<exists>y \<in> set bs. snd x \<le> snd y" and "\<exists>m. (fst p, m) \<in> set bs"
proof -
  let ?X = "join_next x rs"
  have s1: "sorted_wrt before (x # rs)" and z1: "\<forall>y \<in> set (x # rs). sized lim y"
    using so x sz by (auto simp: sorted_wrt_append)
  note X = join_next_props [OF s1 z1 lim]
  have "\<forall>y \<in> set (x # rs). before p y" using so x by (auto simp: sorted_wrt_append)
  then have "\<forall>y \<in> set ?X. before p y" by (rule X(3))
  with X(1) have s2: "sorted_wrt before (p # ?X)" by simp
  have z2: "\<forall>y \<in> set (p # ?X). sized lim y" using X(2) sz by simp
  note J = join_next_props [OF s2 z2 lim]
  have be: "\<forall>y \<in> set (join_next p ?X). before w y" if "\<forall>y \<in> set (x # p # rs). before w y" for w
  proof (rule J(3))
    have "\<forall>y \<in> set ?X. before w y" using that by (intro X(3)) simp
    with that show "\<forall>y \<in> set (p # ?X). before w y" by simp
  qed
  have ap: "\<forall>y \<in> set (join_next p ?X). apart w y" if "\<forall>y \<in> set (x # p # rs). apart w y" for w
  proof (rule J(4))
    have "\<forall>y \<in> set ?X. apart w y" using that by (intro X(4)) simp
    with that show "\<forall>y \<in> set (p # ?X). apart w y" by simp
  qed
  have "\<forall>w \<in> set ls. \<forall>y \<in> set (x # p # rs). before w y" using so x by (auto simp: sorted_wrt_append)
  then have "\<forall>w \<in> set ls. \<forall>y \<in> set (join_next p ?X). before w y" using be by blast
  then show "sorted_wrt before bs" using so J(1) by (simp add: bs_def sorted_wrt_append)
  show "\<forall>y \<in> set bs. sized lim y" using J(2) sz by (auto simp: bs_def)
  show "\<forall>y \<in> set bs. before w y" if "\<forall>y \<in> set (x # ls @ p # rs). before w y"
    using be [of w] that by (auto simp: bs_def)
  show "\<forall>y \<in> set bs. apart w y" if "\<forall>y \<in> set (x # ls @ p # rs). apart w y"
    using ap [of w] that by (auto simp: bs_def)
  obtain y where y: "y \<in> set ?X" "snd x \<le> snd y" using X(5) by blast
  then obtain z where z: "z \<in> set (join_next p ?X)" "snd y \<le> snd z" using J(7) by blast
  then have "z \<in> set bs" "snd x \<le> snd z" using order_trans [OF y(2)] by (simp_all add: bs_def)
  then show "\<exists>y \<in> set bs. snd x \<le> snd y" by blast
  obtain m where "hd (join_next p ?X) = (fst p, m)" using J(6) by blast
  moreover have "join_next p ?X \<noteq> []" by (cases p; cases ?X) (auto split: if_splits)
  ultimately have "(fst p, m) \<in> set (join_next p ?X)" by (metis list.set_sel(1))
  then show "\<exists>m. (fst p, m) \<in> set bs" by (auto simp: bs_def)
qed

lemma apart_fst: "apart x y \<Longrightarrow> fst x \<noteq> fst y"
  by (auto simp: apart_def dest: before_less)

lemma free_ok:
  assumes ok: "heap_ok base s bs A" and x: "(bp, n) \<in> A"
  shows "\<exists>s' bs'. free (bp + 8) s = Some s' \<and> heap_ok base s' bs' (A - {(bp, n)}) \<and>
    um_brk s' = um_brk s \<and> (\<exists>y \<in> set bs'. n \<le> snd y)"
proof -
  note ok' = heap_okD [OF ok]
  let ?L = "(base, 0) # bs" and ?lim = "unat (um_brk s)"
  have lim: "?lim < 4294967296" using ok'(2) by simp
  have ap: "\<forall>y \<in> set ?L. apart (bp, n) y" using ok'(7,9) x by (auto simp: apart_def)
  have be: "\<exists>y \<in> set ?L. before y (bp, n)" using ok'(7) x by auto
  obtain ls p rs where L: "?L = ls @ p # rs" and p: "before p (bp, n)" "\<forall>y \<in> set ls. before y (bp, n)"
    and rs: "\<forall>y \<in> set rs. before (bp, n) y" by (rule split_at [OF ok'(5) ap be])
  obtain pa sp where pe: "p = (pa, sp)" by force
  have sz: "sized ?lim (bp, n)" using ok'(6) x by blast
  have "unat base < unat (bp + 8 * n)"
    using ok'(7) [of "(bp, n)"] x touch [OF sz lim] by (simp add: before_def block_end_def)
  then have nb: "bp + 8 * n \<noteq> base" by auto
  have L': "?L = ls @ (pa, sp) # rs" using L pe by simp
  have lo: "\<forall>x \<in> set ls. fst x < bp" "pa < bp" and hi: "\<forall>x \<in> set rs. bp < fst x"
    using p rs pe before_less by force+
  have hn: "h_size (um_hdr s bp) = n" using ok'(8) [OF x] by simp
  obtain h where fr: "free (bp + 8) s = Some (s\<lparr>um_hdr := h, um_freep := pa\<rparr>)"
    and sg: "seg h (ls @ join_next (pa, sp) (join_next (bp, n) rs)) base"
    and same: "\<forall>a. a \<noteq> pa \<and> a \<noteq> bp \<longrightarrow> h a = um_hdr s a"
    using free_run [OF L' ok'(3) sorted_addr [OF ok'(5)] ok'(4) lo hi hn nb] by blast
  let ?s = "s\<lparr>um_hdr := h, um_freep := pa\<rparr>"
  have "\<exists>bs'. ls @ join_next (pa, sp) (join_next (bp, n) rs) = (base, 0) # bs' \<and> pa \<in> insert base (fst ` set bs') \<and>
     sorted_wrt before bs' \<and> (\<forall>y \<in> set bs'. sized ?lim y) \<and>
     (\<forall>w. (\<forall>y \<in> set ((bp, n) # bs). before w y) \<longrightarrow> (\<forall>y \<in> set bs'. before w y)) \<and>
     (\<forall>w. (\<forall>y \<in> set ((bp, n) # bs). apart w y) \<longrightarrow> (\<forall>y \<in> set bs'. apart w y)) \<and> (\<exists>y \<in> set bs'. n \<le> snd y)"
  proof (cases ls)
    case Nil
    with L' have e: "pa = base" "sp = 0" "bs = rs" by simp_all
    let ?X = "join_next (bp, n) rs"
    have s1: "sorted_wrt before ((bp, n) # rs)" "\<forall>y \<in> set ((bp, n) # rs). sized ?lim y"
      using ok'(5,6) rs x e by auto
    note X = join_next_props [OF s1 lim]
    obtain m Y where Y: "?X = (bp, m) # Y" using X(6) by (cases rs) (auto split: if_splits)
    have "base \<noteq> bp" using lo(2) e by simp
    then have j: "join_next (pa, sp) ?X = (base, 0) # ?X" unfolding Y e by simp
    show ?thesis
    proof (intro exI [of _ ?X] conjI allI impI)
      show "\<And>w. \<forall>y \<in> set ((bp, n) # bs). before w y \<Longrightarrow> \<forall>y \<in> set ?X. before w y" unfolding e(3) by (rule X(3))
      show "\<And>w. \<forall>y \<in> set ((bp, n) # bs). apart w y \<Longrightarrow> \<forall>y \<in> set ?X. apart w y" unfolding e(3) by (rule X(4))
      show "\<exists>y \<in> set ?X. n \<le> snd y" using X(5) by simp
    qed (use Nil j e X(1,2) in simp_all)
  next
    case (Cons b ls')
    with L' have e: "b = (base, 0)" "bs = ls' @ (pa, sp) # rs" by simp_all
    have s1: "sorted_wrt before (ls' @ (pa, sp) # rs)" "\<forall>y \<in> set ((bp, n) # ls' @ (pa, sp) # rs). sized ?lim y"
      using ok'(5,6) e x by auto
    have q: "before (pa, sp) (bp, n)" "\<forall>y \<in> set ls'. before y (bp, n)" using p Cons pe by auto
    note J = join_both [OF s1(1) q rs s1(2) lim]
    let ?B = "ls' @ join_next (pa, sp) (join_next (bp, n) rs)"
    show ?thesis
    proof (intro exI [of _ ?B] conjI allI impI)
      show "\<And>w. \<forall>y \<in> set ((bp, n) # bs). before w y \<Longrightarrow> \<forall>y \<in> set ?B. before w y" unfolding e(2) by (rule J(3))
      show "\<And>w. \<forall>y \<in> set ((bp, n) # bs). apart w y \<Longrightarrow> \<forall>y \<in> set ?B. apart w y" unfolding e(2) by (rule J(4))
      show "\<exists>y \<in> set ?B. n \<le> snd y" using J(5) by simp
      show "pa \<in> insert base (fst ` set ?B)" using J(6) by force
      show "sorted_wrt before ?B" by (rule J(1))
      show "\<forall>y \<in> set ?B. sized ?lim y" by (rule J(2))
    qed (use Cons e in simp)
  qed
  then obtain bs' where bs': "ls @ join_next (pa, sp) (join_next (bp, n) rs) = (base, 0) # bs'"
    "pa \<in> insert base (fst ` set bs')" "sorted_wrt before bs'" "\<forall>y \<in> set bs'. sized ?lim y"
    and bw: "\<And>w. (\<forall>y \<in> set ((bp, n) # bs). before w y) \<Longrightarrow> (\<forall>y \<in> set bs'. before w y)"
    and aw: "\<And>w. (\<forall>y \<in> set ((bp, n) # bs). apart w y) \<Longrightarrow> (\<forall>y \<in> set bs'. apart w y)"
    and big: "\<exists>y \<in> set bs'. n \<le> snd y" by blast
  have hs: "h (fst y) = um_hdr s (fst y)" if y: "y \<in> A - {(bp, n)}" for y
  proof -
    have "apart y (bp, n)" "apart y (base, 0)" using ok'(7,10) x y by (auto simp: apart_def)
    moreover have "(pa, sp) = (base, 0) \<or> (pa, sp) \<in> set bs" using L' by (cases ls) auto
    ultimately have "apart y (bp, n)" "apart y (pa, sp)" using ok'(9) [of y "(pa, sp)"] y by auto
    then show ?thesis using same apart_fst [of y] by force
  qed
  have "heap_ok base ?s bs' (A - {(bp, n)})"
  proof (rule heap_okI)
    show "seg (um_hdr ?s) ((base, 0) # bs') base" using sg bs'(1) by simp
    fix y
    assume "y \<in> set bs' \<union> (A - {(bp, n)})"
    moreover have "\<forall>y \<in> set bs'. before (base, 0) y" using ok'(7) x by (intro bw) auto
    ultimately show "before (base, 0) y" using ok'(7) [of y] by auto
  next
    fix y z
    assume "y \<in> A - {(bp, n)}" "z \<in> set bs'"
    then show "apart y z" using aw [of y] ok'(9) [of y] ok'(10) [OF _ x, of y] by auto
  next
    fix y
    assume "y \<in> A - {(bp, n)}"
    then show "h_size (um_hdr ?s (fst y)) = snd y" using hs ok'(8) [of y] by simp
  next
    fix y
    assume "y \<in> set bs' \<union> (A - {(bp, n)})"
    then show "sized (unat (um_brk ?s)) y" using bs'(4) ok'(6) [of y] by auto
  next
    fix y z
    assume "y \<in> A - {(bp, n)}" "z \<in> A - {(bp, n)}" "y \<noteq> z"
    then show "apart y z" using ok'(10) by blast
  qed (use ok'(1,2,11) bs'(2,3) in simp_all)
  with fr big show ?thesis by (intro exI [of _ ?s] exI [of _ bs']) simp
qed

section \<open>malloc\<close>

text \<open>Part of a block.\<close>

definition inside :: "block \<Rightarrow> block \<Rightarrow> bool" where
  "inside x y \<longleftrightarrow> unat (fst y) \<le> unat (fst x) \<and> block_end x \<le> block_end y"

lemma inside_before: "inside x y \<Longrightarrow> before w y \<Longrightarrow> before w x" "inside x y \<Longrightarrow> before y w \<Longrightarrow> before x w"
  by (simp_all add: inside_def before_def)

lemma inside_apart: "inside x y \<Longrightarrow> apart w y \<Longrightarrow> apart w x" "inside x y \<Longrightarrow> apart y w \<Longrightarrow> apart x w"
  by (auto simp: apart_def dest: inside_before)

lemma apart_sym: "apart x y \<longleftrightarrow> apart y x"
  by (auto simp: apart_def)

lemma unat_mult8: "8 * unat k < 4294967296 \<Longrightarrow> unat (8 * k :: u32) = 8 * unat k"
  by (simp add: unat_word_ariths)

lemma cut:
  assumes "sized lim (p, m)" and "n < m" and "n \<noteq> 0" and "lim < 4294967296" and r: "r = m - n"
  shows "sized lim (p, r)" and "sized lim (p + 8 * r, n)" and "inside (p, r) (p, m)"
    and "inside (p + 8 * r, n) (p, m)" and "before (p, r) (p + 8 * r, n)"
proof -
  note s = sizedD [OF assms(1)]
  have u: "unat r = unat m - unat n" "unat n < unat m" "0 < unat n"
    using assms(2,3) unat_diff_u32 [of n m] r by (simp_all add: word_less_nat_alt unat_gt_0)
  then have r0: "0 < unat r" by simp
  then have e: "block_end (p, r) = unat p + 8 * unat r"
    unfolding block_end_def fst_conv snd_conv by (simp add: max_def)
  have lt: "unat p + 8 * unat r < 4294967296" using s(3) assms(4) u by linarith
  then have "unat (8 * r) = 8 * unat r" by (intro unat_mult8) linarith
  with lt have q: "unat (p + 8 * r) = unat p + 8 * unat r" by (simp add: unat_add_u32)
  have f: "block_end (p + 8 * r, n) = unat p + 8 * unat r + 8 * unat n"
    unfolding block_end_def fst_conv snd_conv q using u(3) by (simp add: max_def)
  have "r \<noteq> 0" using r0 by auto
  then show "sized lim (p, r)" unfolding sized_def e snd_conv using s u by simp
  show "sized lim (p + 8 * r, n)" unfolding sized_def f snd_conv using assms(3) s u by simp
  show "inside (p, r) (p, m)" unfolding inside_def e s(2) using u by simp
  show "inside (p + 8 * r, n) (p, m)" unfolding inside_def f s(2) fst_conv q using u by simp
  show "before (p, r) (p + 8 * r, n)" unfolding before_def e fst_conv q by simp
qed

lemma carve_ok:
  assumes ok: "heap_ok base s bs A" and L: "(base, 0) # bs = ls @ (q, sq) # (p, m) # rs" and n: "n \<le> m" "n \<noteq> 0"
  shows "\<exists>r s' bs'. carve n q p s = (r + 8, s') \<and> heap_ok base s' bs' (insert (r, n) A) \<and> (r, n) \<notin> A"
proof -
  note ok' = heap_okD [OF ok]
  let ?lim = "unat (um_brk s)" and ?h = "um_hdr s"
  have lim: "?lim < 4294967296" using ok'(2) by simp
  have pm: "(p, m) \<in> set bs" using L by (cases ls) auto
  have so: "sorted_wrt before (ls @ (q, sq) # (p, m) # rs)" using ok'(5) L by simp
  have d: "q \<notin> fst ` set ls" "p \<notin> fst ` set ls" "q \<noteq> p" "q \<notin> fst ` set rs" "p \<notin> fst ` set rs"
    using sorted_addr [OF so] by (auto simp: sorted_wrt_append)
  have sg: "seg ?h ls q" "?h q = \<lparr>h_ptr = p, h_size = sq\<rparr>" "?h p = \<lparr>h_ptr = first_of rs base, h_size = m\<rparr>" "seg ?h rs base"
    using ok'(3) unfolding L by (simp_all add: seg_append)
  have fq: "q \<in> fst ` set ((base, 0) # bs)" unfolding L by force
  have Ap: "apart x (p, m)" if "x \<in> A" for x using ok'(9) [OF that pm] .
  show ?thesis
  proof (cases "m = n")
    case True
    obtain bs' where bs': "ls @ (q, sq) # rs = (base, 0) # bs'" using L by (cases ls) auto
    have sub: "set bs = insert (p, m) (set bs')"
    proof (cases ls)
      case Nil
      with L bs' show ?thesis by auto
    next
      case (Cons a l)
      with L bs' show ?thesis by auto
    qed
    let ?s = "s\<lparr>um_hdr := set_ptr q (first_of rs base) ?h, um_freep := q\<rparr>"
    have c: "carve n q p s = (p + 8, ?s)" using True sg by (simp add: carve_def)
    have "(p, n) \<notin> A" using Ap apart_fst by (metis True)
    moreover have "heap_ok base ?s bs' (insert (p, n) A)"
    proof (rule heap_okI)
      show "seg (um_hdr ?s) ((base, 0) # bs') base"
        unfolding bs' [symmetric] using sg d by (simp add: seg_append set_ptr_def seg_upd)
      have "q \<in> fst ` set ((base, 0) # bs')" unfolding bs' [symmetric] by force
      then show "um_freep ?s \<in> insert base (fst ` set bs')" by simp
      have "sorted_wrt before ((base, 0) # bs')" unfolding bs' [symmetric] using so by (simp add: sorted_wrt_append)
      then show "sorted_wrt before bs'" by simp
    next
      fix x
      assume "x \<in> set bs' \<union> insert (p, n) A"
      then have "x \<in> set bs \<union> A" using sub True by auto
      then show "sized (unat (um_brk ?s)) x" "before (base, 0) x" using ok'(6,7) by simp_all
    next
      fix x
      assume x: "x \<in> insert (p, n) A"
      show "h_size (um_hdr ?s (fst x)) = snd x"
      proof (cases "x = (p, n)")
        case False
        then have "h_size (?h (fst x)) = snd x" using x ok'(8) by blast
        then show ?thesis by (auto simp: set_ptr_def)
      qed (use sg d True in \<open>simp add: set_ptr_def\<close>)
    next
      fix x y
      assume x: "x \<in> insert (p, n) A" and y: "y \<in> set bs'"
      show "apart x y"
      proof (cases "x = (p, n)")
        case True
        have "y \<in> set ls \<union> {(q, sq)} \<union> set rs" using y bs' by (cases ls) auto
        then show ?thesis using so True \<open>m = n\<close> by (auto simp: sorted_wrt_append apart_def)
      qed (use x y ok'(9) sub in auto)
    next
      fix x y
      assume "x \<in> insert (p, n) A" "y \<in> insert (p, n) A" "x \<noteq> y"
      then show "apart x y" using ok'(10) Ap True apart_sym by blast
    qed (use ok'(1,2,11) in simp_all)
    ultimately show ?thesis using c by blast
  next
    case False
    then have lt: "n < m" using n by simp
    define r where "r = m - n"
    let ?a = "p + 8 * r"
    have szm: "sized ?lim (p, m)" using ok'(6) pm by blast
    note ct = cut [OF szm lt n(2) lim r_def]
    obtain bs' where bs': "ls @ (q, sq) # (p, r) # rs = (base, 0) # bs'" using L by (cases ls) auto
    have sub: "set bs \<subseteq> insert (p, m) (set bs')" "set bs' \<subseteq> insert (p, r) (set bs)" "(p, r) \<in> set bs'"
      using L bs' by (cases ls; auto)+
    have so': "sorted_wrt before ((base, 0) # bs')"
      unfolding bs' [symmetric] using so inside_before [OF ct(3)] by (auto simp: sorted_wrt_append)
    have rest: "apart (?a, n) y" if "y \<in> set bs'" for y
    proof (cases "y = (p, r)")
      case False
      have "y \<in> set ls \<union> {(q, sq)} \<union> set rs" using that bs' False by (cases ls) auto
      then have "apart (p, m) y" using so by (auto simp: sorted_wrt_append apart_def)
      then show ?thesis using inside_apart(2) [OF ct(4)] by blast
    qed (use ct(5) in \<open>simp add: apart_def\<close>)
    have An: "apart x (?a, n)" if "x \<in> A" for x using Ap [OF that] inside_apart(1) [OF ct(4)] by blast
    have bsn: "before (base, 0) (?a, n)" using ok'(7) pm inside_before(1) [OF ct(4)] by blast
    let ?h' = "set_size ?a n (set_size p r ?h)"
    let ?s = "s\<lparr>um_hdr := ?h', um_freep := q\<rparr>"
    have c: "carve n q p s = (?a + 8, ?s)" using False sg by (simp add: carve_def Let_def r_def)
    have da: "?a \<noteq> fst y" if "y \<in> set ((base, 0) # bs')" for y
      using that rest [of y] bsn apart_fst [of "(?a, n)" y] before_less [of "(base, 0)" "(?a, n)"] by auto
    have "(?a, n) \<notin> A" using An apart_fst by blast
    moreover have "heap_ok base ?s bs' (insert (?a, n) A)"
    proof (rule heap_okI)
      have "?a \<notin> fst ` set (ls @ (q, sq) # (p, r) # rs)" unfolding bs' using da by blast
      then have na: "?a \<notin> fst ` set ls" "?a \<notin> fst ` set rs" "q \<noteq> ?a" "p \<noteq> ?a"
        unfolding set_append image_Un list.simps(15) image_insert fst_conv by auto
      show "seg (um_hdr ?s) ((base, 0) # bs') base"
        unfolding bs' [symmetric] using sg d na by (simp add: seg_append set_size_def seg_upd)
      have "q \<in> fst ` set ((base, 0) # bs')" unfolding bs' [symmetric] by force
      then show "um_freep ?s \<in> insert base (fst ` set bs')" by simp
      show "sorted_wrt before bs'" using so' by simp
    next
      fix x
      assume "x \<in> set bs' \<union> insert (?a, n) A"
      then have x: "x = (p, r) \<or> x = (?a, n) \<or> x \<in> set bs \<union> A" using sub(2) by blast
      then have "sized ?lim x" using ct(1,2) ok'(6) [of x] by blast
      then show "sized (unat (um_brk ?s)) x" by simp
      have "before (base, 0) (p, r)" using so' sub(3) by simp
      with x show "before (base, 0) x" using bsn ok'(7) [of x] by blast
    next
      fix x
      assume x: "x \<in> insert (?a, n) A"
      show "h_size (um_hdr ?s (fst x)) = snd x"
      proof (cases "x = (?a, n)")
        case False
        with x have xA: "x \<in> A" by blast
        then show ?thesis
          using ok'(8) [OF xA] apart_fst [OF Ap [OF xA]] apart_fst [OF An [OF xA]] by (simp add: set_size_def)
      qed (simp add: set_size_def)
    next
      fix x y
      assume x: "x \<in> insert (?a, n) A" and y: "y \<in> set bs'"
      show "apart x y"
      proof (cases "x = (?a, n)")
        case False
        then have "x \<in> A" using x by simp
        then show ?thesis using y sub(2) ok'(9) Ap inside_apart(1) [OF ct(3)] by blast
      qed (use rest y in simp)
    next
      fix x y
      assume "x \<in> insert (?a, n) A" "y \<in> insert (?a, n) A" "x \<noteq> y"
      then show "apart x y" using ok'(10) An apart_sym by blast
    qed (use ok'(1,2,11) in simp_all)
    ultimately show ?thesis using c by blast
  qed
qed

text \<open>The blocks in the order in which the search of \<^verbatim>\<open>malloc\<close> visits them.\<close>

fun follows :: "(u32 \<Rightarrow> header) \<Rightarrow> u32 \<Rightarrow> block list \<Rightarrow> bool" where
  "follows h a [] \<longleftrightarrow> True"
| "follows h a ((b, n) # ys) \<longleftrightarrow> h_ptr (h a) = b \<and> h_size (h b) = n \<and> follows h b ys"

lemma seg_follows:
  "seg h bs z \<Longrightarrow> h_ptr (h a) = first_of bs z \<Longrightarrow> follows h (if bs = [] then a else fst (last bs)) ys \<Longrightarrow> follows h a (bs @ ys)"
proof (induction bs arbitrary: a)
  case (Cons x bs)
  obtain b n where x: "x = (b, n)" by force
  have "follows h b (bs @ ys)" using Cons.prems x by (intro Cons.IH) (auto split: if_splits)
  with Cons.prems x show ?case by simp
qed simp

abbreviation after_morecore :: "(u32 \<Rightarrow> u32 \<Rightarrow> bool) \<Rightarrow> u32 \<Rightarrow> umem \<Rightarrow> (u32 \<times> umem) option" where
  "after_morecore grow n s \<equiv>
     (case morecore grow n s of None \<Rightarrow> None
      | Some (p, s) \<Rightarrow> if p = 0 then Some (0, s) else malloc_loop grow n p (h_ptr (um_hdr s p)) s)"

lemma walk:
  assumes "follows (um_hdr s) prev ys" and "ys \<noteq> []" and "fst (last ys) = um_freep s"
    and "\<forall>y \<in> set (butlast ys). fst y \<noteq> um_freep s"
  shows "(\<exists>q x. x \<in> set ys \<and> n \<le> snd x \<and> h_ptr (um_hdr s q) = fst x \<and> q \<in> insert prev (fst ` set ys) \<and>
      malloc_loop grow n prev (fst (hd ys)) s = Some (carve n q (fst x) s)) \<or>
    (\<forall>y \<in> set ys. \<not> n \<le> snd y) \<and> malloc_loop grow n prev (fst (hd ys)) s = after_morecore grow n s"
  using assms
proof (induction ys arbitrary: prev)
  case (Cons y ys)
  obtain b m where y: "y = (b, m)" by force
  have h: "h_ptr (um_hdr s prev) = b" "h_size (um_hdr s b) = m" "follows (um_hdr s) b ys" using Cons.prems(1) y by simp_all
  show ?case
  proof (cases "n \<le> m")
    case True
    then have "malloc_loop grow n prev (fst (hd (y # ys))) s = Some (carve n prev b s)"
      using h y by (subst malloc_loop.simps) simp
    with h y True show ?thesis by (intro disjI1 exI [of _ prev] exI [of _ y]) simp
  next
    case small: False
    show ?thesis
    proof (cases "ys = []")
      case True
      then have "malloc_loop grow n prev (fst (hd (y # ys))) s = after_morecore grow n s"
        using h y small Cons.prems(3) by (subst malloc_loop.simps) simp
      with True small y show ?thesis by simp
    next
      case False
      then have st: "malloc_loop grow n prev (fst (hd (y # ys))) s = malloc_loop grow n b (fst (hd ys)) s"
        using h y small Cons.prems(4) by (subst malloc_loop.simps) (cases ys, auto)
      have "(\<exists>q x. x \<in> set ys \<and> n \<le> snd x \<and> h_ptr (um_hdr s q) = fst x \<and> q \<in> insert b (fst ` set ys) \<and>
          malloc_loop grow n b (fst (hd ys)) s = Some (carve n q (fst x) s)) \<or>
        (\<forall>y \<in> set ys. \<not> n \<le> snd y) \<and> malloc_loop grow n b (fst (hd ys)) s = after_morecore grow n s"
        using False Cons.prems(3,4) h(3) by (intro Cons.IH) auto
      then show ?thesis unfolding st using y small by auto
    qed
  qed
qed simp

lemma pred_exists:
  assumes "x \<in> set bs"
  obtains ls q sq rs where "(b, c) # bs = ls @ (q, sq) # x # rs"
proof -
  obtain us vs where bs: "bs = us @ x # vs" using assms by (meson split_list)
  obtain l q sq where "(b, c) # us = l @ [(q, sq)]" by (metis append_butlast_last_id list.distinct(1) surj_pair)
  then have "(b, c) # bs = l @ (q, sq) # x # vs" by (simp add: bs)
  then show ?thesis using that by blast
qed

text \<open>Only one block of the list points to a given block.\<close>

lemma ptr_inj:
  assumes "seg h L z" and "sorted_wrt (\<lambda>x y. fst x < fst y) L" and "L = ls @ (q, sq) # (p, m) # rs"
    and "a \<in> fst ` set L" and "h_ptr (h a) = p" and "p \<noteq> z"
  shows "a = q"
proof (rule ccontr)
  assume "a \<noteq> q"
  obtain n where "(a, n) \<in> set L" using assms(4) by auto
  then obtain us vs where L: "L = us @ (a, n) # vs" by (meson split_list)
  then have pa: "p = first_of vs z" using assms(1,5) by (simp add: seg_append)
  then obtain k ws where vs: "vs = (p, k) # ws" using assms(6) by (cases vs) auto
  have e: "us @ (a, n) # (p, k) # ws = ls @ (q, sq) # (p, m) # rs" using L vs assms(3) by simp
  have d: "distinct (map fst L)" using assms(2) by (induction L) auto
  define i where "i = length us"
  define j where "j = length ls"
  have "map fst L ! Suc i = p" unfolding L vs i_def by (simp add: nth_append)
  moreover have "map fst L ! Suc j = p" unfolding assms(3) j_def by (simp add: nth_append)
  moreover have "Suc i < length (map fst L)" "Suc j < length (map fst L)"
    unfolding i_def j_def by (simp add: L vs) (simp add: assms(3))
  ultimately have "i = j" using d nth_eq_iff_index_eq by fastforce
  then have "map fst L ! i = a" "map fst L ! i = q" unfolding i_def j_def
    by (simp add: L nth_append) (simp add: assms(3) nth_append flip: i_def j_def \<open>i = j\<close>)
  with \<open>a \<noteq> q\<close> show False by simp
qed

lemma seg_last: "seg h bs z \<Longrightarrow> bs \<noteq> [] \<Longrightarrow> h_ptr (h (fst (last bs))) = z"
proof (induction bs)
  case (Cons x bs)
  then show ?case by (cases x; cases bs) auto
qed simp

lemma circular:
  assumes seg: "seg h L base" and L: "L = ls @ (f, nf) # rs" and b: "first_of L z = base"
  shows "follows h f (rs @ ls @ [(f, nf)])"
proof -
  have sg: "seg h ls f" "seg h rs base" "h_ptr (h f) = first_of rs base" "h_size (h f) = nf"
    using seg unfolding L by (simp_all add: seg_append)
  let ?a = "if rs = [] then f else fst (last rs)"
  have a: "h_ptr (h ?a) = base" using sg seg_last [of h rs base] by auto
  have fb: "first_of ls f = base" using b unfolding L by (simp add: first_of_append)
  have "h_ptr (h (if ls = [] then ?a else fst (last ls))) = f"
  proof (cases "ls = []")
    case True
    with a fb show ?thesis by simp
  next
    case False
    with seg_last [OF sg(1)] show ?thesis by simp
  qed
  then have "follows h ?a (ls @ [(f, nf)])"
    using sg(4) a fb by (intro seg_follows [OF sg(1)]) simp_all
  then show ?thesis using seg_follows [OF sg(2,3)] by simp
qed

lemma malloc_round:
  assumes ok: "heap_ok base s bs A" and n: "n \<noteq> 0"
  shows "(\<exists>r s' bs'. malloc_loop grow n (um_freep s) (h_ptr (um_hdr s (um_freep s))) s = Some (r + 8, s') \<and>
      heap_ok base s' bs' (insert (r, n) A) \<and> (r, n) \<notin> A) \<or>
    (\<forall>y \<in> set bs. \<not> n \<le> snd y) \<and>
      malloc_loop grow n (um_freep s) (h_ptr (um_hdr s (um_freep s))) s = after_morecore grow n s"
proof -
  note ok' = heap_okD [OF ok]
  let ?h = "um_hdr s" and ?f = "um_freep s" and ?L = "(base, 0) # bs"
  have so: "sorted_wrt (\<lambda>x y. fst x < fst y) ?L" by (rule sorted_addr [OF ok'(5)])
  have "?f \<in> fst ` set ?L" using ok'(4) by simp
  then obtain nf where "(?f, nf) \<in> set ?L" by force
  then obtain ls rs where L: "?L = ls @ (?f, nf) # rs" by (meson split_list)
  let ?ys = "rs @ ls @ [(?f, nf)]"
  have fo: "follows ?h ?f ?ys" using circular [OF ok'(3) L, of base] by simp
  have nf: "\<forall>y \<in> set (butlast ?ys). fst y \<noteq> ?f" using so unfolding L by (auto simp: sorted_wrt_append butlast_append)
  have hd: "fst (hd ?ys) = h_ptr (?h ?f)" using fo by (cases ?ys) auto
  have ne: "?ys \<noteq> []" "fst (last ?ys) = ?f" by simp_all
  have sys: "set ?ys = set ?L" unfolding L by auto
  consider (found) q x where "x \<in> set ?ys" "n \<le> snd x" "h_ptr (?h q) = fst x" "q \<in> insert ?f (fst ` set ?ys)"
      "malloc_loop grow n ?f (h_ptr (?h ?f)) s = Some (carve n q (fst x) s)"
    | (more) "\<forall>y \<in> set ?ys. \<not> n \<le> snd y" "malloc_loop grow n ?f (h_ptr (?h ?f)) s = after_morecore grow n s"
    using walk [OF fo ne nf, of n grow] unfolding hd by blast
  then show ?thesis
  proof cases
    case found
    have "snd x \<noteq> 0" using found(2) n by auto
    moreover have "x \<in> set ?L" using found(1) unfolding sys .
    ultimately have xb: "x \<in> set bs" by auto
    obtain p m where x: "x = (p, m)" by force
    obtain l1 q' sq l2 where L1: "?L = l1 @ (q', sq) # (p, m) # l2" using pred_exists [OF xb] x by metis
    have "p \<noteq> base" using so xb x by auto
    moreover have "q \<in> fst ` set ?L" using found(4) \<open>?f \<in> fst ` set ?L\<close> unfolding sys by blast
    ultimately have "q = q'" using ptr_inj [OF ok'(3) so L1] found(3) x by simp
    moreover have "n \<le> m" using found(2) x by simp
    ultimately obtain r s' bs' where "carve n q p s = (r + 8, s')" "heap_ok base s' bs' (insert (r, n) A)" "(r, n) \<notin> A"
      using carve_ok [OF ok L1 _ n] by blast
    with found(5) x show ?thesis by auto
  next
    case more
    then show ?thesis unfolding sys by simp
  qed
qed

text \<open>What the allocator relies on: the kernel grows the heap only below the kernel's addresses.\<close>

definition grow_law :: "(u32 \<Rightarrow> u32 \<Rightarrow> bool) \<Rightarrow> bool" where
  "grow_law grow \<longleftrightarrow> (\<forall>b n. grow b n \<longrightarrow> 0 \<le> sint n \<longrightarrow> unat b + unat n < 2147483648)"

lemma freep_nonzero: "heap_ok base s bs A \<Longrightarrow> um_freep s \<noteq> 0"
  using heap_okD(1,4) heap_okD(7) before_less by fastforce

lemma more_ok:
  assumes ok: "heap_ok base s bs A" and law: "grow_law grow" and n: "n \<noteq> 0" "8 * unat n < 2147483648"
  shows "\<exists>p s'. after_morecore grow n s = Some (p, s') \<and>
    (p = 0 \<and> heap_ok base s' bs A \<or> (\<exists>r bs'. p = r + 8 \<and> heap_ok base s' bs' (insert (r, n) A) \<and> (r, n) \<notin> A))"
proof -
  note ok' = heap_okD [OF ok]
  define nu where "nu = (if n < 4096 then 4096 else n)"
  have nu: "n \<le> nu" "8 * unat nu < 2147483648" "nu \<noteq> 0"
    using n by (auto simp: nu_def word_less_nat_alt word_le_nat_alt)
  have u8: "unat (nu * 8) = 8 * unat nu" using unat_mult8 [of nu] nu(2) by (simp add: mult.commute)
  show ?thesis
  proof (cases "grow (um_brk s) (nu * 8)")
    case False
    then have "after_morecore grow n s = Some (0, s)" by (simp add: morecore_def usbrk_def Let_def nu_def)
    with ok show ?thesis by blast
  next
    case True
    let ?b = "um_brk s"
    have "0 \<le> sint (nu * 8)" using u8 nu(2) by (simp add: sint_u32_pos)
    then have lim: "unat ?b + 8 * unat nu < 2147483648" using law True u8 by (metis grow_law_def)
    then have b': "unat (?b + nu * 8) = unat ?b + 8 * unat nu" using u8 by (simp add: unat_add_u32)
    let ?s = "s\<lparr>um_brk := ?b + nu * 8, um_hdr := set_size ?b nu (um_hdr s)\<rparr>"
    have be: "block_end (?b, nu) = unat ?b + 8 * unat nu"
      using nu(3) by (simp add: block_end_def max_def unat_gt_0 Suc_le_eq)
    have lt: "before x (?b, nu)" if "x \<in> set bs \<union> A" for x
      using ok'(6) [OF that] by (simp add: sized_def before_def)
    have gr: "sized (unat (?b + nu * 8)) x" if "x \<in> set bs \<union> A" for x
      using ok'(6) [OF that] b' by (simp add: sized_def)
    have ne: "fst x \<noteq> ?b" if "x \<in> set bs \<union> A" for x
      using before_less [OF lt [OF that]] by auto
    have nb: "before (base, 0) (?b, nu)" using ok'(11) by (simp add: before_def)
    then have bb: "base \<noteq> ?b" using before_less by force
    have "heap_ok base ?s bs (insert (?b, nu) A)"
    proof (rule heap_okI)
      have "?b \<notin> fst ` set bs" using ne by force
      then show "seg (um_hdr ?s) ((base, 0) # bs) base"
        using ok'(3) bb by (simp add: set_size_def seg_upd)
    next
      fix x
      assume "x \<in> set bs \<union> insert (?b, nu) A"
      then show "sized (unat (um_brk ?s)) x" "before (base, 0) x"
        using gr [of x] ok'(7) [of x] nb be b' nu(3) by (auto simp: sized_def)
    next
      fix x
      assume "x \<in> insert (?b, nu) A"
      then show "h_size (um_hdr ?s (fst x)) = snd x" using ok'(8) [of x] ne [of x] by (auto simp: set_size_def)
    next
      fix x y
      assume "x \<in> insert (?b, nu) A" "y \<in> set bs"
      then show "apart x y" using ok'(9) [of x y] lt [of y] by (auto simp: apart_def)
    next
      fix x y
      assume "x \<in> insert (?b, nu) A" "y \<in> insert (?b, nu) A" "x \<noteq> y"
      then show "apart x y" using ok'(10) [of x y] lt [of x] lt [of y] by (auto simp: apart_def)
    qed (use ok'(1,4,5,11) lim b' in auto)
    then obtain s2 bs2 where f: "free (?b + 8) ?s = Some s2" "heap_ok base s2 bs2 (insert (?b, nu) A - {(?b, nu)})"
      "\<exists>y \<in> set bs2. nu \<le> snd y" using free_ok by blast
    have "(?b, nu) \<notin> A" using ne by force
    then have ok2: "heap_ok base s2 bs2 A" using f(2) by simp
    have nm1: "?b \<noteq> - 1" using ok'(2) by (auto simp: unsigned_minus_1_eq_mask mask_eq_exp_minus_1)
    have am: "after_morecore grow n s = malloc_loop grow n (um_freep s2) (h_ptr (um_hdr s2 (um_freep s2))) s2"
      using True nm1 f(1) freep_nonzero [OF ok2] by (simp add: morecore_def usbrk_def Let_def flip: nu_def)
    have "\<not> (\<forall>y \<in> set bs2. \<not> n \<le> snd y)" using f(3) nu(1) order_trans by blast
    then show ?thesis using malloc_round [OF ok2 n(1), of grow] unfolding am by blast
  qed
qed

section \<open>Programs that allocate and free\<close>

text \<open>
  The states that calls of \<^verbatim>\<open>malloc\<close>, of \<^verbatim>\<open>free\<close> with a block that is in use, and of \<^verbatim>\<open>sbrk\<close>
  can reach, with the set of blocks in use. A program writes only to the memory of its blocks behind the headers, which
  the headers do not show.
\<close>

inductive uheap :: "(u32 \<Rightarrow> u32 \<Rightarrow> bool) \<Rightarrow> u32 \<Rightarrow> umem \<Rightarrow> block set \<Rightarrow> bool" for grow base where
  uh_start: "um_freep s = 0 \<Longrightarrow> base \<noteq> 0 \<Longrightarrow> unat base + 8 \<le> unat (um_brk s) \<Longrightarrow> unat (um_brk s) < 2147483648 \<Longrightarrow>
    uheap grow base s {}"
| uh_malloc: "uheap grow base s A \<Longrightarrow> unat nbytes < 2147483632 \<Longrightarrow> malloc grow base nbytes s = Some (p, s') \<Longrightarrow>
    uheap grow base s' (if p = 0 then A else insert (p - 8, units nbytes) A)"
| uh_free: "uheap grow base s A \<Longrightarrow> (a, n) \<in> A \<Longrightarrow> free (a + 8) s = Some s' \<Longrightarrow> uheap grow base s' (A - {(a, n)})"
| uh_sbrk: "uheap grow base s A \<Longrightarrow> 0 \<le> sint n \<Longrightarrow> grow (um_brk s) n \<Longrightarrow> uheap grow base (s\<lparr>um_brk := um_brk s + n\<rparr>) A"

definition heap_inv :: "u32 \<Rightarrow> umem \<Rightarrow> block set \<Rightarrow> bool" where
  "heap_inv base s A \<longleftrightarrow>
     um_freep s = 0 \<and> A = {} \<and> base \<noteq> 0 \<and> unat (um_brk s) < 2147483648 \<and> unat base + 8 \<le> unat (um_brk s) \<or>
     (\<exists>bs. heap_ok base s bs A)"

lemma block_end_base: "block_end (base, 0) = unat base + 8"
  by (simp add: block_end_def)

lemma units_bounds:
  assumes "unat nbytes < 2147483632"
  shows "units nbytes \<noteq> 0" and "8 * unat (units nbytes) < 2147483648" and "unat nbytes + 8 \<le> 8 * unat (units nbytes)"
proof -
  have "unat (7::u32) = 7" "nbytes + 8 - 1 = nbytes + 7" by simp_all
  then have "unat (nbytes + 8 - 1) = unat nbytes + 7" using assms unat_add_u32 [of nbytes 7] by (simp add: add.commute)
  then have "unat ((nbytes + 8 - 1) div 8) = (unat nbytes + 7) div 8" by (simp add: unat_div)
  moreover have "(unat nbytes + 7) div 8 < 268435455" using assms by simp
  ultimately have u: "unat (units nbytes) = (unat nbytes + 7) div 8 + 1"
    unfolding units_def by (simp add: unat_add_u32)
  then show "units nbytes \<noteq> 0" by (auto simp: word_unat_eq_iff)
  have "(unat nbytes + 7) div 8 * 8 + (unat nbytes + 7) mod 8 = unat nbytes + 7" "(unat nbytes + 7) mod 8 < 8" by simp_all
  then show "8 * unat (units nbytes) < 2147483648" and "unat nbytes + 8 \<le> 8 * unat (units nbytes)"
    using assms by (simp_all add: u)
qed

lemma start_ok:
  assumes "um_freep s = 0" and "base \<noteq> 0" and "unat (um_brk s) < 2147483648" and "unat base + 8 \<le> unat (um_brk s)"
  shows "heap_ok base (s\<lparr>um_hdr := set_size base 0 (set_ptr base base (um_hdr s)), um_freep := base\<rparr>) [] {}"
  using assms by (auto intro!: heap_okI simp: set_size_def set_ptr_def block_end_base)

lemma malloc_ok:
  assumes inv: "heap_inv base s A" and law: "grow_law grow" and nb: "unat nbytes < 2147483632"
  shows "\<exists>p s'. malloc grow base nbytes s = Some (p, s') \<and>
    (p = 0 \<and> heap_inv base s' A \<or> p \<noteq> 0 \<and> heap_inv base s' (insert (p - 8, units nbytes) A) \<and> (p - 8, units nbytes) \<notin> A)"
proof -
  let ?n = "units nbytes"
  define t where "t = (if um_freep s = 0
    then s\<lparr>um_hdr := set_size base 0 (set_ptr base base (um_hdr s)), um_freep := base\<rparr> else s)"
  have m: "malloc grow base nbytes s = malloc_loop grow ?n (um_freep t) (h_ptr (um_hdr t (um_freep t))) t"
    by (simp add: malloc_def t_def)
  obtain bs where ok: "heap_ok base t bs A"
  proof (cases "um_freep s = 0")
    case True
    have "\<nexists>bs. heap_ok base s bs A" using True freep_nonzero by blast
    then have "heap_ok base t [] A" using inv True start_ok [of s base] by (simp add: heap_inv_def t_def)
    then show ?thesis by (rule that)
  next
    case False
    then show ?thesis using inv that by (auto simp: heap_inv_def t_def)
  qed
  have nz: "r + 8 \<noteq> 0" if "heap_ok base s' bs' (insert (r, ?n) A)" for r s' bs'
  proof
    assume z: "r + 8 = 0"
    note D = heap_okD [OF that]
    have "block_end (r, ?n) \<le> unat (um_brk s')" using D(6) [of "(r, ?n)"] by (simp add: sized_def)
    then have "unat r + 8 < 4294967296" using D(2) by (simp add: block_end_def)
    then have "unat (r + 8) = unat r + 8" by (simp add: unat_add_u32)
    with z show False by simp
  qed
  have "(\<exists>r s' bs'. malloc grow base nbytes s = Some (r + 8, s') \<and> heap_ok base s' bs' (insert (r, ?n) A) \<and> (r, ?n) \<notin> A) \<or>
      (\<exists>p s'. malloc grow base nbytes s = Some (p, s') \<and>
        (p = 0 \<and> heap_ok base s' bs A \<or> (\<exists>r bs'. p = r + 8 \<and> heap_ok base s' bs' (insert (r, ?n) A) \<and> (r, ?n) \<notin> A)))"
    (is "?F \<or> ?M")
    using malloc_round [OF ok units_bounds(1) [OF nb], of grow]
  proof
    assume "\<exists>r s' bs'. malloc_loop grow ?n (um_freep t) (h_ptr (um_hdr t (um_freep t))) t = Some (r + 8, s') \<and>
      heap_ok base s' bs' (insert (r, ?n) A) \<and> (r, ?n) \<notin> A"
    then show "?F \<or> ?M" unfolding m by (rule disjI1)
  next
    assume "(\<forall>y \<in> set bs. \<not> ?n \<le> snd y) \<and>
      malloc_loop grow ?n (um_freep t) (h_ptr (um_hdr t (um_freep t))) t = after_morecore grow ?n t"
    then have e: "malloc grow base nbytes s = after_morecore grow ?n t" unfolding m by (rule conjunct2)
    show "?F \<or> ?M" unfolding e by (rule disjI2) (rule more_ok [OF ok law units_bounds(1,2) [OF nb]])
  qed
  then show ?thesis
  proof (elim disjE exE conjE)
    fix r s' bs'
    assume "malloc grow base nbytes s = Some (r + 8, s')" "heap_ok base s' bs' (insert (r, ?n) A)" "(r, ?n) \<notin> A"
    then show ?thesis using nz [of s' bs' r] by (auto simp: heap_inv_def)
  next
    fix p s'
    assume "malloc grow base nbytes s = Some (p, s')" "p = 0" "heap_ok base s' bs A"
    then show ?thesis by (auto simp: heap_inv_def)
  next
    fix p s' r bs'
    assume "malloc grow base nbytes s = Some (p, s')" "p = r + 8" "heap_ok base s' bs' (insert (r, ?n) A)" "(r, ?n) \<notin> A"
    then show ?thesis using nz [of s' bs' r] by (auto simp: heap_inv_def)
  qed
qed

lemma free_inv:
  assumes "heap_inv base s A" and "(a, n) \<in> A"
  shows "\<exists>s'. free (a + 8) s = Some s' \<and> heap_inv base s' (A - {(a, n)})"
proof -
  obtain bs where "heap_ok base s bs A" using assms by (auto simp: heap_inv_def)
  from free_ok [OF this assms(2)] show ?thesis unfolding heap_inv_def by blast
qed

lemma sbrk_inv:
  assumes "heap_inv base s A" and "grow_law grow" and "0 \<le> sint n" and "grow (um_brk s) n"
  shows "heap_inv base (s\<lparr>um_brk := um_brk s + n\<rparr>) A"
proof -
  have lim: "unat (um_brk s) + unat n < 2147483648" using assms(2-4) by (simp add: grow_law_def)
  then have u: "unat (um_brk s + n) = unat (um_brk s) + unat n" by (simp add: unat_add_u32)
  have "heap_ok base (s\<lparr>um_brk := um_brk s + n\<rparr>) bs A" if "heap_ok base s bs A" for bs
  proof -
    note D = heap_okD [OF that]
    show ?thesis
    proof (rule heap_okI)
      fix x
      assume "x \<in> set bs \<union> A"
      from D(6) [OF this] show "sized (unat (um_brk (s\<lparr>um_brk := um_brk s + n\<rparr>))) x" using u by (simp add: sized_def)
    qed (use D(1,3,4,5,7-) lim u in simp_all)
  qed
  with assms(1) lim u show ?thesis by (auto simp: heap_inv_def)
qed

lemma uheap_inv: "uheap grow base s A \<Longrightarrow> grow_law grow \<Longrightarrow> heap_inv base s A"
proof (induction rule: uheap.induct)
  case (uh_start s)
  then show ?case by (simp add: heap_inv_def)
next
  case (uh_malloc s A nbytes p s')
  then show ?case using malloc_ok [of base s A grow nbytes] by auto
next
  case (uh_free s A a n s')
  then show ?case using free_inv [of base s A a n] by auto
next
  case (uh_sbrk s A n)
  then show ?case using sbrk_inv by blast
qed

text \<open>
  C17: In every state that a program can reach with \<^verbatim>\<open>malloc\<close> of less than \<open>2\<^sup>31 - 16\<close> bytes, \<^verbatim>\<open>free\<close> of blocks in use and
  \<^verbatim>\<open>sbrk\<close> of a size that is not negative, the blocks in use lie between \<^verbatim>\<open>base\<close> and the end of the heap and do not overlap, and a
  block that \<^verbatim>\<open>malloc\<close> returns for \<open>nbytes\<close> bytes, fewer than \<open>2\<^sup>31 - 16\<close>, is not in use and has room for them behind its header.
  (Giving memory back with a negative size, or a larger request, voids this: see \<open>malloc_wraps\<close>.) What is assumed of the system call behind
  \<^verbatim>\<open>sbrk\<close> is that it grows the process to less than \<open>2\<^sup>31\<close> bytes.
\<close>

theorem malloc_blocks_disjoint:
  assumes "uheap grow base s A" and "grow_law grow"
  shows "(\<forall>x \<in> A. \<forall>y \<in> A. x \<noteq> y \<longrightarrow> apart x y) \<and>
    (\<forall>x \<in> A. before (base, 0) x \<and> block_end x \<le> unat (um_brk s)) \<and>
    (\<forall>nbytes p s'. unat nbytes < 2147483632 \<and> malloc grow base nbytes s = Some (p, s') \<and> p \<noteq> 0 \<longrightarrow>
       (p - 8, units nbytes) \<notin> A \<and> (\<forall>x \<in> A. apart (p - 8, units nbytes) x) \<and> unat nbytes + 8 \<le> 8 * unat (units nbytes))"
proof (intro conjI allI impI)
  have inv: "heap_inv base s A" using uheap_inv [OF assms] .
  then show "\<forall>x \<in> A. \<forall>y \<in> A. x \<noteq> y \<longrightarrow> apart x y" "\<forall>x \<in> A. before (base, 0) x \<and> block_end x \<le> unat (um_brk s)"
    by (auto simp: heap_inv_def heap_ok_def)
  fix nbytes p s'
  assume a: "unat nbytes < 2147483632 \<and> malloc grow base nbytes s = Some (p, s') \<and> p \<noteq> 0"
  then have n: "(p - 8, units nbytes) \<notin> A" and inv': "heap_inv base s' (insert (p - 8, units nbytes) A)"
    using malloc_ok [OF inv assms(2), of nbytes] by auto
  then show "\<forall>x \<in> A. apart (p - 8, units nbytes) x" by (auto simp: heap_inv_def heap_ok_def)
  show "(p - 8, units nbytes) \<notin> A" "unat nbytes + 8 \<le> 8 * unat (units nbytes)" using n units_bounds(3) a by auto
qed

definition heap_ex :: umem where
  "heap_ex = \<lparr>um_hdr = (\<lambda>_. \<lparr>h_ptr = 0, h_size = 0\<rparr>), um_freep = 0, um_brk = 0x3000\<rparr>"

definition grow_ex :: "u32 \<Rightarrow> u32 \<Rightarrow> bool" where
  "grow_ex b n \<longleftrightarrow> unat b + unat n < 2147483648"

lemma heap_ex_reach: "uheap grow_ex 0x1000 heap_ex {}" "grow_law grow_ex"
  by (auto intro: uh_start simp: heap_ex_def grow_law_def grow_ex_def)

lemma heap_ex_malloc:
  "\<exists>s. malloc grow_ex 0x1000 10 heap_ex = Some (0xAFF0, s)" "\<exists>s. malloc grow_ex 0x1000 0 heap_ex = Some (0xB000, s)"
proof -
  have find: "free_find h 0x3000 0x1000 = Some 0x1000" if "h_ptr (h 0x1000) = 0x1000" for h
    using that by (subst free_find.simps) simp
  let ?s = "heap_ex\<lparr>um_hdr := set_size 0x1000 0 (set_ptr 0x1000 0x1000 (um_hdr heap_ex)), um_freep := 0x1000\<rparr>"
  have run: "\<exists>t. malloc grow_ex 0x1000 nb heap_ex = Some (carve n 0x1000 0x3000 t) \<and> h_size (um_hdr t 0x3000) = 4096"
    if n: "units nb = n" "n = 3 \<or> n = 1" for nb n
  proof -
    have "\<exists>t. morecore grow_ex n ?s = Some (0x1000, t) \<and> h_ptr (um_hdr t 0x1000) = 0x3000 \<and> h_size (um_hdr t 0x3000) = 4096"
      using n(2) by (elim disjE) (simp_all add: morecore_def usbrk_def Let_def grow_ex_def heap_ex_def free_def set_size_def set_ptr_def find)
    then obtain t where t: "morecore grow_ex n ?s = Some (0x1000, t)" "h_ptr (um_hdr t 0x1000) = 0x3000" "h_size (um_hdr t 0x3000) = 4096"
      by blast
    have c: "n \<noteq> 0" "n \<le> 4096" "0 < n" using n(2) by auto
    have "malloc grow_ex 0x1000 nb heap_ex = malloc_loop grow_ex n 0x1000 0x1000 ?s"
      using n by (simp add: malloc_def heap_ex_def set_size_def set_ptr_def)
    also have "\<dots> = malloc_loop grow_ex n 0x1000 0x3000 t"
      by (subst malloc_loop.simps) (simp add: t c, simp add: set_size_def set_ptr_def c)
    also have "\<dots> = Some (carve n 0x1000 0x3000 t)" by (subst malloc_loop.simps) (simp add: t c)
    finally show ?thesis using t(3) by blast
  qed
  show "\<exists>s. malloc grow_ex 0x1000 10 heap_ex = Some (0xAFF0, s)" using run [of 10 3] by (auto simp: units_def carve_def Let_def)
  show "\<exists>s. malloc grow_ex 0x1000 0 heap_ex = Some (0xB000, s)" using run [of 0 1] by (auto simp: units_def carve_def Let_def)
qed

theorem malloc_blocks_disjoint_witness:
  "\<exists>s. malloc grow_ex 0x1000 10 heap_ex = Some (0xAFF0, s) \<and>
    (\<forall>p s'. malloc grow_ex 0x1000 20 s = Some (p, s') \<and> p \<noteq> 0 \<longrightarrow> apart (p - 8, 4) (0xAFE8, 3))"
proof -
  obtain s where s: "malloc grow_ex 0x1000 10 heap_ex = Some (0xAFF0, s)" using heap_ex_malloc(1) by blast
  have u: "units 10 = 3" "units 20 = 4" by (simp_all add: units_def)
  have "uheap grow_ex 0x1000 s {(0xAFE8, 3)}" using uh_malloc [OF heap_ex_reach(1) _ s] u by simp
  note m = malloc_blocks_disjoint [OF this heap_ex_reach(2), THEN conjunct2, THEN conjunct2, rule_format, of 20]
  have "apart (p - 8, 4) (0xAFE8, 3)" if "malloc grow_ex 0x1000 20 s = Some (p, s')" "p \<noteq> 0" for p s'
    using m [of p s'] that u by simp
  with s show ?thesis by blast
qed

text \<open>
  C18: Neither search runs around the free list forever: in every state reached by \<^verbatim>\<open>malloc\<close> of less than \<open>2\<^sup>31 - 16\<close> bytes,
  \<^verbatim>\<open>free\<close> of blocks in use and \<^verbatim>\<open>sbrk\<close> of a size that is not negative, \<^verbatim>\<open>malloc\<close> returns for every request of less than
  \<open>2\<^sup>31 - 16\<close> bytes, and \<^verbatim>\<open>free\<close> returns for every block in use.
\<close>

theorem malloc_free_return:
  assumes "uheap grow base s A" and "grow_law grow"
  shows "(\<forall>nbytes. unat nbytes < 2147483632 \<longrightarrow> (\<exists>p s'. malloc grow base nbytes s = Some (p, s'))) \<and>
    (\<forall>(a, n) \<in> A. \<exists>s'. free (a + 8) s = Some s')"
  using malloc_ok [OF uheap_inv [OF assms] assms(2)] free_inv [OF uheap_inv [OF assms]] by blast

theorem malloc_free_return_witness:
  "\<exists>s p s' t. malloc grow_ex 0x1000 10 heap_ex = Some (0xAFF0, s) \<and> malloc grow_ex 0x1000 20 s = Some (p, s') \<and>
     free 0xAFF0 s = Some t"
proof -
  obtain s where s: "malloc grow_ex 0x1000 10 heap_ex = Some (0xAFF0, s)" using heap_ex_malloc(1) by blast
  have u: "units 10 = 3" by (simp add: units_def)
  have "uheap grow_ex 0x1000 s {(0xAFE8, 3)}" using uh_malloc [OF heap_ex_reach(1) _ s] u by simp
  from malloc_free_return [OF this heap_ex_reach(2)] s show ?thesis by auto
qed




end
