(* ===== verification/Shell.thy ===== *)
theory Shell
  imports Ulib Sysfile "HOL-Library.Sublist"
begin

text \<open>
  The parser of the shell \<^verbatim>\<open>sh.c\<close>. A pointer into the command line is the rest of the line behind it, so that
  \<^verbatim>\<open>s < es\<close> says that the rest is not empty and \<open>es - length s\<close> is the position of the pointer; a line contains no zero
  byte. A command holds the positions of the beginning and the end of its words, as the structures of the source
  hold pointers, and \<^verbatim>\<open>nulterminate\<close> cuts the words out of the line in place. Memory for the structures is always
  available. The parser functions call each other and loop; they take a bound \<open>n\<close> on the depth of calls, which is shown to be enough.
\<close>

section \<open>Commands\<close>

type_synonym token = "nat \<times> nat"

datatype 't cmd =
    EXEC "'t list"
  | REDIR "'t cmd" 't u32 nat
  | PIPE "'t cmd" "'t cmd"
  | LIST "'t cmd" "'t cmd"
  | BACK "'t cmd"

definition MAXARGS :: nat where "MAXARGS = 10"

section \<open>Tokens\<close>

definition whitespace :: string where
  "whitespace = [CHR '' '', CHR 0x09, CHR 0x0D, CHR 0x0A, CHR 0x0B]"

definition symbols :: string where
  "symbols = ''<|>&;()''"

definition is_ws :: "char \<Rightarrow> bool" where
  "is_ws c \<longleftrightarrow> strchr whitespace c \<noteq> None"

definition is_word :: "char \<Rightarrow> bool" where
  "is_word c \<longleftrightarrow> strchr whitespace c = None \<and> strchr symbols c = None"

text \<open>The token at the start of \<open>s\<close> and the rest behind it: the \<^verbatim>\<open>switch\<close> of \<^verbatim>\<open>gettoken\<close>.\<close>

fun token_at :: "string \<Rightarrow> char \<times> string" where
  "token_at [] = (NUL, [])"
| "token_at (c # s) =
     (if c \<in> {CHR ''|'', CHR ''('', CHR '')'', CHR '';'', CHR ''&'', CHR ''<''} then (c, s)
      else if c = CHR ''>'' then (if deref s = CHR ''>'' then (CHR ''+'', tl s) else (CHR ''>'', s))
      else (CHR ''a'', dropWhile is_word (c # s)))"

definition gettoken :: "nat \<Rightarrow> string \<Rightarrow> char \<times> token \<times> string" where
  "gettoken es s =
     (let s = dropWhile is_ws s; q = es - length s; (ret, s) = token_at s; eq = es - length s in
      (ret, (q, eq), dropWhile is_ws s))"

definition peek :: "string \<Rightarrow> string \<Rightarrow> bool \<times> string" where
  "peek s toks =
     (let s = dropWhile is_ws s in (deref s \<noteq> NUL \<and> strchr toks (deref s) \<noteq> None, s))"

section \<open>The parser\<close>

text \<open>The result of parsing and the rest of the line; or the message of the call of \<^verbatim>\<open>panic\<close>.\<close>

datatype 'a pres = Parsed 'a string | Fails string | NoFuel

fun pbind :: "'a pres \<Rightarrow> ('a \<Rightarrow> string \<Rightarrow> 'b pres) \<Rightarrow> 'b pres" where
  "pbind (Parsed a s) f = f a s"
| "pbind (Fails m) f = Fails m"
| "pbind NoFuel f = NoFuel"

definition redircmd :: "char \<Rightarrow> token cmd \<Rightarrow> token \<Rightarrow> token cmd" where
  "redircmd tok c f =
     (if tok = CHR ''<'' then REDIR c f O_RDONLY 0
      else if tok = CHR ''>'' then REDIR c f (O_WRONLY OR O_CREATE) 1
      else if tok = CHR ''+'' then REDIR c f (O_WRONLY OR O_CREATE) 1
      else c)"

fun parseredirs :: "nat \<Rightarrow> nat \<Rightarrow> token cmd \<Rightarrow> string \<Rightarrow> token cmd pres" where
  "parseredirs 0 es c s = NoFuel"
| "parseredirs (Suc n) es c s =
     (let (y, s) = peek s ''<>'' in
      if y then
        let (tok, _, s) = gettoken es s; (t, f, s) = gettoken es s in
        if t \<noteq> CHR ''a'' then Fails ''missing file for redirection'' else parseredirs n es (redircmd tok c f) s
      else Parsed c s)"

text \<open>
  The variable \<^verbatim>\<open>cmd\<close> of \<^verbatim>\<open>parseexec\<close> points to the node of the program also after redirections have been
  wrapped around it: an argument is added to the innermost node.
\<close>

fun add_arg :: "'t \<Rightarrow> 't cmd \<Rightarrow> 't cmd" where
  "add_arg a (EXEC ts) = EXEC (ts @ [a])"
| "add_arg a (REDIR c f m d) = REDIR (add_arg a c) f m d"
| "add_arg a c = c"

fun parseargs :: "nat \<Rightarrow> nat \<Rightarrow> nat \<Rightarrow> token cmd \<Rightarrow> string \<Rightarrow> token cmd pres" where
  "parseargs 0 es argc ret s = NoFuel"
| "parseargs (Suc n) es argc ret s =
     (let (y, s) = peek s ''|)&;'' in
      if y then Parsed ret s
      else
        let (tok, a, s) = gettoken es s in
        if tok = NUL then Parsed ret s
        else if tok \<noteq> CHR ''a'' then Fails ''syntax''
        else if Suc argc \<ge> MAXARGS then Fails ''too many args''
        else pbind (parseredirs n es (add_arg a ret) s) (parseargs n es (Suc argc)))"

fun parseback :: "nat \<Rightarrow> nat \<Rightarrow> token cmd \<Rightarrow> string \<Rightarrow> token cmd pres" where
  "parseback 0 es c s = NoFuel"
| "parseback (Suc n) es c s =
     (let (y, s) = peek s ''&'' in
      if y then let (_, _, s) = gettoken es s in parseback n es (BACK c) s else Parsed c s)"

fun parseline :: "nat \<Rightarrow> nat \<Rightarrow> string \<Rightarrow> token cmd pres"
  and parsepipe :: "nat \<Rightarrow> nat \<Rightarrow> string \<Rightarrow> token cmd pres"
  and parseexec :: "nat \<Rightarrow> nat \<Rightarrow> string \<Rightarrow> token cmd pres"
  and parseblock :: "nat \<Rightarrow> nat \<Rightarrow> string \<Rightarrow> token cmd pres" where
  "parseline 0 es s = NoFuel"
| "parseline (Suc n) es s =
     pbind (parsepipe n es s) (\<lambda>c s. pbind (parseback n es c s) (\<lambda>c s.
       let (y, s) = peek s '';'' in
       if y then let (_, _, s) = gettoken es s in pbind (parseline n es s) (\<lambda>d. Parsed (LIST c d))
       else Parsed c s))"
| "parsepipe 0 es s = NoFuel"
| "parsepipe (Suc n) es s =
     pbind (parseexec n es s) (\<lambda>c s.
       let (y, s) = peek s ''|'' in
       if y then let (_, _, s) = gettoken es s in pbind (parsepipe n es s) (\<lambda>d. Parsed (PIPE c d))
       else Parsed c s)"
| "parseexec 0 es s = NoFuel"
| "parseexec (Suc n) es s =
     (let (y, s) = peek s ''('' in
      if y then parseblock n es s
      else pbind (parseredirs n es (EXEC []) s) (parseargs n es 0))"
| "parseblock 0 es s = NoFuel"
| "parseblock (Suc n) es s =
     (let (y, s) = peek s ''('' in
      if \<not> y then Fails ''parseblock''
      else let (_, _, s) = gettoken es s in
        pbind (parseline n es s) (\<lambda>c s.
          let (y, s) = peek s '')'' in
          if \<not> y then Fails ''syntax - missing )''
          else let (_, _, s) = gettoken es s in parseredirs n es c s))"

fun nulterminate :: "token cmd \<Rightarrow> string \<Rightarrow> string" where
  "nulterminate (EXEC ts) m = fold (\<lambda>(q, eq) m. m[eq := NUL]) ts m"
| "nulterminate (REDIR c (q, eq) mode fd) m = (nulterminate c m)[eq := NUL]"
| "nulterminate (PIPE c d) m = nulterminate d (nulterminate c m)"
| "nulterminate (LIST c d) m = nulterminate d (nulterminate c m)"
| "nulterminate (BACK c) m = nulterminate c m"

text \<open>The bound on the depth of calls for a line.\<close>

definition depth :: "string \<Rightarrow> nat" where
  "depth s = 4 * length s + 10"

text \<open>\<^verbatim>\<open>parsecmd\<close>: the command and the memory of the line, with its terminating zero, after \<^verbatim>\<open>nulterminate\<close>.\<close>

definition parsecmd :: "string \<Rightarrow> (token cmd \<times> string) pres" where
  "parsecmd s =
     pbind (parseline (depth s) (length s) s) (\<lambda>c r.
       let (_, r) = peek r [] in
       if r \<noteq> [] then Fails ''syntax'' else Parsed (c, nulterminate c (s @ [NUL])) r)"

section \<open>The bound is enough\<close>

lemma peek_rest: "peek s toks = (y, r) \<Longrightarrow> r = dropWhile is_ws s"
  by (simp add: peek_def Let_def)

lemma peek_yes: "peek s toks = (True, r) \<Longrightarrow> \<exists>c t. r = c # t \<and> c \<in> set toks \<and> \<not> is_ws c"
proof -
  assume p: "peek s toks = (True, r)"
  then have r: "r = dropWhile is_ws s" "r \<noteq> []" by (auto simp: peek_def Let_def)
  obtain c t where ct: "r = c # t" using r(2) by (meson neq_Nil_conv)
  then have "\<not> is_ws c" using r(1) by (metis dropWhile_eq_Cons_conv)
  moreover have "deref (dropWhile is_ws s) = c" unfolding r(1) [symmetric] ct by simp
  then have "c \<in> set toks" using p by (auto simp: peek_def Let_def strchr_eq split: if_splits)
  ultimately show ?thesis using ct by blast
qed

lemma token_shorter: "\<not> is_ws c \<Longrightarrow> token_at (c # s) = (t, r) \<Longrightarrow> length r < length (c # s)"
proof -
  assume c: "\<not> is_ws c" and t: "token_at (c # s) = (t, r)"
  have d: "length (dropWhile is_word s) < Suc (length s)" by (simp add: less_Suc_eq_le length_dropWhile_le)
  have w: "is_word c" if "c \<notin> {CHR ''|'', CHR ''('', CHR '')'', CHR '';'', CHR ''&'', CHR ''<''}" "c \<noteq> CHR ''>''"
    using that c by (auto simp: is_word_def is_ws_def symbols_def strchr_eq)
  from t c d w show ?thesis by (auto split: if_splits)
qed

lemma token_le: "token_at s = (t, r) \<Longrightarrow> length r \<le> length s"
proof (cases s)
  case (Cons c u)
  assume "token_at s = (t, r)"
  moreover have "length (dropWhile is_word u) \<le> length u" by (rule length_dropWhile_le)
  ultimately show ?thesis using Cons by (auto split: if_splits)
qed simp

lemma gettoken_le: "gettoken es s = (t, f, r) \<Longrightarrow> length r \<le> length s"
proof -
  assume g: "gettoken es s = (t, f, r)"
  obtain t' r' where k: "token_at (dropWhile is_ws s) = (t', r')" by force
  with g have "r = dropWhile is_ws r'" by (simp add: gettoken_def Let_def)
  with token_le [OF k] length_dropWhile_le [of is_ws s] length_dropWhile_le [of is_ws r'] show ?thesis by simp
qed

lemma gettoken_less: "gettoken es s = (t, f, r) \<Longrightarrow> dropWhile is_ws s \<noteq> [] \<Longrightarrow> length r < length s"
proof -
  assume g: "gettoken es s = (t, f, r)" and "dropWhile is_ws s \<noteq> []"
  then obtain c u where d: "dropWhile is_ws s = c # u" by (meson neq_Nil_conv)
  obtain t' r' where k: "token_at (c # u) = (t', r')" by force
  with g d have "r = dropWhile is_ws r'" by (simp add: gettoken_def Let_def)
  moreover have "\<not> is_ws c" using d by (simp add: dropWhile_eq_Cons_conv)
  ultimately show ?thesis
    using token_shorter [OF _ k] length_dropWhile_le [of is_ws s] length_dropWhile_le [of is_ws r'] d by simp
qed

lemma gettoken_NUL: "gettoken es s = (t, f, r) \<Longrightarrow> t \<noteq> NUL \<Longrightarrow> dropWhile is_ws s \<noteq> []"
  by (cases "dropWhile is_ws s") (simp_all add: gettoken_def Let_def)

lemma peek_gettoken: "peek s toks = (True, r) \<Longrightarrow> gettoken es r = (t, f, u) \<Longrightarrow> length u < length s"
proof -
  assume p: "peek s toks = (True, r)" and g: "gettoken es r = (t, f, u)"
  have r: "r = dropWhile is_ws s" using peek_rest [OF p] .
  obtain c v where "r = c # v" "\<not> is_ws c" using peek_yes [OF p] by blast
  then have "dropWhile is_ws r \<noteq> []" by simp
  from gettoken_less [OF g this] r length_dropWhile_le [of is_ws s] show ?thesis by simp
qed

lemma peek_le: "peek s toks = (y, r) \<Longrightarrow> length r \<le> length s"
  using peek_rest length_dropWhile_le by metis

definition within :: "nat \<Rightarrow> 'a pres \<Rightarrow> bool" where
  "within k r = (case r of NoFuel \<Rightarrow> False | Fails m \<Rightarrow> True | Parsed a s \<Rightarrow> length s \<le> k)"

lemma within_simps [simp]: "within k (Parsed a s) \<longleftrightarrow> length s \<le> k" "within k (Fails m)" "\<not> within k NoFuel"
  by (simp_all add: within_def)

lemma within_pbind: "within k r \<Longrightarrow> (\<And>a s. length s \<le> k \<Longrightarrow> within l (f a s)) \<Longrightarrow> within l (pbind r f)"
  by (cases r) auto

lemma within_mono: "within k r \<Longrightarrow> k \<le> l \<Longrightarrow> within l r"
  by (cases r) auto

lemma parseredirs_within: "length s < n \<Longrightarrow> within (length s) (parseredirs n es c s)"
proof (induction n arbitrary: c s)
  case (Suc n)
  obtain y r where p: "peek s ''<>'' = (y, r)" by force
  obtain t f u where g: "gettoken es r = (t, f, u)" by (metis prod_cases3)
  obtain t' f' v where g': "gettoken es u = (t', f', v)" by (metis prod_cases3)
  show ?case
  proof (cases y)
    case True
    then have "length u < length s" using p by (intro peek_gettoken [OF _ g]) simp
    then have v: "length v < length s" using gettoken_le [OF g'] by simp
    then have "within (length v) (parseredirs n es (redircmd t c f') v)" using Suc by simp
    then have "within (length s) (parseredirs n es (redircmd t c f') v)" using v by (rule within_mono [OF _ less_imp_le])
    with True p g g' show ?thesis by simp
  next
    case False
    with p peek_le [OF p] show ?thesis by simp
  qed
qed simp

lemma parseargs_within: "length s < n \<Longrightarrow> within (length s) (parseargs n es argc c s)"
proof (induction n arbitrary: argc c s)
  case (Suc n)
  obtain y r where p: "peek s ''|)&;'' = (y, r)" by force
  obtain t f u where g: "gettoken es r = (t, f, u)" by (metis prod_cases3)
  have r: "length r \<le> length s" by (rule peek_le [OF p])
  have u: "length u \<le> length s" using gettoken_le [OF g] r by simp
  show ?case
  proof (cases "\<not> y \<and> t = CHR ''a'' \<and> Suc argc < MAXARGS")
    case True
    then have "length u < length s" using gettoken_less [OF g] gettoken_NUL [OF g] r by fastforce
    have "within (length s) (pbind (parseredirs n es (add_arg f c) u) (parseargs n es (Suc argc)))"
    proof (rule within_pbind)
      show "within (length u) (parseredirs n es (add_arg f c) u)"
        using Suc.prems \<open>length u < length s\<close> by (intro parseredirs_within) simp
      fix a v
      assume "length (v::string) \<le> length u"
      then have "within (length v) (parseargs n es (Suc argc) a v)"
        using Suc.prems \<open>length u < length s\<close> by (intro Suc.IH) simp
      then show "within (length s) (parseargs n es (Suc argc) a v)"
        using \<open>length v \<le> length u\<close> u by (rule within_mono [OF _ order_trans])
    qed
    with True p g show ?thesis by simp
  next
    case False
    with p g r u show ?thesis by auto
  qed
qed simp

lemma parseback_within: "length s < n \<Longrightarrow> within (length s) (parseback n es c s)"
proof (induction n arbitrary: c s)
  case (Suc n)
  obtain y r where p: "peek s ''&'' = (y, r)" by force
  obtain t f u where g: "gettoken es r = (t, f, u)" by (metis prod_cases3)
  show ?case
  proof (cases y)
    case True
    then have u: "length u < length s" using p by (intro peek_gettoken [OF _ g]) simp
    then have "within (length u) (parseback n es (BACK c) u)" using Suc by simp
    then have "within (length s) (parseback n es (BACK c) u)" using u by (rule within_mono [OF _ less_imp_le])
    with True p g show ?thesis by simp
  next
    case False
    with p peek_le [OF p] show ?thesis by simp
  qed
qed simp

lemma peek_cases:
  obtains (no) r where "peek s toks = (False, r)" and "length r \<le> length s" and "r = dropWhile is_ws s"
  | (yes) r t f u where "peek s toks = (True, r)" and "gettoken es r = (t, f, u)" and "length u < length s" and "r = dropWhile is_ws s"
      and "length r \<le> length s"
proof -
  obtain y r where p: "peek s toks = (y, r)" by force
  obtain t f u where g: "gettoken es r = (t, f, u)" by (metis prod_cases3)
  show ?thesis
  proof (cases y)
    case True
    with p have "peek s toks = (True, r)" by simp
    then show ?thesis using yes g peek_gettoken peek_rest peek_le by metis
  next
    case False
    with p have "peek s toks = (False, r)" by simp
    then show ?thesis using no peek_rest peek_le by metis
  qed
qed

lemma parse_within:
  "(4 * length s + 3 < n \<longrightarrow> within (length s) (parseline n es s)) \<and>
   (4 * length s + 2 < n \<longrightarrow> within (length s) (parsepipe n es s)) \<and>
   (4 * length s + 1 < n \<longrightarrow> within (length s) (parseexec n es s)) \<and>
   (4 * length s < n \<longrightarrow> within (length s) (parseblock n es s))"
proof (induction n arbitrary: s)
  case (Suc n)
  have IH: "4 * length s + 3 < n \<Longrightarrow> within (length s) (parseline n es s)"
    "4 * length s + 2 < n \<Longrightarrow> within (length s) (parsepipe n es s)"
    "4 * length s + 1 < n \<Longrightarrow> within (length s) (parseexec n es s)"
    "4 * length s < n \<Longrightarrow> within (length s) (parseblock n es s)" for s
    using Suc.IH [of s] by blast+
  have line: "within (length s) (parseline (Suc n) es s)" if "4 * length s + 3 < Suc n"
    unfolding parseline.simps
  proof (rule within_pbind)
    show "within (length s) (parsepipe n es s)" using that by (intro IH(2)) simp
    fix c v
    assume v: "length (v::string) \<le> length s"
    show "within (length s) (pbind (parseback n es c v) (\<lambda>c s. let (y, s) = peek s '';'' in
       if y then let (_, _, s) = gettoken es s in pbind (parseline n es s) (\<lambda>d. Parsed (LIST c d)) else Parsed c s))"
    proof (rule within_pbind)
      show "within (length v) (parseback n es c v)" using that v by (intro parseback_within) simp
      fix c w
      assume w: "length (w::string) \<le> length v"
      show "within (length s) (let (y, s) = peek w '';'' in
       if y then let (_, _, s) = gettoken es s in pbind (parseline n es s) (\<lambda>d. Parsed (LIST c d)) else Parsed c s)"
      proof (cases rule: peek_cases [where s = w and toks = "'';''" and es = es])
        case (yes r t f u)
        have "within (length s) (pbind (parseline n es u) (\<lambda>d. Parsed (LIST c d)))"
          using that v w yes(3) by (intro within_pbind [OF IH(1)]) simp_all
        with yes show ?thesis by simp
      qed (use v w in auto)
    qed
  qed
  have pipe: "within (length s) (parsepipe (Suc n) es s)" if "4 * length s + 2 < Suc n"
    unfolding parsepipe.simps
  proof (rule within_pbind)
    show "within (length s) (parseexec n es s)" using that by (intro IH(3)) simp
    fix c v
    assume v: "length (v::string) \<le> length s"
    show "within (length s) (let (y, s) = peek v ''|'' in
       if y then let (_, _, s) = gettoken es s in pbind (parsepipe n es s) (\<lambda>d. Parsed (PIPE c d)) else Parsed c s)"
    proof (cases rule: peek_cases [where s = v and toks = "''|''" and es = es])
      case (yes r t f u)
      have "within (length s) (pbind (parsepipe n es u) (\<lambda>d. Parsed (PIPE c d)))"
        using that v yes(3) by (intro within_pbind [OF IH(2)]) simp_all
      with yes show ?thesis by simp
    qed (use v in auto)
  qed
  have exec: "within (length s) (parseexec (Suc n) es s)" if "4 * length s + 1 < Suc n"
  proof (cases rule: peek_cases [where s = s and toks = "''(''" and es = es])
    case (yes r t f u)
    have "within (length r) (parseblock n es r)" using that yes(5) by (intro IH(4)) simp
    then have "within (length s) (parseblock n es r)" using yes(5) by (rule within_mono)
    with yes show ?thesis by simp
  next
    case (no r)
    have "within (length s) (pbind (parseredirs n es (EXEC []) r) (parseargs n es 0))"
    proof (rule within_pbind)
      show "within (length r) (parseredirs n es (EXEC []) r)" using that no(2) by (intro parseredirs_within) simp
      fix a v
      assume "length (v::string) \<le> length r"
      then show "within (length s) (parseargs n es 0 a v)"
        using that no(2) by (intro within_mono [OF parseargs_within]) simp_all
    qed
    with no show ?thesis by simp
  qed
  have block: "within (length s) (parseblock (Suc n) es s)" if "4 * length s < Suc n"
  proof (cases rule: peek_cases [where s = s and toks = "''(''" and es = es])
    case (yes r t f u)
    have "within (length s) (pbind (parseline n es u) (\<lambda>c s. let (y, s) = peek s '')'' in
        if \<not> y then Fails ''syntax - missing )'' else let (_, _, s) = gettoken es s in parseredirs n es c s))"
    proof (rule within_pbind)
      show "within (length u) (parseline n es u)" using that yes(3) by (intro IH(1)) simp
      fix c v
      assume v: "length (v::string) \<le> length u"
      show "within (length s) (let (y, s) = peek v '')'' in
        if \<not> y then Fails ''syntax - missing )'' else let (_, _, s) = gettoken es s in parseredirs n es c s)"
      proof (cases rule: peek_cases [where s = v and toks = "'')''" and es = es])
        case y2: (yes r2 t2 f2 u2)
        have "within (length s) (parseredirs n es c u2)"
          using that v y2(3) yes(3) by (intro within_mono [OF parseredirs_within]) simp_all
        with y2 show ?thesis by simp
      qed auto
    qed
    with yes show ?thesis by simp
  qed simp
  from line pipe exec block show ?case by blast
qed simp

text \<open>
  C21: The shell's parser always comes back: for every command line it returns a command or stops with an error message, within
  the bound on the depth of its recursive calls.
\<close>

theorem parsecmd_terminates: "parsecmd s \<noteq> NoFuel"
proof -
  have "within (length s) (parseline (depth s) (length s) s)" using parse_within [of s "depth s"] by (simp add: depth_def)
  then show ?thesis
    by (cases "parseline (depth s) (length s) s") (auto simp: parsecmd_def split: prod.splits)
qed

section \<open>The words of a command\<close>

text \<open>A word of the line \<open>b\<close>: characters that are neither white space nor symbols, up to one that is, or to the end.\<close>

definition word_tok :: "string \<Rightarrow> token \<Rightarrow> bool" where
  "word_tok b t \<longleftrightarrow>
     fst t < snd t \<and> snd t \<le> length b \<and> (\<forall>i. fst t \<le> i \<and> i < snd t \<longrightarrow> is_word (b ! i)) \<and>
     (snd t < length b \<longrightarrow> \<not> is_word (b ! snd t))"

lemma suffix_dropWhile_trans: "suffix s b \<Longrightarrow> suffix (dropWhile P s) b"
  using suffix_dropWhile suffix_order.trans by blast

lemma suffix_peek: "peek s toks = (y, r) \<Longrightarrow> suffix s b \<Longrightarrow> suffix r b"
  using peek_rest suffix_dropWhile_trans by metis

lemma suffix_token: "token_at s = (t, r) \<Longrightarrow> suffix r s"
proof (cases s)
  case (Cons c u)
  assume t: "token_at s = (t, r)"
  have "suffix (tl u) (c # u)" by (cases u) (auto simp: suffix_def)
  moreover have "suffix u (c # u)" by (auto simp: suffix_def)
  moreover have "suffix (dropWhile is_word (c # u)) (c # u)" by (rule suffix_dropWhile)
  ultimately show ?thesis using t Cons by (auto split: if_splits)
qed simp

lemma suffix_gettoken: "gettoken es s = (t, f, r) \<Longrightarrow> suffix s b \<Longrightarrow> suffix r b"
proof -
  assume g: "gettoken es s = (t, f, r)" and s: "suffix s b"
  obtain t' r' where k: "token_at (dropWhile is_ws s) = (t', r')" by force
  with g have "r = dropWhile is_ws r'" by (simp add: gettoken_def Let_def)
  moreover have "suffix r' b" using suffix_token [OF k] suffix_dropWhile_trans [OF s] suffix_order.trans by blast
  ultimately show ?thesis using suffix_dropWhile_trans by blast
qed

lemma gettoken_word:
  assumes g: "gettoken (length b) s = (CHR ''a'', f, r)" and s: "suffix s b"
  shows "word_tok b f"
proof -
  let ?d = "dropWhile is_ws s"
  have "?d \<noteq> []" by (rule gettoken_NUL [OF g]) simp
  then obtain c u where d: "?d = c # u" by (meson neq_Nil_conv)
  obtain pre where b: "b = pre @ c # u" using suffix_dropWhile_trans [OF s, of is_ws] d by (auto simp: suffix_def)
  let ?w = "takeWhile is_word (c # u)" and ?v = "dropWhile is_word (c # u)"
  have tok: "token_at (c # u) = (CHR ''a'', ?v)" and cw: "is_word c"
  proof -
    obtain t v where k: "token_at (c # u) = (t, v)" by force
    then have t: "t = CHR ''a''" using g d by (simp add: gettoken_def Let_def)
    then have sp: "c \<notin> {CHR ''|'', CHR ''('', CHR '')'', CHR '';'', CHR ''&'', CHR ''<''}" "c \<noteq> CHR ''>''"
      using k by (auto split: if_splits)
    then show "token_at (c # u) = (CHR ''a'', ?v)" by auto
    have "\<not> is_ws c" using d by (simp add: dropWhile_eq_Cons_conv)
    with sp show "is_word c" by (auto simp: is_word_def is_ws_def symbols_def strchr_eq)
  qed
  define w where "w = ?w"
  define v where "v = ?v"
  have wv: "c # u = w @ v" unfolding w_def v_def by (rule takeWhile_dropWhile_id [symmetric])
  have tv: "token_at (c # u) = (CHR ''a'', v)" using tok unfolding v_def .
  have w: "\<forall>x \<in> set w. is_word x" "w \<noteq> []" unfolding w_def using cw by (auto dest: set_takeWhileD)
  have v: "v \<noteq> [] \<Longrightarrow> \<not> is_word (hd v)" unfolding v_def by (rule hd_dropWhile)
  have bw: "b = pre @ w @ v" using b wv by simp
  have "f = (length b - length (c # u), length b - length v)"
    using g d tv by (simp add: gettoken_def Let_def del: token_at.simps)
  then have f: "f = (length pre, length pre + length w)" unfolding wv bw by simp
  have "is_word (b ! i)" if "length pre \<le> i" "i < length pre + length w" for i
    using that w(1) nth_mem [of "i - length pre" w] unfolding bw by (simp add: nth_append)
  moreover have "\<not> is_word (b ! (length pre + length w))" if "length pre + length w < length b"
    using that v unfolding bw by (cases v) (simp_all add: nth_append)
  ultimately show ?thesis unfolding word_tok_def f using w(2) by (auto simp: bw)
qed

fun args_ok :: "'t cmd \<Rightarrow> bool" where
  "args_ok (EXEC ts) \<longleftrightarrow> length ts < MAXARGS"
| "args_ok (REDIR c f m d) \<longleftrightarrow> args_ok c"
| "args_ok (PIPE c d) \<longleftrightarrow> args_ok c \<and> args_ok d"
| "args_ok (LIST c d) \<longleftrightarrow> args_ok c \<and> args_ok d"
| "args_ok (BACK c) \<longleftrightarrow> args_ok c"

fun exec_len :: "'t cmd \<Rightarrow> nat option" where
  "exec_len (EXEC ts) = Some (length ts)"
| "exec_len (REDIR c f m d) = exec_len c"
| "exec_len c = None"

definition cmd_ok :: "string \<Rightarrow> token cmd \<Rightarrow> bool" where
  "cmd_ok b c \<longleftrightarrow> (\<forall>t \<in> set_cmd c. word_tok b t) \<and> args_ok c"

lemma cmd_ok_simps [simp]:
  "cmd_ok b (PIPE c d) \<longleftrightarrow> cmd_ok b c \<and> cmd_ok b d" "cmd_ok b (LIST c d) \<longleftrightarrow> cmd_ok b c \<and> cmd_ok b d"
  "cmd_ok b (BACK c) \<longleftrightarrow> cmd_ok b c" "cmd_ok b (REDIR c f m e) \<longleftrightarrow> cmd_ok b c \<and> word_tok b f"
  "cmd_ok b (EXEC [])"
  by (auto simp: cmd_ok_def MAXARGS_def)

lemma add_arg_ok:
  assumes "exec_len c = Some k" and "cmd_ok b c" and "word_tok b a" and "Suc k < MAXARGS"
  shows "cmd_ok b (add_arg a c)" and "exec_len (add_arg a c) = Some (Suc k)"
proof -
  have "cmd_ok b (add_arg a c) \<and> exec_len (add_arg a c) = Some (Suc k)"
    using assms by (induction c) (auto simp: cmd_ok_def)
  then show "cmd_ok b (add_arg a c)" "exec_len (add_arg a c) = Some (Suc k)" by auto
qed

definition res_ok :: "string \<Rightarrow> token cmd pres \<Rightarrow> bool" where
  "res_ok b r = (case r of Parsed c s \<Rightarrow> suffix s b \<and> cmd_ok b c | Fails m \<Rightarrow> True | NoFuel \<Rightarrow> True)"

lemma res_ok_simps [simp]: "res_ok b (Parsed c s) \<longleftrightarrow> suffix s b \<and> cmd_ok b c" "res_ok b (Fails m)" "res_ok b NoFuel"
  by (simp_all add: res_ok_def)

lemma res_ok_pbind: "res_ok b r \<Longrightarrow> (\<And>c s. r = Parsed c s \<Longrightarrow> suffix s b \<Longrightarrow> cmd_ok b c \<Longrightarrow> res_ok b (f c s)) \<Longrightarrow> res_ok b (pbind r f)"
  by (cases r) auto

lemma redircmd_ok: "cmd_ok b c \<Longrightarrow> word_tok b f \<Longrightarrow> cmd_ok b (redircmd t c f)" "exec_len (redircmd t c f) = exec_len c"
  by (auto simp: redircmd_def)

lemma parseredirs_ok:
  assumes "suffix s b" and "cmd_ok b c"
  shows "res_ok b (parseredirs n (length b) c s)"
  using assms
proof (induction n arbitrary: c s)
  case (Suc n)
  obtain y r where p: "peek s ''<>'' = (y, r)" by force
  obtain t f u where g: "gettoken (length b) r = (t, f, u)" by (metis prod_cases3)
  obtain t' f' v where g': "gettoken (length b) u = (t', f', v)" by (metis prod_cases3)
  have r: "suffix r b" by (rule suffix_peek [OF p Suc.prems(1)])
  have u: "suffix u b" by (rule suffix_gettoken [OF g r])
  have v: "suffix v b" by (rule suffix_gettoken [OF g' u])
  show ?case
  proof (cases "y \<and> t' = CHR ''a''")
    case True
    then have "word_tok b f'" using gettoken_word [of b u f' v] g' u by simp
    then have "res_ok b (parseredirs n (length b) (redircmd t c f') v)"
      using v Suc.prems by (intro Suc.IH redircmd_ok) auto
    with True p g g' show ?thesis by simp
  qed (use p g g' r Suc.prems in auto)
qed simp

lemma parseredirs_exec_len: "parseredirs n es c s = Parsed c' s' \<Longrightarrow> exec_len c' = exec_len c"
proof (induction n arbitrary: c s)
  case (Suc n)
  then show ?case by (auto simp: redircmd_ok split: prod.splits if_splits)
qed simp

lemma parseargs_ok:
  assumes "suffix s b" and "cmd_ok b c" and "exec_len c = Some argc"
  shows "res_ok b (parseargs n (length b) argc c s)"
  using assms
proof (induction n arbitrary: argc c s)
  case (Suc n)
  obtain y r where p: "peek s ''|)&;'' = (y, r)" by force
  obtain t f u where g: "gettoken (length b) r = (t, f, u)" by (metis prod_cases3)
  have r: "suffix r b" by (rule suffix_peek [OF p Suc.prems(1)])
  have u: "suffix u b" by (rule suffix_gettoken [OF g r])
  show ?case
  proof (cases "\<not> y \<and> t = CHR ''a'' \<and> Suc argc < MAXARGS")
    case True
    then have "word_tok b f" using gettoken_word [of b r f u] g r by simp
    then have a: "cmd_ok b (add_arg f c)" "exec_len (add_arg f c) = Some (Suc argc)"
      using add_arg_ok [OF Suc.prems(3,2)] True by blast+
    have "res_ok b (pbind (parseredirs n (length b) (add_arg f c) u) (parseargs n (length b) (Suc argc)))"
    proof (rule res_ok_pbind)
      fix d v
      assume "parseredirs n (length b) (add_arg f c) u = Parsed d v" "suffix v b" "cmd_ok b d"
      then show "res_ok b (parseargs n (length b) (Suc argc) d v)"
        using a(2) parseredirs_exec_len by (intro Suc.IH) auto
    qed (rule parseredirs_ok [OF u a(1)])
    with True p g show ?thesis by simp
  qed (use p g r u Suc.prems in auto)
qed simp

lemma parseback_ok: "suffix s b \<Longrightarrow> cmd_ok b c \<Longrightarrow> res_ok b (parseback n es c s)"
proof (induction n arbitrary: c s)
  case (Suc n)
  obtain y r where p: "peek s ''&'' = (y, r)" by force
  obtain t f u where g: "gettoken es r = (t, f, u)" by (metis prod_cases3)
  have r: "suffix r b" by (rule suffix_peek [OF p Suc.prems(1)])
  have u: "suffix u b" by (rule suffix_gettoken [OF g r])
  with Suc p g r show ?case by simp
qed simp

lemma parse_ok:
  "suffix s b \<Longrightarrow> res_ok b (parseline n (length b) s) \<and> res_ok b (parsepipe n (length b) s) \<and>
     res_ok b (parseexec n (length b) s) \<and> res_ok b (parseblock n (length b) s)"
proof (induction n arbitrary: s)
  case (Suc n)
  let ?e = "length b"
  have IH: "suffix s b \<Longrightarrow> res_ok b (parseline n ?e s)" "suffix s b \<Longrightarrow> res_ok b (parsepipe n ?e s)"
    "suffix s b \<Longrightarrow> res_ok b (parseexec n ?e s)" "suffix s b \<Longrightarrow> res_ok b (parseblock n ?e s)" for s
    using Suc.IH by blast+
  have after: "res_ok b (let (y, s) = peek s toks in if y then let (_, _, s) = gettoken ?e s in f s else g s)"
    if "suffix s b" "\<And>s. suffix s b \<Longrightarrow> res_ok b (f s)" "\<And>s. suffix s b \<Longrightarrow> res_ok b (g s)" for s toks f g
    using that suffix_peek suffix_gettoken by (fastforce split: prod.splits)
  have line: "res_ok b (parseline (Suc n) ?e s)"
    unfolding parseline.simps
    by (intro res_ok_pbind IH Suc.prems parseback_ok after) (simp_all add: IH)
  have pipe: "res_ok b (parsepipe (Suc n) ?e s)"
    unfolding parsepipe.simps
    by (intro res_ok_pbind IH Suc.prems after) (simp_all add: IH)
  have exec: "res_ok b (parseexec (Suc n) ?e s)"
  proof -
    obtain y r where p: "peek s ''('' = (y, r)" by force
    have r: "suffix r b" by (rule suffix_peek [OF p Suc.prems])
    have "res_ok b (pbind (parseredirs n ?e (EXEC []) r) (parseargs n ?e 0))"
    proof (rule res_ok_pbind)
      fix d v
      assume "parseredirs n ?e (EXEC []) r = Parsed d v" "suffix v b" "cmd_ok b d"
      then show "res_ok b (parseargs n ?e 0 d v)" using parseredirs_exec_len by (intro parseargs_ok) fastforce+
    qed (rule parseredirs_ok [OF r], simp)
    with p IH(4) [OF r] show ?thesis by simp
  qed
  have block: "res_ok b (parseblock (Suc n) ?e s)"
  proof -
    have redirs: "res_ok b (let (y, s) = peek s '')'' in
        if \<not> y then Fails ''syntax - missing )'' else let (_, _, s) = gettoken ?e s in parseredirs n ?e c s)"
      if "suffix s b" "cmd_ok b c" for c s
      using that suffix_peek suffix_gettoken parseredirs_ok by (fastforce split: prod.splits)
    obtain y r where p: "peek s ''('' = (y, r)" by force
    obtain t f u where g: "gettoken ?e r = (t, f, u)" by (metis prod_cases3)
    have u: "suffix u b" by (rule suffix_gettoken [OF g suffix_peek [OF p Suc.prems]])
    have "res_ok b (pbind (parseline n ?e u) (\<lambda>c s. let (y, s) = peek s '')'' in
        if \<not> y then Fails ''syntax - missing )'' else let (_, _, s) = gettoken ?e s in parseredirs n ?e c s))"
      by (rule res_ok_pbind [OF IH(1) [OF u]]) (rule redirs)
    with p g show ?thesis by simp
  qed
  from line pipe exec block show ?case by blast
qed simp

section \<open>Cutting the words out of the line\<close>

lemma nulterminate_nth:
  "length (nulterminate c m) = length m \<and>
   (\<forall>i < length m. nulterminate c m ! i = (if i \<in> snd ` set_cmd c then NUL else m ! i))"
proof (induction c m rule: nulterminate.induct)
  case (1 ts m)
  show ?case
  proof (induction ts arbitrary: m)
    case (Cons t ts)
    then show ?case by (cases t) (auto simp: nth_list_update)
  qed simp
next
  case (2 c q eq mode fd m)
  have "xs[eq := NUL] ! i = (if i = eq then NUL else xs ! i)" if "i < length xs" for xs i
    using that by (cases "i = eq") simp_all
  with 2 show ?case by simp
qed auto

lemma takeWhile_here: "n < length m \<Longrightarrow> (\<And>i. i < n \<Longrightarrow> P (m ! i)) \<Longrightarrow> \<not> P (m ! n) \<Longrightarrow> takeWhile P m = take n m"
  by (rule takeWhile_eq_take_P_nth) auto

text \<open>
  C20: The words of a parsed command are what the programs get. Every word is a non-empty stretch of the line without white space
  and symbols, a command has fewer than \<^verbatim>\<open>MAXARGS\<close> words, and after \<^verbatim>\<open>nulterminate\<close> has overwritten the
  characters behind the words the string that starts at each word is that word: no word is cut by the end of another.
\<close>

theorem parsecmd_words:
  assumes "parsecmd s = Parsed (c, m) r" and "NUL \<notin> set s"
  shows "args_ok c \<and> r = [] \<and> (\<forall>(q, eq) \<in> set_cmd c. q < eq \<and> eq \<le> length s \<and>
    (\<forall>x \<in> set (take (eq - q) (drop q s)). is_word x) \<and>
    takeWhile (\<lambda>x. x \<noteq> NUL) (drop q m) = take (eq - q) (drop q s))"
proof -
  obtain u where p: "parseline (depth s) (length s) s = Parsed c u" and m: "m = nulterminate c (s @ [NUL])" and r: "r = []"
    using assms(1) by (cases "parseline (depth s) (length s) s") (auto simp: parsecmd_def split: prod.splits if_splits)
  have ok: "cmd_ok s c" using parse_ok [of s s "depth s"] p by auto
  have "q < eq \<and> eq \<le> length s \<and> (\<forall>x \<in> set (take (eq - q) (drop q s)). is_word x) \<and>
      takeWhile (\<lambda>x. x \<noteq> NUL) (drop q m) = take (eq - q) (drop q s)" if t: "(q, eq) \<in> set_cmd c" for q eq
  proof -
    have wt: "q < eq" "eq \<le> length s" "\<And>i. q \<le> i \<Longrightarrow> i < eq \<Longrightarrow> is_word (s ! i)"
      using ok t by (auto simp: cmd_ok_def word_tok_def)
    have lm: "length m = Suc (length s)" using nulterminate_nth [of c "s @ [NUL]"] m by simp
    have mi: "m ! i = (if i \<in> snd ` set_cmd c then NUL else (s @ [NUL]) ! i)" if "i \<le> length s" for i
      using nulterminate_nth [of c "s @ [NUL]"] m that by simp
    have keep: "m ! i = s ! i" if i: "q \<le> i" "i < eq" for i
    proof -
      have "i \<notin> snd ` set_cmd c" using ok wt(2,3) i by (auto simp: cmd_ok_def word_tok_def)
      then show ?thesis using mi [of i] wt(2) i by (simp add: nth_append)
    qed
    have "m ! eq = NUL" using mi [of eq] wt(2) t by force
    have "takeWhile (\<lambda>x. x \<noteq> NUL) (drop q m) = take (eq - q) (drop q m)"
    proof (rule takeWhile_here)
      fix i
      assume i: "i < eq - q"
      have lt: "q + i < length s" using i wt(2) by linarith
      have "s ! (q + i) \<noteq> NUL" using assms(2) nth_mem [OF lt] by auto
      moreover have "drop q m ! i = s ! (q + i)" using keep [of "q + i"] i lm wt(2) by simp
      ultimately show "drop q m ! i \<noteq> NUL" by simp
    qed (use lm wt \<open>m ! eq = NUL\<close> in auto)
    also have "take (eq - q) (drop q m) = take (eq - q) (drop q s)"
      using lm wt(2) keep by (intro nth_equalityI) auto
    finally have e: "takeWhile (\<lambda>x. x \<noteq> NUL) (drop q m) = take (eq - q) (drop q s)" .
    have "\<forall>x \<in> set (take (eq - q) (drop q s)). is_word x"
      using wt by (auto simp: in_set_conv_nth)
    with e wt show ?thesis by blast
  qed
  with ok r show ?thesis by (auto simp: cmd_ok_def)
qed

theorem parsecmd_words_witness:
  "\<exists>c m. parsecmd ''cat<in|wc -l'' = Parsed (c, m) [] \<and> c = PIPE (REDIR (EXEC [(0, 3)]) (4, 6) O_RDONLY 0) (EXEC [(7, 9), (10, 12)]) \<and>
     takeWhile (\<lambda>x. x \<noteq> NUL) (drop 7 m) = ''wc''"
proof -
  let ?c = "PIPE (REDIR (EXEC [(0, 3)]) (4, 6) O_RDONLY 0) (EXEC [(7, 9), (10, 12)])"
    and ?m = "nulterminate (PIPE (REDIR (EXEC [(0, 3)]) (4, 6) O_RDONLY 0) (EXEC [(7, 9), (10, 12)])) (''cat<in|wc -l'' @ [NUL])"
  have p: "parsecmd ''cat<in|wc -l'' = Parsed (?c, ?m) []" by code_simp
  have "takeWhile (\<lambda>x. x \<noteq> NUL) (drop 7 ?m) = take (9 - 7) (drop 7 ''cat<in|wc -l'')"
    using parsecmd_words [OF p] by simp
  then have "takeWhile (\<lambda>x. x \<noteq> NUL) (drop 7 ?m) = ''wc''" by simp
  with p show ?thesis by blast
qed

end
