(* ===== verification/ShellPrint.thy ===== *)
theory ShellPrint
  imports Shell
begin

text \<open>
  The text of a command line and its parsing: the parser of \<^verbatim>\<open>sh.c\<close> reads a printed command back as that command, for every
  nesting of programs, redirections, pipes, lists, background commands and parentheses.
\<close>

section \<open>Printing and parsing\<close>

text \<open>
  The text of a command, at the four levels of the grammar; parentheses where a command stands at a lower level
  than its own.
\<close>

datatype level = Ln | Bk | Pi | Ex

definition paren :: "bool \<Rightarrow> string \<Rightarrow> string" where
  "paren b s = (if b then ''('' @ s @ '')'' else s)"

primrec prt :: "string cmd \<Rightarrow> level \<Rightarrow> string" where
  "prt (EXEC ts) l = concat (map (\<lambda>t. t @ '' '') ts)"
| "prt (REDIR c f m d) l = prt c Ex @ (if d = 0 then CHR ''<'' else CHR ''>'') # f @ '' ''"
| "prt (PIPE c d) l = paren (l = Ex) (prt c Ex @ ''|'' @ prt d Pi)"
| "prt (LIST c d) l = paren (l \<noteq> Ln) (prt c Bk @ '';'' @ prt d Ln)"
| "prt (BACK c) l = paren (l = Pi \<or> l = Ex) (prt c Bk @ ''&'')"

definition word_ok :: "string \<Rightarrow> bool" where
  "word_ok w \<longleftrightarrow> w \<noteq> [] \<and> (\<forall>x \<in> set w. is_word x \<and> x \<noteq> NUL)"

primrec valid :: "string cmd \<Rightarrow> bool" where
  "valid (EXEC ts) \<longleftrightarrow> (\<forall>t \<in> set ts. word_ok t) \<and> length ts < MAXARGS"
| "valid (REDIR c f m d) \<longleftrightarrow> valid c \<and> word_ok f \<and> (m, d) \<in> {(O_RDONLY, 0), (O_WRONLY OR O_CREATE, 1)}"
| "valid (PIPE c d) \<longleftrightarrow> valid c \<and> valid d"
| "valid (LIST c d) \<longleftrightarrow> valid c \<and> valid d"
| "valid (BACK c) \<longleftrightarrow> valid c"

definition tx :: "string \<Rightarrow> token \<Rightarrow> string" where
  "tx b t = take (snd t - fst t) (drop (fst t) b)"

text \<open>What may follow a command.\<close>

definition fol :: "string \<Rightarrow> string \<Rightarrow> bool" where
  "fol toks s \<longleftrightarrow> s = [] \<or> hd s \<in> set toks"

lemma sym_not_ws: "c \<in> set ''<>|&;()'' \<Longrightarrow> \<not> is_ws c \<and> c \<noteq> NUL \<and> \<not> is_word c"
  by (auto simp: is_ws_def is_word_def whitespace_def symbols_def)

lemma word_not_sym: "is_word c \<Longrightarrow> \<not> is_ws c \<and> c \<notin> set ''<>|&;()''"
  by (auto simp: is_ws_def is_word_def whitespace_def symbols_def)

definition nows :: "string \<Rightarrow> bool" where
  "nows s \<longleftrightarrow> s = [] \<or> \<not> is_ws (hd s)"

lemma nows_drop: "nows s \<Longrightarrow> dropWhile is_ws s = s"
  by (cases s) (auto simp: nows_def)

lemma fol_nows: "fol toks s \<Longrightarrow> set toks \<subseteq> set ''<>|&;()'' \<Longrightarrow> nows s"
  using sym_not_ws by (auto simp: fol_def nows_def)

lemma peek_nows: "nows s \<Longrightarrow> peek s toks = (s \<noteq> [] \<and> hd s \<noteq> NUL \<and> hd s \<in> set toks, s)"
  by (cases s) (auto simp: peek_def nows_def strchr_eq Let_def)

lemma word_ok_Cons: "word_ok w \<Longrightarrow> \<exists>c v. w = c # v \<and> is_word c \<and> c \<noteq> NUL"
  by (cases w) (auto simp: word_ok_def)

lemma nows_word: "word_ok w \<Longrightarrow> nows (w @ s)"
  using word_ok_Cons word_not_sym by (fastforce simp: nows_def)

lemma gettoken_symbol:
  assumes "c \<in> {CHR ''|'', CHR ''('', CHR '')'', CHR '';'', CHR ''&'', CHR ''<''}" and "nows s"
  shows "\<exists>f. gettoken es (c # s) = (c, f, s)"
proof -
  have "\<not> is_ws c" using assms(1) sym_not_ws [of c] by auto
  then show ?thesis using assms nows_drop [OF assms(2)] by (auto simp: gettoken_def Let_def)
qed

lemma gettoken_greater:
  assumes "word_ok w"
  shows "\<exists>f. gettoken es (CHR ''>'' # w @ s) = (CHR ''>'', f, w @ s)"
proof -
  obtain c v where w: "w = c # v" "is_word c" using word_ok_Cons [OF assms] by blast
  then have "c \<noteq> CHR ''>''" using word_not_sym [of c] by auto
  moreover have "\<not> is_ws (CHR ''>'')" using sym_not_ws [of "CHR ''>''"] by auto
  ultimately show ?thesis using w nows_drop [OF nows_word [OF assms, of s]] by (simp add: gettoken_def Let_def)
qed

lemma dropWhile_word: "word_ok w \<Longrightarrow> dropWhile is_word (w @ CHR '' '' # s) = CHR '' '' # s"
proof -
  assume "word_ok w"
  then have "\<And>x. x \<in> set w \<Longrightarrow> is_word x" by (simp add: word_ok_def)
  moreover have "\<not> is_word (CHR '' '')" by (simp add: is_word_def whitespace_def)
  ultimately show ?thesis by (simp add: dropWhile_append2)
qed

lemma gettoken_text:
  assumes w: "word_ok w" and s: "nows s" and b: "suffix (w @ '' '' @ s) b"
  shows "\<exists>f. gettoken (length b) (w @ '' '' @ s) = (CHR ''a'', f, s) \<and> tx b f = w"
proof -
  obtain c v where cv: "w = c # v" "is_word c" using word_ok_Cons [OF w] by blast
  have n: "c \<notin> set ''<>|&;()''" using word_not_sym [OF cv(2)] by blast
  have d: "dropWhile is_ws (w @ '' '' @ s) = w @ '' '' @ s" by (rule nows_drop [OF nows_word [OF w]])
  have "token_at (c # v @ '' '' @ s) = (CHR ''a'', dropWhile is_word (c # v @ '' '' @ s))" using n by auto
  then have tok: "token_at (w @ '' '' @ s) = (CHR ''a'', CHR '' '' # s)" using dropWhile_word [OF w, of s] cv(1) by simp
  have sp: "dropWhile is_ws (CHR '' '' # s) = s" using nows_drop [OF s] by (simp add: is_ws_def whitespace_def)
  obtain pre where b: "b = pre @ w @ '' '' @ s" using b by (auto simp: suffix_def)
  have "gettoken (length b) (w @ '' '' @ s) = (CHR ''a'', (length pre, length pre + length w), s)"
    unfolding gettoken_def d Let_def tok using sp by (simp add: b)
  moreover have "tx b (length pre, length pre + length w) = w" by (simp add: tx_def b)
  ultimately show ?thesis by blast
qed

lemma gettoken_end: "gettoken es [] = (NUL, (es, es), [])"
  by (simp add: gettoken_def)

lemma parseredirs_stop: "fol ''|&;)'' s \<Longrightarrow> length s < n \<Longrightarrow> parseredirs n es c s = Parsed c s"
  using fol_nows [of "''|&;)''" s] by (cases n) (auto simp: peek_nows fol_def)

lemma parseargs_stop:
  assumes "fol ''|&;)'' s" and "length s < n"
  shows "parseargs n es a c s = Parsed c s"
proof -
  have nw: "nows s" using fol_nows [OF assms(1)] by auto
  obtain k where n: "n = Suc k" using assms(2) by (cases n) auto
  show ?thesis
  proof (cases s)
    case Nil
    then show ?thesis using nw by (simp add: n peek_nows gettoken_end)
  next
    case (Cons x t)
    then have "x \<in> set ''|&;)''" using assms(1) by (simp add: fol_def)
    then have "peek s ''|)&;'' = (True, s)" using nw Cons by (auto simp: peek_nows)
    then show ?thesis by (simp add: n)
  qed
qed

text \<open>One redirection.\<close>

lemma parseredirs_one:
  assumes f: "word_ok f" and s: "nows s" and md: "(m, d) \<in> {(O_RDONLY, 0), (O_WRONLY OR O_CREATE, 1)}"
    and b: "suffix ((if d = 0 then CHR ''<'' else CHR ''>'') # f @ '' '' @ s) b"
  shows "\<exists>t. tx b t = f \<and> (\<forall>n c. parseredirs (Suc n) (length b) c ((if d = 0 then CHR ''<'' else CHR ''>'') # f @ '' '' @ s) =
    parseredirs n (length b) (REDIR c t m d) s)"
proof -
  let ?x = "if d = 0 then CHR ''<'' else CHR ''>''"
  have x: "?x \<in> set ''<>''" "\<not> is_ws ?x" "?x \<noteq> NUL" using sym_not_ws [of ?x] by auto
  then have p: "peek (?x # f @ '' '' @ s) ''<>'' = (True, ?x # f @ '' '' @ s)"
    by (subst peek_nows) (auto simp: nows_def)
  obtain g where g: "gettoken (length b) (?x # f @ '' '' @ s) = (?x, g, f @ '' '' @ s)"
  proof (cases "d = 0")
    case True
    then show ?thesis using gettoken_symbol [of "CHR ''<''" "f @ '' '' @ s" "length b"] nows_word [OF f] that by auto
  next
    case False
    then show ?thesis using gettoken_greater [OF f, of "length b" "'' '' @ s"] that by auto
  qed
  have "suffix (f @ '' '' @ s) b" using b by (metis suffix_ConsD)
  then obtain t where t: "gettoken (length b) (f @ '' '' @ s) = (CHR ''a'', t, s)" "tx b t = f"
    using gettoken_text [OF f s] by blast
  have r: "redircmd ?x c t = REDIR c t m d" for c using md by (auto simp: redircmd_def)
  define x where "x = ?x"
  have "parseredirs (Suc n) (length b) c (x # f @ '' '' @ s) = parseredirs n (length b) (REDIR c t m d) s" for n c
    using p g t(1) r unfolding x_def [symmetric] by simp
  with t(2) show ?thesis unfolding x_def by blast
qed

lemma parseback_fuel: "length s < n \<Longrightarrow> length s < k \<Longrightarrow> parseback n es c s = parseback k es c s"
proof (induction n arbitrary: c s k)
  case (Suc n)
  obtain j where k: "k = Suc j" using Suc.prems(2) by (cases k) auto
  obtain y r where p: "peek s ''&'' = (y, r)" by force
  obtain t f u where g: "gettoken es r = (t, f, u)" by (metis prod_cases3)
  show ?case
  proof (cases y)
    case True
    then have "length u < length s" using p by (intro peek_gettoken [OF _ g]) simp
    then have "length u < n" "length u < j" using Suc.prems k by linarith+
    then have "parseback n es (BACK c) u = parseback j es (BACK c) u" by (rule Suc.IH)
    with True p g show ?thesis by (simp add: k)
  qed (simp add: k p)
qed simp

lemma parseback_stop: "fol '';)'' s \<Longrightarrow> length s < n \<Longrightarrow> parseback n es c s = Parsed c s"
  using fol_nows [of "'';)''" s] by (cases n) (auto simp: peek_nows fol_def)

lemma parseback_one:
  assumes "nows s"
  shows "parseback (Suc n) es c (CHR ''&'' # s) = parseback n es (BACK c) s"
proof -
  have "\<not> is_ws (CHR ''&'')" using sym_not_ws [of "CHR ''&''"] by auto
  then have "peek (CHR ''&'' # s) ''&'' = (True, CHR ''&'' # s)" by (subst peek_nows) (auto simp: nows_def)
  moreover obtain f where "gettoken es (CHR ''&'' # s) = (CHR ''&'', f, s)" using gettoken_symbol [OF _ assms] by blast
  ultimately show ?thesis by simp
qed

lemma nows_sym: "c \<in> set ''<>|&;()'' \<Longrightarrow> nows (c # s)"
  using sym_not_ws by (simp add: nows_def)

lemma nows_prt: "valid c \<Longrightarrow> nows s \<Longrightarrow> nows (prt c l @ s)"
proof (induction c arbitrary: l s)
  case (EXEC ts)
  show ?case
  proof (cases ts)
    case (Cons t us)
    then have "word_ok t" using EXEC by simp
    from nows_word [OF this] Cons show ?thesis by simp
  qed (use EXEC in simp)
next
  case (REDIR c f m d)
  then show ?case by (simp add: nows_sym)
next
  case (PIPE c d)
  then show ?case by (simp add: nows_sym paren_def)
next
  case (LIST c d)
  then show ?case by (simp add: nows_sym paren_def)
next
  case (BACK c)
  then show ?case by (simp add: nows_sym paren_def)
qed

text \<open>The words of a program.\<close>

lemma parseargs_words:
  assumes "\<forall>t \<in> set ts. word_ok t" and "argc + length ts < MAXARGS" and "fol ''<>|&;)'' s"
    and "suffix (concat (map (\<lambda>t. t @ '' '') ts) @ s) b" and "ts \<noteq> []"
  shows "\<exists>us. map (tx b) us = ts \<and> (\<forall>n us'. length (concat (map (\<lambda>t. t @ '' '') ts) @ s) < n \<longrightarrow>
    (\<exists>k > length s. parseargs n (length b) argc (EXEC us') (concat (map (\<lambda>t. t @ '' '') ts) @ s) =
      pbind (parseredirs k (length b) (EXEC (us' @ us)) s) (parseargs k (length b) (argc + length ts))))"
  using assms
proof (induction ts arbitrary: argc)
  case (Cons t ts)
  let ?r = "concat (map (\<lambda>t. t @ '' '') ts) @ s"
  have t: "word_ok t" and ts: "\<forall>t \<in> set ts. word_ok t" using Cons.prems(1) by auto
  have ns: "nows s" using fol_nows [OF Cons.prems(3)] by auto
  have nr: "nows ?r"
  proof (cases ts)
    case (Cons t' ts')
    then show ?thesis using ts nows_word [of t'] by simp
  qed (use ns in simp)
  have sb: "suffix (t @ '' '' @ ?r) b" using Cons.prems(4) by simp
  have sr: "suffix ?r b" using sb by (metis append.assoc suffix_appendD)
  obtain f where f: "gettoken (length b) (t @ '' '' @ ?r) = (CHR ''a'', f, ?r)" "tx b f = t"
    using gettoken_text [OF t nr sb] by blast
  obtain c v where cv: "t = c # v" "is_word c" using word_ok_Cons [OF t] by blast
  then have "c \<notin> set ''<>|&;()''" using word_not_sym by blast
  then have pk: "peek (t @ '' '' @ ?r) ''|)&;'' = (False, t @ '' '' @ ?r)"
    using cv by (subst peek_nows [OF nows_word [OF t]]) auto
  have step: "parseargs (Suc n) (length b) argc (EXEC us') (t @ '' '' @ ?r) =
      pbind (parseredirs n (length b) (EXEC (us' @ [f])) ?r) (parseargs n (length b) (Suc argc))" for n us'
    using pk f Cons.prems(2) by simp
  show ?case
  proof (cases "ts = []")
    case True
    show ?thesis
    proof (intro exI [of _ "[f]"] conjI allI impI)
      fix n us'
      assume "length (concat (map (\<lambda>t. t @ '' '') (t # ts)) @ s) < n"
      then obtain k where "n = Suc k" "length s < k" using True cv by (cases n) auto
      with step [of k us'] True show "\<exists>k > length s. parseargs n (length b) argc (EXEC us') (concat (map (\<lambda>t. t @ '' '') (t # ts)) @ s) =
        pbind (parseredirs k (length b) (EXEC (us' @ [f])) s) (parseargs k (length b) (argc + length (t # ts)))"
        by (intro exI [of _ k]) simp
    qed (use f True in simp)
  next
    case False
    then obtain t' ts' where tt: "ts = t' # ts'" by (meson neq_Nil_conv)
    then have t': "word_ok t'" using ts by simp
    obtain c' v' where cv': "t' = c' # v'" "is_word c'" using word_ok_Cons [OF t'] by blast
    then have "c' \<notin> set ''<>|&;()''" using word_not_sym by blast
    then have pr: "peek ?r ''<>'' = (False, ?r)" using cv' tt by (subst peek_nows [OF nr]) auto
    have "Suc argc + length ts < MAXARGS" using Cons.prems(2) by simp
    from Cons.IH [OF ts this Cons.prems(3) sr False] obtain us where us: "map (tx b) us = ts"
      "\<And>n us'. length ?r < n \<Longrightarrow> \<exists>k > length s. parseargs n (length b) (Suc argc) (EXEC us') ?r =
        pbind (parseredirs k (length b) (EXEC (us' @ us)) s) (parseargs k (length b) (Suc argc + length ts))" by blast
    show ?thesis
    proof (intro exI [of _ "f # us"] conjI allI impI)
      fix n us'
      assume "length (concat (map (\<lambda>t. t @ '' '') (t # ts)) @ s) < n"
      then obtain k j where "n = Suc k" "length ?r < k" "k = Suc j" using cv by (cases n; cases "n - 1") auto
      then have "parseargs n (length b) argc (EXEC us') (t @ '' '' @ ?r) = parseargs k (length b) (Suc argc) (EXEC (us' @ [f])) ?r"
        using step [of k us'] pr by simp
      with us(2) [OF \<open>length ?r < k\<close>, of "us' @ [f]"] show "\<exists>k > length s. parseargs n (length b) argc (EXEC us') (concat (map (\<lambda>t. t @ '' '') (t # ts)) @ s) =
        pbind (parseredirs k (length b) (EXEC (us' @ f # us)) s) (parseargs k (length b) (argc + length (t # ts)))"
        by simp
    qed (use f us in simp)
  qed
qed simp

text \<open>
  What each function of the parser makes of the text of \<open>c\<close> followed by \<open>s\<close>. The loops over redirections and over
  ampersands go on in \<open>s\<close>.
\<close>

definition okEx :: "string \<Rightarrow> string cmd \<Rightarrow> string \<Rightarrow> bool" where
  "okEx b c s \<longleftrightarrow> (\<exists>c'. map_cmd (tx b) c' = c \<and> (\<forall>n > 4 * length (prt c Ex @ s) + 1. \<exists>k > length s.
     parseexec n (length b) (prt c Ex @ s) =
       (case exec_len c of
          Some a \<Rightarrow> pbind (parseredirs k (length b) c' s) (parseargs k (length b) a)
        | None \<Rightarrow> parseredirs k (length b) c' s)))"

definition okPi :: "string \<Rightarrow> string cmd \<Rightarrow> string \<Rightarrow> bool" where
  "okPi b c s \<longleftrightarrow> (\<exists>c'. map_cmd (tx b) c' = c \<and> (\<forall>n > 4 * length (prt c Pi @ s) + 2.
     parsepipe n (length b) (prt c Pi @ s) = Parsed c' s))"

definition okBk :: "string \<Rightarrow> string cmd \<Rightarrow> string \<Rightarrow> bool" where
  "okBk b c s \<longleftrightarrow> (\<exists>c'. map_cmd (tx b) c' = c \<and> (\<forall>n > 4 * length (prt c Bk @ s) + 2. \<exists>k > length s.
     pbind (parsepipe n (length b) (prt c Bk @ s)) (parseback n (length b)) = parseback k (length b) c' s))"

definition okLn :: "string \<Rightarrow> string cmd \<Rightarrow> string \<Rightarrow> bool" where
  "okLn b c s \<longleftrightarrow> (\<exists>c'. map_cmd (tx b) c' = c \<and> (\<forall>n > 4 * length (prt c Ln @ s) + 3.
     parseline n (length b) (prt c Ln @ s) = Parsed c' s))"

lemma pbind_assoc: "pbind (pbind r f) g = pbind r (\<lambda>a s. pbind (f a s) g)"
  by (cases r) simp_all

lemma fol_mono: "fol t s \<Longrightarrow> set t \<subseteq> set u \<Longrightarrow> fol u s"
  by (auto simp: fol_def)

lemma peek_fol: "fol t s \<Longrightarrow> set t \<subseteq> set ''<>|&;()'' \<Longrightarrow> set t \<inter> set u = {} \<Longrightarrow> peek s u = (False, s)"
  using fol_nows [of t s] by (subst peek_nows) (auto simp: fol_def)

lemma peek_sym: "c \<in> set u \<Longrightarrow> c \<in> set ''<>|&;()'' \<Longrightarrow> peek (c # s) u = (True, c # s)"
  using sym_not_ws [of c] by (subst peek_nows) (auto simp: nows_def)

lemma ex_done:
  assumes "okEx b c s" and "fol ''|&;)'' s"
  shows "\<exists>c'. map_cmd (tx b) c' = c \<and> (\<forall>n > 4 * length (prt c Ex @ s) + 1. parseexec n (length b) (prt c Ex @ s) = Parsed c' s)"
proof -
  obtain c' where c': "map_cmd (tx b) c' = c" "\<And>n. 4 * length (prt c Ex @ s) + 1 < n \<Longrightarrow> \<exists>k > length s.
     parseexec n (length b) (prt c Ex @ s) =
       (case exec_len c of
          Some a \<Rightarrow> pbind (parseredirs k (length b) c' s) (parseargs k (length b) a)
        | None \<Rightarrow> parseredirs k (length b) c' s)" using assms(1) unfolding okEx_def by blast
  have "parseexec n (length b) (prt c Ex @ s) = Parsed c' s" if "4 * length (prt c Ex @ s) + 1 < n" for n
    using c'(2) [OF that] parseredirs_stop [OF assms(2)] parseargs_stop [OF assms(2)] by (auto split: option.splits)
  with c'(1) show ?thesis by blast
qed

lemma ex_pi:
  assumes "okEx b c s" and "fol ''&;)'' s" and "prt c Pi = prt c Ex"
  shows "okPi b c s"
proof -
  obtain c' where c': "map_cmd (tx b) c' = c"
    "\<And>n. 4 * length (prt c Ex @ s) + 1 < n \<Longrightarrow> parseexec n (length b) (prt c Ex @ s) = Parsed c' s"
    using ex_done [OF assms(1)] fol_mono [OF assms(2)] by auto
  have p: "peek s ''|'' = (False, s)" using peek_fol [OF assms(2)] by auto
  have "parsepipe n (length b) (prt c Ex @ s) = Parsed c' s" if n: "4 * length (prt c Ex @ s) + 2 < n" for n
  proof -
    obtain m where m: "n = Suc m" using n by (cases n) auto
    with n have "parseexec m (length b) (prt c Ex @ s) = Parsed c' s" by (intro c'(2)) simp
    with p m show ?thesis by simp
  qed
  with c'(1) show ?thesis unfolding okPi_def assms(3) by blast
qed

lemma pi_bk:
  assumes "okPi b c s" and "prt c Bk = prt c Pi"
  shows "okBk b c s"
proof -
  obtain c' where c': "map_cmd (tx b) c' = c"
    "\<And>n. 4 * length (prt c Pi @ s) + 2 < n \<Longrightarrow> parsepipe n (length b) (prt c Pi @ s) = Parsed c' s"
    using assms(1) unfolding okPi_def by blast
  have "\<exists>k > length s. pbind (parsepipe n (length b) (prt c Pi @ s)) (parseback n (length b)) = parseback k (length b) c' s"
    if "4 * length (prt c Pi @ s) + 2 < n" for n
    using that c'(2) [OF that] by (intro exI [of _ n]) simp
  with c'(1) show ?thesis unfolding okBk_def assms(2) by blast
qed

lemma bk_ln:
  assumes "okBk b c s" and "fol '')'' s" and "prt c Ln = prt c Bk"
  shows "okLn b c s"
proof -
  obtain c' where c': "map_cmd (tx b) c' = c"
    "\<And>n. 4 * length (prt c Bk @ s) + 2 < n \<Longrightarrow> \<exists>k > length s.
     pbind (parsepipe n (length b) (prt c Bk @ s)) (parseback n (length b)) = parseback k (length b) c' s"
    using assms(1) unfolding okBk_def by blast
  have p: "peek s '';'' = (False, s)" using peek_fol [OF assms(2)] by auto
  have f: "fol '';)'' s" using fol_mono [OF assms(2)] by auto
  have "parseline n (length b) (prt c Bk @ s) = Parsed c' s" if n: "4 * length (prt c Bk @ s) + 3 < n" for n
  proof -
    obtain m where m: "n = Suc m" using n by (cases n) auto
    with n have "4 * length (prt c Bk @ s) + 2 < m" by simp
    from c'(2) [OF this] parseback_stop [OF f]
    have "pbind (parsepipe m (length b) (prt c Bk @ s)) (parseback m (length b)) = Parsed c' s" by auto
    with p show ?thesis by (simp add: m pbind_assoc [symmetric])
  qed
  with c'(1) show ?thesis unfolding okLn_def assms(3) by blast
qed

lemma ln_ex:
  assumes "okLn b c (CHR '')'' # s)" and "valid c" and "fol ''<>|&;)'' s" and "prt c Ex = ''('' @ prt c Ln @ '')''"
    and "exec_len c = None"
  shows "okEx b c s"
proof -
  let ?s = "prt c Ln @ CHR '')'' # s"
  obtain c' where c': "map_cmd (tx b) c' = c"
    "\<And>n. 4 * length ?s + 3 < n \<Longrightarrow> parseline n (length b) ?s = Parsed c' (CHR '')'' # s)"
    using assms(1) unfolding okLn_def by blast
  have ns: "nows s" using fol_nows [OF assms(3)] by auto
  have "nows ?s" by (rule nows_prt [OF assms(2) nows_sym]) simp
  then obtain f where f: "gettoken (length b) (CHR ''('' # ?s) = (CHR ''('', f, ?s)"
    using gettoken_symbol [of "CHR ''(''" ?s "length b"] by auto
  obtain g where g: "gettoken (length b) (CHR '')'' # s) = (CHR '')'', g, s)"
    using gettoken_symbol [of "CHR '')''" s "length b"] ns by auto
  have p: "peek (CHR ''('' # ?s) ''('' = (True, CHR ''('' # ?s)" "peek (CHR '')'' # s) '')'' = (True, CHR '')'' # s)"
    by (simp_all add: peek_sym)
  have "\<exists>k > length s. parseexec n (length b) (CHR ''('' # ?s) = parseredirs k (length b) c' s"
    if n: "4 * length (CHR ''('' # ?s) + 1 < n" for n
  proof -
    obtain m where m: "n = Suc (Suc m)" using n by (cases n; cases "n - 1") auto
    with n have "4 * length ?s + 3 < m" by simp
    from c'(2) [OF this] p f g m n show ?thesis by (intro exI [of _ m]) simp
  qed
  with c'(1) assms(4,5) show ?thesis unfolding okEx_def by auto
qed

lemma pipe_pi:
  assumes "okEx b c (CHR ''|'' # prt d Pi @ s)" and "okPi b d s" and "valid d" and "fol ''&;)'' s"
  shows "okPi b (PIPE c d) s"
proof -
  let ?r = "CHR ''|'' # prt d Pi @ s"
  have "fol ''|&;)'' ?r" by (simp add: fol_def)
  from ex_done [OF assms(1) this] obtain c' where c': "map_cmd (tx b) c' = c"
    "\<And>n. 4 * length (prt c Ex @ ?r) + 1 < n \<Longrightarrow> parseexec n (length b) (prt c Ex @ ?r) = Parsed c' ?r" by blast
  obtain d' where d': "map_cmd (tx b) d' = d"
    "\<And>n. 4 * length (prt d Pi @ s) + 2 < n \<Longrightarrow> parsepipe n (length b) (prt d Pi @ s) = Parsed d' s"
    using assms(2) unfolding okPi_def by blast
  have "nows (prt d Pi @ s)" using fol_nows [OF assms(4)] by (intro nows_prt [OF assms(3)]) auto
  then obtain g where g: "gettoken (length b) ?r = (CHR ''|'', g, prt d Pi @ s)"
    using gettoken_symbol [of "CHR ''|''" "prt d Pi @ s" "length b"] by auto
  have p: "peek ?r ''|'' = (True, ?r)" by (simp add: peek_sym)
  have "parsepipe n (length b) (prt c Ex @ ?r) = Parsed (PIPE c' d') s" if n: "4 * length (prt c Ex @ ?r) + 2 < n" for n
  proof -
    obtain m where m: "n = Suc m" using n by (cases n) auto
    with n have "parseexec m (length b) (prt c Ex @ ?r) = Parsed c' ?r" by (intro c'(2)) simp
    moreover have "parsepipe m (length b) (prt d Pi @ s) = Parsed d' s" using n m by (intro d'(2)) simp
    ultimately show ?thesis using p g by (simp add: m)
  qed
  with c'(1) d'(1) show ?thesis unfolding okPi_def by (intro exI [of _ "PIPE c' d'"]) (simp add: paren_def)
qed

lemma list_ln:
  assumes "okBk b c (CHR '';'' # prt d Ln @ s)" and "okLn b d s" and "valid d" and "fol '')'' s"
  shows "okLn b (LIST c d) s"
proof -
  let ?r = "CHR '';'' # prt d Ln @ s"
  have f: "fol '';)'' ?r" by (simp add: fol_def)
  obtain c' where c': "map_cmd (tx b) c' = c"
    "\<And>n. 4 * length (prt c Bk @ ?r) + 2 < n \<Longrightarrow> \<exists>k > length ?r.
     pbind (parsepipe n (length b) (prt c Bk @ ?r)) (parseback n (length b)) = parseback k (length b) c' ?r"
    using assms(1) unfolding okBk_def by blast
  obtain d' where d': "map_cmd (tx b) d' = d"
    "\<And>n. 4 * length (prt d Ln @ s) + 3 < n \<Longrightarrow> parseline n (length b) (prt d Ln @ s) = Parsed d' s"
    using assms(2) unfolding okLn_def by blast
  have "nows (prt d Ln @ s)" using fol_nows [OF assms(4)] by (intro nows_prt [OF assms(3)]) auto
  then obtain g where g: "gettoken (length b) ?r = (CHR '';'', g, prt d Ln @ s)"
    using gettoken_symbol [of "CHR '';''" "prt d Ln @ s" "length b"] by auto
  have p: "peek ?r '';'' = (True, ?r)" by (simp add: peek_sym)
  have "parseline n (length b) (prt c Bk @ ?r) = Parsed (LIST c' d') s" if n: "4 * length (prt c Bk @ ?r) + 3 < n" for n
  proof -
    obtain m where m: "n = Suc m" using n by (cases n) auto
    with n have "4 * length (prt c Bk @ ?r) + 2 < m" by simp
    from c'(2) [OF this] parseback_stop [OF f]
    have "pbind (parsepipe m (length b) (prt c Bk @ ?r)) (parseback m (length b)) = Parsed c' ?r" by auto
    moreover have "parseline m (length b) (prt d Ln @ s) = Parsed d' s" using n m by (intro d'(2)) simp
    ultimately show ?thesis using p g by (simp add: m pbind_assoc [symmetric])
  qed
  with c'(1) d'(1) show ?thesis unfolding okLn_def by (intro exI [of _ "LIST c' d'"]) (simp add: paren_def)
qed

lemma back_bk:
  assumes "okBk b c (CHR ''&'' # s)" and "fol ''&;)'' s"
  shows "okBk b (BACK c) s"
proof -
  let ?r = "CHR ''&'' # s"
  obtain c' where c': "map_cmd (tx b) c' = c"
    "\<And>n. 4 * length (prt c Bk @ ?r) + 2 < n \<Longrightarrow> \<exists>k > length ?r.
     pbind (parsepipe n (length b) (prt c Bk @ ?r)) (parseback n (length b)) = parseback k (length b) c' ?r"
    using assms(1) unfolding okBk_def by blast
  have ns: "nows s" using fol_nows [OF assms(2)] by auto
  have "\<exists>k > length s. pbind (parsepipe n (length b) (prt c Bk @ ?r)) (parseback n (length b)) = parseback k (length b) (BACK c') s"
    if n: "4 * length (prt c Bk @ ?r) + 2 < n" for n
  proof -
    obtain k where k: "k > length ?r"
      "pbind (parsepipe n (length b) (prt c Bk @ ?r)) (parseback n (length b)) = parseback k (length b) c' ?r"
      using c'(2) [OF n] by blast
    then obtain j where "k = Suc j" "length s < j" by (cases k) auto
    with k(2) parseback_one [OF ns, of j "length b" c'] show ?thesis by auto
  qed
  with c'(1) show ?thesis unfolding okBk_def by (intro exI [of _ "BACK c'"]) (simp add: paren_def)
qed

lemma exec_ex:
  assumes "valid (EXEC ts)" and "fol ''<>|&;)'' s" and "suffix (prt (EXEC ts) Ex @ s) b"
  shows "okEx b (EXEC ts) s"
proof -
  let ?w = "concat (map (\<lambda>t. t @ '' '') ts)"
  have ns: "nows (?w @ s)" using fol_nows [OF assms(2)] nows_prt [OF assms(1), of s Ex] by auto
  have nl: "peek (?w @ s) ''('' = (False, ?w @ s)"
  proof (cases ts)
    case Nil
    then show ?thesis using peek_fol [OF assms(2)] by auto
  next
    case (Cons t us)
    then obtain c v where "t = c # v" "is_word c" using assms(1) word_ok_Cons [of t] by auto
    moreover from this have "c \<noteq> CHR ''(''" using word_not_sym [of c] by auto
    ultimately show ?thesis using Cons by (subst peek_nows [OF ns]) simp
  qed
  have ex: "\<exists>us. map (tx b) us = ts \<and> (\<forall>n > 4 * length (?w @ s) + 1. \<exists>k > length s.
    parseexec n (length b) (?w @ s) = pbind (parseredirs k (length b) (EXEC us) s) (parseargs k (length b) (length ts)))"
  proof (cases "ts = []")
    case True
    have "\<exists>k > length s. parseexec n (length b) s = pbind (parseredirs k (length b) (EXEC []) s) (parseargs k (length b) 0)"
      if "4 * length s + 1 < n" for n
      using that nl True by (cases n) (auto intro: exI [of _ "n - 1"])
    with True show ?thesis by (intro exI [of _ "[]"]) simp
  next
    case False
    then obtain t us where tt: "ts = t # us" by (meson neq_Nil_conv)
    then obtain c v where "t = c # v" "is_word c" using assms(1) word_ok_Cons [of t] by auto
    then have nr: "peek (?w @ s) ''<>'' = (False, ?w @ s)"
      using tt word_not_sym [of c] by (subst peek_nows [OF ns]) auto
    obtain us where us: "map (tx b) us = ts" "\<And>n us'. length (?w @ s) < n \<Longrightarrow>
      \<exists>k > length s. parseargs n (length b) 0 (EXEC us') (?w @ s) =
        pbind (parseredirs k (length b) (EXEC (us' @ us)) s) (parseargs k (length b) (0 + length ts))"
      using parseargs_words [OF _ _ assms(2) _ False, of 0 b] assms(1,3) by (simp only: valid.simps prt.simps add_0) blast
    have "\<exists>k > length s. parseexec n (length b) (?w @ s) =
        pbind (parseredirs k (length b) (EXEC us) s) (parseargs k (length b) (length ts))" if n: "4 * length (?w @ s) + 1 < n" for n
    proof -
      obtain m where m: "n = Suc (Suc m)" using n False by (cases n; cases "n - 1") auto
      with n have "length (?w @ s) < Suc m" by simp
      from us(2) [OF this, of "[]"] nl nr m show ?thesis by simp
    qed
    with us(1) show ?thesis by blast
  qed
  then obtain us where us: "map (tx b) us = ts" "\<forall>n > 4 * length (?w @ s) + 1. \<exists>k > length s.
    parseexec n (length b) (?w @ s) = pbind (parseredirs k (length b) (EXEC us) s) (parseargs k (length b) (length ts))" by blast
  then show ?thesis unfolding okEx_def by (intro exI [of _ "EXEC us"]) simp
qed

lemma parseredirs_fuel: "length s < n \<Longrightarrow> length s < k \<Longrightarrow> parseredirs n es c s = parseredirs k es c s"
proof (induction n arbitrary: c s k)
  case (Suc n)
  obtain j where k: "k = Suc j" using Suc.prems(2) by (cases k) auto
  obtain y r where p: "peek s ''<>'' = (y, r)" by force
  obtain t f u where g: "gettoken es r = (t, f, u)" by (metis prod_cases3)
  obtain t' f' u' where g': "gettoken es u = (t', f', u')" by (metis prod_cases3)
  show ?case
  proof (cases y)
    case True
    then have "length u < length s" using p by (intro peek_gettoken [OF _ g]) simp
    with gettoken_le [OF g'] have "length u' < n" "length u' < j" using Suc.prems k by linarith+
    then have "parseredirs n es e u' = parseredirs j es e u'" for e by (rule Suc.IH)
    with True p g g' show ?thesis by (simp add: k)
  qed (simp add: k p)
qed simp

lemma parseargs_fuel: "length s < n \<Longrightarrow> length s < k \<Longrightarrow> parseargs n es a c s = parseargs k es a c s"
proof (induction n arbitrary: a c s k)
  case (Suc n)
  obtain j where k: "k = Suc j" using Suc.prems(2) by (cases k) auto
  obtain y r where p: "peek s ''|)&;'' = (y, r)" by force
  obtain t f u where g: "gettoken es r = (t, f, u)" by (metis prod_cases3)
  show ?case
  proof (cases "y \<or> t = NUL")
    case False
    have "dropWhile is_ws r \<noteq> []" using gettoken_NUL [OF g] False by blast
    then have u: "length u < length s" using gettoken_less [OF g] peek_le [OF p] by simp
    then have n: "length u < n" "length u < j" using Suc.prems k by linarith+
    have "pbind (parseredirs n es e u) (parseargs n es (Suc a)) = pbind (parseredirs j es e u) (parseargs j es (Suc a))" for e
    proof -
      have e: "parseredirs n es e u = parseredirs j es e u" by (rule parseredirs_fuel [OF n])
      have "parseargs n es (Suc a) e' u' = parseargs j es (Suc a) e' u'" if "length u' \<le> length u" for e' u'
        using that n by (intro Suc.IH) auto
      then show ?thesis using parseredirs_within [OF n(2), of es e] e by (cases "parseredirs j es e u") auto
    qed
    with p g k show ?thesis by simp
  qed (use k p g in auto)
qed simp

lemma redir_ex:
  assumes "okEx b c ((if d = 0 then CHR ''<'' else CHR ''>'') # f @ '' '' @ s)" and "valid (REDIR c f m d)"
    and "fol ''<>|&;)'' s" and "suffix (prt (REDIR c f m d) Ex @ s) b"
  shows "okEx b (REDIR c f m d) s"
proof -
  define r where "r = (if d = 0 then CHR ''<'' else CHR ''>'') # f @ '' '' @ s"
  obtain c' where c': "map_cmd (tx b) c' = c" "\<And>n. 4 * length (prt c Ex @ r) + 1 < n \<Longrightarrow> \<exists>k > length r.
     parseexec n (length b) (prt c Ex @ r) =
       (case exec_len c of
          Some a \<Rightarrow> pbind (parseredirs k (length b) c' r) (parseargs k (length b) a)
        | None \<Rightarrow> parseredirs k (length b) c' r)" using assms(1) unfolding okEx_def r_def by blast
  have f: "word_ok f" "(m, d) \<in> {(O_RDONLY, 0), (O_WRONLY OR O_CREATE, 1)}" using assms(2) by simp_all
  have ns: "nows s" using fol_nows [OF assms(3)] by auto
  have "suffix (prt c Ex @ r) b" using assms(4) by (simp add: r_def)
  then have "suffix r b" by (rule suffix_appendD)
  from parseredirs_one [OF f(1) ns f(2) this [unfolded r_def]] obtain t where t: "tx b t = f"
    "\<And>n c. parseredirs (Suc n) (length b) c r = parseredirs n (length b) (REDIR c t m d) s" unfolding r_def by blast
  have "\<exists>k > length s. parseexec n (length b) (prt c Ex @ r) =
       (case exec_len c of
          Some a \<Rightarrow> pbind (parseredirs k (length b) (REDIR c' t m d) s) (parseargs k (length b) a)
        | None \<Rightarrow> parseredirs k (length b) (REDIR c' t m d) s)" if n: "4 * length (prt c Ex @ r) + 1 < n" for n
  proof -
    obtain k where k: "k > length r" "parseexec n (length b) (prt c Ex @ r) =
       (case exec_len c of
          Some a \<Rightarrow> pbind (parseredirs k (length b) c' r) (parseargs k (length b) a)
        | None \<Rightarrow> parseredirs k (length b) c' r)" using c'(2) [OF n] by blast
    then obtain j where j: "k = Suc j" "length s < j" by (cases k) (auto simp: r_def)
    show ?thesis
    proof (cases "exec_len c")
      case None
      with k j t(2) show ?thesis by auto
    next
      case (Some a)
      have "parseargs k (length b) a e u = parseargs j (length b) a e u" if "length u \<le> length s" for e u
        using that j by (intro parseargs_fuel) auto
      then have "pbind (parseredirs j (length b) (REDIR c' t m d) s) (parseargs k (length b) a) =
          pbind (parseredirs j (length b) (REDIR c' t m d) s) (parseargs j (length b) a)"
        using parseredirs_within [OF j(2), of "length b" "REDIR c' t m d"]
        by (cases "parseredirs j (length b) (REDIR c' t m d) s") auto
      with k j t(2) Some show ?thesis by auto
    qed
  qed
  with c'(1) t(1) show ?thesis unfolding okEx_def by (intro exI [of _ "REDIR c' t m d"]) (simp add: r_def)
qed

definition levels :: "string \<Rightarrow> string cmd \<Rightarrow> bool" where
  "levels b c \<longleftrightarrow>
     (\<forall>s. fol ''<>|&;)'' s \<longrightarrow> suffix (prt c Ex @ s) b \<longrightarrow> okEx b c s) \<and>
     (\<forall>s. fol ''&;)'' s \<longrightarrow> suffix (prt c Pi @ s) b \<longrightarrow> okPi b c s) \<and>
     (\<forall>s. fol ''&;)'' s \<longrightarrow> suffix (prt c Bk @ s) b \<longrightarrow> okBk b c s) \<and>
     (\<forall>s. fol '')'' s \<longrightarrow> suffix (prt c Ln @ s) b \<longrightarrow> okLn b c s)"

lemma fol_weaken: "fol ''&;)'' s \<Longrightarrow> fol ''<>|&;)'' s" "fol '')'' s \<Longrightarrow> fol ''&;)'' s"
  by (auto simp: fol_def)

lemma levels_simple:
  assumes "\<And>s. fol ''<>|&;)'' s \<Longrightarrow> suffix (prt c Ex @ s) b \<Longrightarrow> okEx b c s" and "\<And>l. prt c l = prt c Ex"
  shows "levels b c"
proof -
  have pi: "okPi b c s" if "fol ''&;)'' s" "suffix (prt c Ex @ s) b" for s
    using ex_pi [OF assms(1) [OF fol_weaken(1) [OF that(1)] that(2)] that(1) assms(2)] .
  have bk: "okBk b c s" if "fol ''&;)'' s" "suffix (prt c Ex @ s) b" for s
    using pi_bk [OF pi [OF that]] assms(2) [of Bk] assms(2) [of Pi] by simp
  have "okLn b c s" if "fol '')'' s" "suffix (prt c Ex @ s) b" for s
    using bk_ln [OF bk [OF fol_weaken(2) [OF that(1)] that(2)] that(1)] assms(2) [of Bk] assms(2) [of Ln] by simp
  with assms pi bk show ?thesis unfolding levels_def assms(2) [of Pi] assms(2) [of Bk] assms(2) [of Ln] by blast
qed

lemma suffix_mid: "suffix (xs @ ys @ zs) b \<Longrightarrow> suffix (ys @ zs) b"
  by (rule suffix_appendD)

lemma levels_pipe:
  assumes "levels b c" and "levels b d" and "valid (PIPE c d)"
  shows "levels b (PIPE c d)"
proof -
  let ?c = "PIPE c d"
  have e: "prt ?c Pi = prt c Ex @ CHR ''|'' # prt d Pi" "prt ?c Bk = prt ?c Pi" "prt ?c Ln = prt ?c Pi" "prt ?c Ex = ''('' @ prt ?c Ln @ '')''"
    by (simp_all add: paren_def)
  have pi: "okPi b ?c s" if s: "fol ''&;)'' s" "suffix (prt ?c Pi @ s) b" for s
  proof (rule pipe_pi)
    have x: "suffix (prt c Ex @ CHR ''|'' # prt d Pi @ s) b" using s(2) e(1) by simp
    have "fol ''<>|&;)'' (CHR ''|'' # prt d Pi @ s)" by (simp add: fol_def)
    then show "okEx b c (CHR ''|'' # prt d Pi @ s)" using assms(1) x unfolding levels_def by blast
    have "suffix (CHR ''|'' # prt d Pi @ s) b" using x by (rule suffix_appendD)
    then have "suffix (prt d Pi @ s) b" by (rule suffix_ConsD)
    then show "okPi b d s" using assms(2) s(1) unfolding levels_def by blast
  qed (use assms(3) s(1) in simp_all)
  have bk: "okBk b ?c s" if "fol ''&;)'' s" "suffix (prt ?c Pi @ s) b" for s
    by (rule pi_bk [OF pi [OF that] e(2)])
  have ln: "okLn b ?c s" if "fol '')'' s" "suffix (prt ?c Pi @ s) b" for s
    by (rule bk_ln [OF bk [OF fol_weaken(2) [OF that(1)] that(2)] that(1)]) (simp only: e)
  have "okEx b ?c s" if s: "fol ''<>|&;)'' s" "suffix (prt ?c Ex @ s) b" for s
  proof (rule ln_ex [OF ln assms(3) s(1) e(4)])
    have "suffix (CHR ''('' # prt ?c Pi @ CHR '')'' # s) b" using s(2) unfolding e(4,3) by simp
    then show "suffix (prt ?c Pi @ CHR '')'' # s) b" by (rule suffix_ConsD)
  qed (simp_all add: fol_def)
  with pi bk ln show ?thesis unfolding levels_def e(2,3) by blast
qed

lemma levels_list:
  assumes "levels b c" and "levels b d" and "valid (LIST c d)"
  shows "levels b (LIST c d)"
proof -
  let ?c = "LIST c d"
  have e: "prt ?c Ln = prt c Bk @ CHR '';'' # prt d Ln" "prt ?c Pi = prt ?c Ex" "prt ?c Bk = prt ?c Pi" "prt ?c Ex = ''('' @ prt ?c Ln @ '')''"
    by (simp_all add: paren_def)
  have ln: "okLn b ?c s" if s: "fol '')'' s" "suffix (prt ?c Ln @ s) b" for s
  proof (rule list_ln)
    have x: "suffix (prt c Bk @ CHR '';'' # prt d Ln @ s) b" using s(2) e(1) by simp
    have "fol ''&;)'' (CHR '';'' # prt d Ln @ s)" by (simp add: fol_def)
    then show "okBk b c (CHR '';'' # prt d Ln @ s)" using assms(1) x unfolding levels_def by blast
    have "suffix (CHR '';'' # prt d Ln @ s) b" using x by (rule suffix_appendD)
    then have "suffix (prt d Ln @ s) b" by (rule suffix_ConsD)
    then show "okLn b d s" using assms(2) s(1) unfolding levels_def by blast
  qed (use assms(3) s(1) in simp_all)
  have ex: "okEx b ?c s" if s: "fol ''<>|&;)'' s" "suffix (prt ?c Ex @ s) b" for s
  proof (rule ln_ex [OF ln assms(3) s(1) e(4)])
    have "suffix (CHR ''('' # prt ?c Ln @ CHR '')'' # s) b" using s(2) unfolding e(4) by simp
    then show "suffix (prt ?c Ln @ CHR '')'' # s) b" by (rule suffix_ConsD)
  qed (simp_all add: fol_def)
  have pi: "okPi b ?c s" if "fol ''&;)'' s" "suffix (prt ?c Ex @ s) b" for s
    by (rule ex_pi [OF ex [OF fol_weaken(1) [OF that(1)] that(2)] that(1) e(2)])
  have "okBk b ?c s" if "fol ''&;)'' s" "suffix (prt ?c Ex @ s) b" for s
    by (rule pi_bk [OF pi [OF that] e(3)])
  with ln ex pi show ?thesis unfolding levels_def e(3,2) by blast
qed

lemma levels_back:
  assumes "levels b c" and "valid (BACK c)"
  shows "levels b (BACK c)"
proof -
  let ?c = "BACK c"
  have e: "prt ?c Bk = prt c Bk @ ''&''" "prt ?c Ln = prt ?c Bk" "prt ?c Pi = prt ?c Ex" "prt ?c Ex = ''('' @ prt ?c Ln @ '')''"
    by (simp_all add: paren_def)
  have bk: "okBk b ?c s" if s: "fol ''&;)'' s" "suffix (prt ?c Bk @ s) b" for s
  proof (rule back_bk [OF _ s(1)])
    have "suffix (prt c Bk @ CHR ''&'' # s) b" using s(2) e(1) by simp
    moreover have "fol ''&;)'' (CHR ''&'' # s)" by (simp add: fol_def)
    ultimately show "okBk b c (CHR ''&'' # s)" using assms(1) unfolding levels_def by blast
  qed
  have ln: "okLn b ?c s" if "fol '')'' s" "suffix (prt ?c Bk @ s) b" for s
    by (rule bk_ln [OF bk [OF fol_weaken(2) [OF that(1)] that(2)] that(1) e(2)])
  have ex: "okEx b ?c s" if s: "fol ''<>|&;)'' s" "suffix (prt ?c Ex @ s) b" for s
  proof (rule ln_ex [OF ln assms(2) s(1) e(4)])
    have "suffix (CHR ''('' # prt ?c Bk @ CHR '')'' # s) b" using s(2) unfolding e(4,2) by simp
    then show "suffix (prt ?c Bk @ CHR '')'' # s) b" by (rule suffix_ConsD)
  qed (simp_all add: fol_def)
  have "okPi b ?c s" if "fol ''&;)'' s" "suffix (prt ?c Ex @ s) b" for s
    by (rule ex_pi [OF ex [OF fol_weaken(1) [OF that(1)] that(2)] that(1) e(3)])
  with bk ln ex show ?thesis unfolding levels_def e(2,3) by blast
qed

lemma valid_levels: "valid c \<Longrightarrow> levels b c"
proof (induction c)
  case (EXEC ts)
  show ?case by (rule levels_simple [OF exec_ex [OF EXEC]]) simp_all
next
  case (REDIR c f m d)
  then have c: "levels b c" by simp
  show ?case
  proof (rule levels_simple)
    fix s
    let ?r = "(if d = 0 then CHR ''<'' else CHR ''>'') # f @ '' '' @ s"
    assume s: "fol ''<>|&;)'' s" "suffix (prt (REDIR c f m d) Ex @ s) b"
    have "fol ''<>|&;)'' ?r" by (simp add: fol_def)
    moreover have "suffix (prt c Ex @ ?r) b" using s(2) by simp
    ultimately have "okEx b c ?r" using c unfolding levels_def by blast
    from redir_ex [OF this REDIR.prems s] show "okEx b (REDIR c f m d) s" .
  qed simp
qed (simp_all add: levels_pipe levels_list levels_back)

text \<open>
  C27: The parser reads back every printed command: for a command of programs, redirections, pipes, lists and background
  commands, nested in any way, whose words hold no white space and symbols and whose programs have fewer than
  \<^verbatim>\<open>MAXARGS\<close> words, parsing its text gives the command, each word in place.
\<close>

theorem parsecmd_roundtrip:
  assumes "valid c"
  shows "\<exists>c' m. parsecmd (prt c Ln) = Parsed (c', m) [] \<and> map_cmd (\<lambda>(q, eq). take (eq - q) (drop q (prt c Ln))) c' = c"
proof -
  let ?b = "prt c Ln"
  have t: "tx ?b = (\<lambda>(q, eq). take (eq - q) (drop q ?b))" by (auto simp: tx_def)
  have "okLn ?b c []" using valid_levels [OF assms, of ?b] by (simp add: levels_def fol_def)
  then obtain c' where c': "map_cmd (tx ?b) c' = c" "parseline (depth ?b) (length ?b) ?b = Parsed c' []"
    unfolding okLn_def by (auto simp: depth_def)
  moreover have "peek [] [] = (False, [])" by (simp add: peek_def)
  ultimately show ?thesis by (simp add: parsecmd_def t)
qed

theorem parsecmd_roundtrip_witness:
  "\<exists>c' m. parsecmd ''(ls -l |wc )>out ;sleep 9 &'' = Parsed (c', m) [] \<and>
     map_cmd (\<lambda>(q, eq). take (eq - q) (drop q ''(ls -l |wc )>out ;sleep 9 &'')) c' =
       LIST (REDIR (PIPE (EXEC [''ls'', ''-l'']) (EXEC [''wc''])) ''out'' (O_WRONLY OR O_CREATE) 1) (BACK (EXEC [''sleep'', ''9'']))"
proof -
  let ?c = "LIST (REDIR (PIPE (EXEC [''ls'', ''-l'']) (EXEC [''wc''])) ''out'' (O_WRONLY OR O_CREATE) 1) (BACK (EXEC [''sleep'', ''9'']))"
  have "prt ?c Ln = ''(ls -l |wc )>out ;sleep 9 &''" by (simp add: paren_def)
  moreover have "valid ?c" by code_simp
  ultimately show ?thesis using parsecmd_roundtrip [of ?c] by simp
qed

end
