(* ===== verification/Devices.thy ===== *)
theory Devices
  imports Trap
begin

text \<open>
  The devices of the PC as the kernel sees them: the input and output instructions of \<^verbatim>\<open>x86.h\<close> with the ports
  behind them (disk controller, keyboard controller, serial port, display), the local APIC (\<^verbatim>\<open>lapic.c\<close>), the
  I/O APIC (\<^verbatim>\<open>ioapic.c\<close>), the old interrupt controllers (\<^verbatim>\<open>picirq.c\<close>) and the clock.
\<close>

section \<open>Ports\<close>

text \<open>
  What the machine does with a byte written to a port. A command at port \<open>0x1F7\<close> makes the disk controller busy;
  the two halves of the cursor position are behind port \<open>0x3D5\<close>, selected by the byte in \<open>0x3D4\<close>; a byte at port
  \<open>0x3F8\<close> goes over the serial line unless bit 7 of port \<open>0x3FB\<close> selects the baud rate. \<open>hw_regs\<close> keeps the last byte
  written to a port.
\<close>

definition ide_upd :: "(ide \<Rightarrow> ide) \<Rightarrow> kernel \<Rightarrow> kernel" where
  "ide_upd f s = s\<lparr>k_ide := f (k_ide s)\<rparr>"

definition cons_upd :: "(console \<Rightarrow> console) \<Rightarrow> kernel \<Rightarrow> kernel" where
  "cons_upd f s = s\<lparr>k_cons := f (k_cons s)\<rparr>"

definition apic_upd :: "(apic \<Rightarrow> apic) \<Rightarrow> kernel \<Rightarrow> kernel" where
  "apic_upd f s = s\<lparr>k_apic := f (k_apic s)\<rparr>"

lemma upd_fields [simp]:
  "k_sync (ide_upd f s) = k_sync s" "k_ptab (ide_upd f s) = k_ptab s" "k_mem (ide_upd f s) = k_mem s" "k_disk (ide_upd f s) = k_disk s"
  "k_bcache (ide_upd f s) = k_bcache s" "k_cons (ide_upd f s) = k_cons s" "k_ide (ide_upd f s) = f (k_ide s)" "k_apic (ide_upd f s) = k_apic s"
  "k_sync (cons_upd g s) = k_sync s" "k_ptab (cons_upd g s) = k_ptab s" "k_mem (cons_upd g s) = k_mem s" "k_disk (cons_upd g s) = k_disk s"
  "k_bcache (cons_upd g s) = k_bcache s" "k_cons (cons_upd g s) = g (k_cons s)" "k_ide (cons_upd g s) = k_ide s" "k_apic (cons_upd g s) = k_apic s"
  "k_sync (apic_upd h s) = k_sync s" "k_ptab (apic_upd h s) = k_ptab s" "k_mem (apic_upd h s) = k_mem s" "k_disk (apic_upd h s) = k_disk s"
  "k_bcache (apic_upd h s) = k_bcache s" "k_cons (apic_upd h s) = k_cons s" "k_ide (apic_upd h s) = k_ide s" "k_apic (apic_upd h s) = h (k_apic s)"
  by (simp_all add: ide_upd_def cons_upd_def apic_upd_def)

lemma upd_sync:
  "ide_upd f (s\<lparr>k_sync := y\<rparr>) = (ide_upd f s)\<lparr>k_sync := y\<rparr>" "cons_upd g (s\<lparr>k_sync := y\<rparr>) = (cons_upd g s)\<lparr>k_sync := y\<rparr>"
  "apic_upd h (s\<lparr>k_sync := y\<rparr>) = (apic_upd h s)\<lparr>k_sync := y\<rparr>"
  by (simp_all add: ide_upd_def cons_upd_def apic_upd_def)

definition IDE_BSY :: u8 where "IDE_BSY = 0x80"

definition IDE_DRDY :: u8 where "IDE_DRDY = 0x40"

definition set_reg :: "u16 \<Rightarrow> u8 \<Rightarrow> ide \<Rightarrow> ide" where
  "set_reg p v d = d\<lparr>hw_regs := (hw_regs d)(p := v)\<rparr>"

definition port_write :: "u16 \<Rightarrow> u8 \<Rightarrow> kernel \<Rightarrow> kernel" where
  "port_write p v s =
     (let s = ide_upd (set_reg p v) s; regs = hw_regs (k_ide s) in
      if p = 0x1F7 then ide_upd (\<lambda>d. d\<lparr>hw_cmd := Some v, hw_status := IDE_BSY, hw_data := []\<rparr>) s
      else if p = 0x3D5 then
        if regs 0x3D4 = 14 then cons_upd (\<lambda>c. c\<lparr>hw_cursor := u16_le (byte_at 0 (hw_cursor c)) v\<rparr>) s
        else if regs 0x3D4 = 15 then cons_upd (\<lambda>c. c\<lparr>hw_cursor := u16_le v (byte_at 1 (hw_cursor c))\<rparr>) s
        else s
      else if p = 0x3F8 \<and> \<not> bit (regs 0x3FB) 7 then cons_upd (\<lambda>c. c\<lparr>hw_tx := hw_tx c @ [v]\<rparr>) s
      else apic_upd (\<lambda>a. a\<lparr>hw_ports := hw_ports a @ [(p, v)]\<rparr>) s)"

definition outb :: "u16 \<Rightarrow> u8 \<Rightarrow> unit kop" where
  "outb p v = modM (port_write p v)"

text \<open>
  A byte read from a port: the status of the disk controller, the keyboard (port \<open>0x64\<close> tells whether a
  scan code waits in port \<open>0x60\<close>), the serial port (its line status at \<open>0x3FD\<close>, the byte received at
  \<open>0x3F8\<close>) and the cursor position. Other ports give what was written to them last.
\<close>

definition port_read :: "u16 \<Rightarrow> kernel \<Rightarrow> u8" where
  "port_read p s =
     (let c = k_cons s; regs = hw_regs (k_ide s) in
      if p = 0x1F7 then hw_status (k_ide s)
      else if p = 0x64 then (if hw_kbd c = [] then 0 else 1)
      else if p = 0x60 then (if hw_kbd c = [] then 0 else hd (hw_kbd c))
      else if p = 0x3FD then (if \<not> hw_com1 c then 0xFF else if hw_rx c = [] then 0x60 else 0x61)
      else if p = 0x3F8 then (if hw_rx c = [] then 0 else hd (hw_rx c))
      else if p = 0x3D5 then (if regs 0x3D4 = 14 then byte_at 1 (hw_cursor c) else byte_at 0 (hw_cursor c))
      else regs p)"

definition port_taken :: "u16 \<Rightarrow> kernel \<Rightarrow> kernel" where
  "port_taken p s =
     (if p = 0x60 then cons_upd (\<lambda>c. c\<lparr>hw_kbd := tl (hw_kbd c)\<rparr>) s
      else if p = 0x3F8 then cons_upd (\<lambda>c. c\<lparr>hw_rx := tl (hw_rx c)\<rparr>) s
      else s)"

definition inb :: "u16 \<Rightarrow> u8 kop" where
  "inb p s = Inr (port_read p s, port_taken p s)"

text \<open>
  \<^verbatim>\<open>insl\<close> and \<^verbatim>\<open>outsl\<close> at the data port of the disk controller; the bytes that \<^verbatim>\<open>insl\<close> stores at its
  pointer are its result, and those that \<^verbatim>\<open>outsl\<close> reads there are its argument.
\<close>

definition insl :: "nat \<Rightarrow> u8 list kop" where
  "insl cnt =
     bindM (getM (\<lambda>s. take (4 * cnt) (hw_data (k_ide s)))) (\<lambda>bs.
     bindM (modM (ide_upd (\<lambda>d. d\<lparr>hw_data := drop (4 * cnt) (hw_data d)\<rparr>))) (\<lambda>_. retM bs))"

definition outsl :: "u8 list \<Rightarrow> nat \<Rightarrow> unit kop" where
  "outsl bs cnt = modM (ide_upd (\<lambda>d. d\<lparr>hw_data := hw_data d @ take (4 * cnt) bs\<rparr>))"

lemma sync_indep_ports [sync_indep_intros]:
  "sync_indep (inb p)" "sync_indep (outb p v)" "sync_indep (insl n)" "sync_indep (outsl bs n)"
  "sync_indep (modM (ide_upd f))" "sync_indep (modM (cons_upd g))" "sync_indep (modM (apic_upd h))"
proof -
  have "port_read p (s\<lparr>k_sync := y\<rparr>) = port_read p s" "port_taken p (s\<lparr>k_sync := y\<rparr>) = (port_taken p s)\<lparr>k_sync := y\<rparr>"
    "port_write p v (s\<lparr>k_sync := y\<rparr>) = (port_write p v s)\<lparr>k_sync := y\<rparr>" for s y
    by (simp_all add: port_read_def port_taken_def port_write_def Let_def upd_sync) auto
  then show "sync_indep (inb p)" "sync_indep (outb p v)" "sync_indep (insl n)" "sync_indep (outsl bs n)"
    "sync_indep (modM (ide_upd f))" "sync_indep (modM (cons_upd g))" "sync_indep (modM (apic_upd h))"
    unfolding insl_def outsl_def outb_def
    by (auto simp: sync_indep_def inb_def op_defs upd_sync)
qed

section \<open>The local APIC\<close>

text \<open>The registers, by their index in the array \<^verbatim>\<open>lapic\<close>.\<close>

abbreviation LAPIC_ID :: nat where "LAPIC_ID \<equiv> 0x20 div 4"
abbreviation LAPIC_VER :: nat where "LAPIC_VER \<equiv> 0x30 div 4"
abbreviation LAPIC_TPR :: nat where "LAPIC_TPR \<equiv> 0x80 div 4"
abbreviation LAPIC_EOI :: nat where "LAPIC_EOI \<equiv> 0xB0 div 4"
abbreviation LAPIC_SVR :: nat where "LAPIC_SVR \<equiv> 0xF0 div 4"
abbreviation LAPIC_ESR :: nat where "LAPIC_ESR \<equiv> 0x280 div 4"
abbreviation LAPIC_ICRLO :: nat where "LAPIC_ICRLO \<equiv> 0x300 div 4"
abbreviation LAPIC_ICRHI :: nat where "LAPIC_ICRHI \<equiv> 0x310 div 4"
abbreviation LAPIC_TIMER :: nat where "LAPIC_TIMER \<equiv> 0x320 div 4"
abbreviation LAPIC_PCINT :: nat where "LAPIC_PCINT \<equiv> 0x340 div 4"
abbreviation LAPIC_LINT0 :: nat where "LAPIC_LINT0 \<equiv> 0x350 div 4"
abbreviation LAPIC_LINT1 :: nat where "LAPIC_LINT1 \<equiv> 0x360 div 4"
abbreviation LAPIC_ERROR :: nat where "LAPIC_ERROR \<equiv> 0x370 div 4"
abbreviation LAPIC_TICR :: nat where "LAPIC_TICR \<equiv> 0x380 div 4"
abbreviation LAPIC_TDCR :: nat where "LAPIC_TDCR \<equiv> 0x3E0 div 4"

abbreviation MASKED :: u32 where "MASKED \<equiv> 0x10000"
abbreviation APIC_INIT :: u32 where "APIC_INIT \<equiv> 0x500"
abbreviation APIC_LEVEL :: u32 where "APIC_LEVEL \<equiv> 0x8000"
abbreviation DELIVS :: u32 where "DELIVS \<equiv> 0x1000"

definition IRQ_ERROR :: u32 where "IRQ_ERROR = 19"

text \<open>The read after each write only waits for the write to finish.\<close>

definition lapicw :: "nat \<Rightarrow> u32 \<Rightarrow> unit kop" where
  "lapicw i v = modM (apic_upd (\<lambda>a. a\<lparr>hw_lapic := (hw_lapic a)(i := v)\<rparr>))"

fun lapicws :: "(nat \<times> u32) list \<Rightarrow> unit kop" where
  "lapicws [] = retM ()"
| "lapicws ((i, v) # ws) = bindM (lapicw i v) (\<lambda>_. lapicws ws)"

definition lapicinit :: "unit kop" where
  "lapicinit =
     bindM (getM (\<lambda>s. ap_lapic (k_apic s))) (\<lambda>lapic.
     if lapic = 0 then retM ()
     else
       bindM (lapicws
         [(LAPIC_SVR, 0x100 OR (T_IRQ0 + IRQ_SPURIOUS)), (LAPIC_TDCR, 0xB),
          (LAPIC_TIMER, 0x20000 OR (T_IRQ0 + IRQ_TIMER)), (LAPIC_TICR, 10000000),
          (LAPIC_LINT0, MASKED), (LAPIC_LINT1, MASKED)]) (\<lambda>_.
       bindM (getM (\<lambda>s. hw_lapic (k_apic s) LAPIC_VER)) (\<lambda>ver.
       bindM (if drop_bit 16 ver AND 0xFF \<ge> 4 then lapicw LAPIC_PCINT MASKED else retM ()) (\<lambda>_.
       bindM (lapicws
         [(LAPIC_ERROR, T_IRQ0 + IRQ_ERROR), (LAPIC_ESR, 0), (LAPIC_ESR, 0), (LAPIC_EOI, 0),
          (LAPIC_ICRHI, 0), (LAPIC_ICRLO, 0x80000 OR APIC_INIT OR APIC_LEVEL)]) (\<lambda>_.
       bindM (getM (\<lambda>s. hw_lapic (k_apic s) LAPIC_ICRLO)) (\<lambda>icr.
       bindM (assertM (icr AND DELIVS = 0) Loops) (\<lambda>_.
       lapicw LAPIC_TPR 0)))))))"

definition lapiceoi :: "unit kop" where
  "lapiceoi = bindM (getM (\<lambda>s. ap_lapic (k_apic s))) (\<lambda>lapic. if lapic \<noteq> 0 then lapicw LAPIC_EOI 0 else retM ())"

definition lapicstartap :: "u8 \<Rightarrow> u32 \<Rightarrow> unit kop" where
  "lapicstartap apicid addr =
     bindM (outb 0x70 0xF) (\<lambda>_.
     bindM (outb 0x71 0xA) (\<lambda>_.
     bindM (modM (mem_upd (\<lambda>m. let wrv = P2V 0x467; v = ucast (drop_bit 4 addr) :: u16 in
       m(wrv := 0, wrv + 1 := 0, wrv + 2 := byte_at 0 v, wrv + 3 := byte_at 1 v)))) (\<lambda>_.
     lapicws
       [(LAPIC_ICRHI, push_bit 24 (ucast apicid)), (LAPIC_ICRLO, APIC_INIT OR APIC_LEVEL OR 0x4000),
        (LAPIC_ICRLO, APIC_INIT OR APIC_LEVEL),
        (LAPIC_ICRHI, push_bit 24 (ucast apicid)), (LAPIC_ICRLO, 0x600 OR drop_bit 12 addr),
        (LAPIC_ICRHI, push_bit 24 (ucast apicid)), (LAPIC_ICRLO, 0x600 OR drop_bit 12 addr)])))"

section \<open>The I/O APIC and the old controllers\<close>

text \<open>The register index is written before each access; the two accesses together select one register.\<close>

definition ioapicread :: "nat \<Rightarrow> u32 kop" where
  "ioapicread r = getM (\<lambda>s. hw_ioapic (k_apic s) r)"

definition ioapicwrite :: "nat \<Rightarrow> u32 \<Rightarrow> unit kop" where
  "ioapicwrite r v = modM (apic_upd (\<lambda>a. a\<lparr>hw_ioapic := (hw_ioapic a)(r := v)\<rparr>))"

abbreviation REG_TABLE :: nat where "REG_TABLE \<equiv> 0x10"

fun ioapic_clear :: "nat list \<Rightarrow> unit kop" where
  "ioapic_clear [] = retM ()"
| "ioapic_clear (i # is) =
     bindM (ioapicwrite (REG_TABLE + 2 * i) (0x10000 OR (T_IRQ0 + of_nat i))) (\<lambda>_.
     bindM (ioapicwrite (REG_TABLE + 2 * i + 1) 0) (\<lambda>_.
     ioapic_clear is))"

text \<open>The message about a different identifier is left out.\<close>

definition ioapicinit :: "unit kop" where
  "ioapicinit =
     bindM (ioapicread 1) (\<lambda>ver.
     bindM (ioapicread 0) (\<lambda>_.
     ioapic_clear [0..<Suc (unat (drop_bit 16 ver AND 0xFF))]))"

definition ioapicenable :: "u32 \<Rightarrow> u32 \<Rightarrow> unit kop" where
  "ioapicenable irq cpunum =
     bindM (ioapicwrite (REG_TABLE + 2 * unat irq) (T_IRQ0 + irq)) (\<lambda>_.
     ioapicwrite (REG_TABLE + 2 * unat irq + 1) (push_bit 24 cpunum))"

definition picinit :: "unit kop" where
  "picinit = bindM (outb 0x21 0xFF) (\<lambda>_. outb 0xA1 0xFF)"

section \<open>The clock\<close>

text \<open>
  The clock chip is a parameter: \<open>rtc t r\<close> is what register \<open>r\<close> holds at the \<open>t\<close>-th access. The loop of
  \<^verbatim>\<open>cmostime\<close> reads the time twice until both readings agree.
\<close>

record rtcdate =
  rt_second :: u32
  rt_minute :: u32
  rt_hour :: u32
  rt_day :: u32
  rt_month :: u32
  rt_year :: u32

type_synonym clock = "nat \<Rightarrow> u8 \<Rightarrow> u8"

definition cmos_read :: "clock \<Rightarrow> nat \<Rightarrow> u8 \<Rightarrow> u32" where
  "cmos_read rtc t reg = ucast (rtc t reg)"

definition fill_rtcdate :: "clock \<Rightarrow> nat \<Rightarrow> rtcdate" where
  "fill_rtcdate rtc t =
     \<lparr>rt_second = cmos_read rtc t 0, rt_minute = cmos_read rtc (t + 1) 2, rt_hour = cmos_read rtc (t + 2) 4,
      rt_day = cmos_read rtc (t + 3) 7, rt_month = cmos_read rtc (t + 4) 8, rt_year = cmos_read rtc (t + 5) 9\<rparr>"

partial_function (option) cmos_loop :: "clock \<Rightarrow> nat \<Rightarrow> rtcdate option" where
  "cmos_loop rtc t =
     (let t1 = fill_rtcdate rtc t in
      if cmos_read rtc (t + 6) 0xA AND 0x80 \<noteq> 0 then cmos_loop rtc (t + 7)
      else if t1 = fill_rtcdate rtc (t + 7) then Some t1
      else cmos_loop rtc (t + 13))"

definition conv :: "u32 \<Rightarrow> u32" where
  "conv x = drop_bit 4 x * 10 + (x AND 0xF)"

definition cmostime :: "clock \<Rightarrow> nat \<Rightarrow> rtcdate option" where
  "cmostime rtc t =
     (let bcd = cmos_read rtc t 0xB AND 4 = 0 in
      case cmos_loop rtc (t + 1) of
        None \<Rightarrow> None
      | Some d \<Rightarrow>
          let d = (if bcd
                   then \<lparr>rt_second = conv (rt_second d), rt_minute = conv (rt_minute d), rt_hour = conv (rt_hour d),
                         rt_day = conv (rt_day d), rt_month = conv (rt_month d), rt_year = conv (rt_year d)\<rparr>
                   else d)
          in Some (d\<lparr>rt_year := rt_year d + 2000\<rparr>))"

definition bcd :: "nat \<Rightarrow> u8" where
  "bcd n = of_nat (16 * (n div 10) + n mod 10)"

lemma conv_bcd: "n < 100 \<Longrightarrow> conv (ucast (bcd n)) = of_nat n"
proof -
  have "\<forall>n \<in> set [0..<100]. conv (ucast (bcd n)) = of_nat n" by code_simp
  then show "n < 100 \<Longrightarrow> conv (ucast (bcd n)) = of_nat n" by simp
qed

end
