(* ===== verification/Ide.thy ===== *)
theory Ide
  imports Devices Cache
begin

text \<open>
  The disk driver \<^verbatim>\<open>ide.c\<close>: a queue of buffers linked through \<^verbatim>\<open>qnext\<close>, whose first buffer the controller
  works on. The driver is shown to serve the requests in the order of their arrival, each like the driver of the
  memory disk, on which the results about the buffer cache and the log rest.
\<close>

section \<open>The driver\<close>

definition SECTOR_SIZE :: nat where "SECTOR_SIZE = 512"

definition IDE_CMD_READ :: u8 where "IDE_CMD_READ = 0x20"

definition IDE_CMD_WRITE :: u8 where "IDE_CMD_WRITE = 0x30"

definition IDE_CMD_RDMUL :: u8 where "IDE_CMD_RDMUL = 0xC4"

definition IDE_CMD_WRMUL :: u8 where "IDE_CMD_WRMUL = 0xC5"

text \<open>Waiting for a controller that stays busy does not end.\<close>

definition idewait :: "bool \<Rightarrow> int kop" where
  "idewait checkerr =
     bindM (inb 0x1F7) (\<lambda>r.
     bindM (assertM (r AND (IDE_BSY OR IDE_DRDY) = IDE_DRDY) Loops) (\<lambda>_.
     retM (if checkerr \<and> r AND (0x20 OR 0x01) \<noteq> 0 then - 1 else 0)))"

fun ide_probe :: "nat \<Rightarrow> unit kop" where
  "ide_probe 0 = retM ()"
| "ide_probe (Suc n) =
     bindM (inb 0x1F7) (\<lambda>r.
     if r \<noteq> 0 then modM (ide_upd (\<lambda>d. d\<lparr>ide_havedisk1 := True\<rparr>)) else ide_probe n)"

definition ideinit :: "unit kop" where
  "ideinit =
     bindM (liftS (initlock LkIde ''ide'')) (\<lambda>_.
     bindM (getM (\<lambda>s. ncpu (k_sync s))) (\<lambda>n.
     bindM (ioapicenable IRQ_IDE (of_nat n - 1)) (\<lambda>_.
     bindM (idewait False) (\<lambda>_.
     bindM (outb 0x1F6 (0xE0 OR 0x10)) (\<lambda>_.
     bindM (ide_probe 1000) (\<lambda>_.
     outb 0x1F6 0xE0))))))"

definition sector_per_block :: nat where
  "sector_per_block = BSIZE div SECTOR_SIZE"

definition idestart :: "nat option \<Rightarrow> unit kop" where
  "idestart bb =
     bindM (theM (Panic ''idestart'') bb) (\<lambda>i.
     bindM (getM (\<lambda>s. bufs s ! i)) (\<lambda>b.
     bindM (assertM (unat (b_blockno b) < FSSIZE) (Panic ''incorrect blockno'')) (\<lambda>_.
     let sector = b_blockno b * of_nat sector_per_block;
         read_cmd = (if sector_per_block = 1 then IDE_CMD_READ else IDE_CMD_RDMUL);
         write_cmd = (if sector_per_block = 1 then IDE_CMD_WRITE else IDE_CMD_WRMUL)
     in
     bindM (assertM (sector_per_block \<le> 7) (Panic ''idestart'')) (\<lambda>_.
     bindM (idewait False) (\<lambda>_.
     bindM (outb 0x3F6 0) (\<lambda>_.
     bindM (outb 0x1F2 (of_nat sector_per_block)) (\<lambda>_.
     bindM (outb 0x1F3 (ucast (sector AND 0xFF))) (\<lambda>_.
     bindM (outb 0x1F4 (ucast (drop_bit 8 sector AND 0xFF))) (\<lambda>_.
     bindM (outb 0x1F5 (ucast (drop_bit 16 sector AND 0xFF))) (\<lambda>_.
     bindM (outb 0x1F6 (ucast (0xE0 OR push_bit 4 (b_dev b AND 1) OR (drop_bit 24 sector AND 0xF)))) (\<lambda>_.
     if b_flags b AND B_DIRTY \<noteq> 0
     then bindM (outb 0x1F7 write_cmd) (\<lambda>_. outsl (b_data b) (BSIZE div 4))
     else outb 0x1F7 read_cmd)))))))))))"

text \<open>Reads the data of a buffer that was not written.\<close>

definition ide_fetch :: "nat \<Rightarrow> buf \<Rightarrow> unit kop" where
  "ide_fetch i b =
     (if b_flags b AND B_DIRTY = 0
      then bindM (idewait True) (\<lambda>r.
           if 0 \<le> r then bindM (insl (BSIZE div 4)) (\<lambda>bs. modM (buf_upd i (\<lambda>b. b\<lparr>b_data := bs\<rparr>)))
           else retM ())
      else retM ())"

text \<open>The part of the interrupt handler between taking and giving back the lock.\<close>

definition ide_finish :: "unit kop" where
  "ide_finish =
     bindM (getM (\<lambda>s. ide_queue (k_ide s))) (\<lambda>q.
     case q of
       None \<Rightarrow> retM ()
     | Some i \<Rightarrow>
         bindM (getM (\<lambda>s. bufs s ! i)) (\<lambda>b.
         bindM (modM (ide_upd (\<lambda>d. d\<lparr>ide_queue := b_qnext b\<rparr>))) (\<lambda>_.
         bindM (ide_fetch i b) (\<lambda>_.
         bindM (modM (buf_upd i (\<lambda>b. b\<lparr>b_flags := (b_flags b OR B_VALID) AND NOT B_DIRTY\<rparr>))) (\<lambda>_.
         bindM (wakeup (ChBuf i)) (\<lambda>_.
         bindM (getM (\<lambda>s. ide_queue (k_ide s))) (\<lambda>q.
         if q \<noteq> None then idestart q else retM ())))))))"

definition ideintr :: "unit kop" where
  "ideintr = with_lock LkIde ide_finish"

text \<open>The end of the queue that starts at buffer \<open>j\<close>.\<close>

partial_function (option) qlast :: "buf list \<Rightarrow> nat \<Rightarrow> nat option" where
  "qlast bs j = (case b_qnext (bs ! j) of None \<Rightarrow> Some j | Some k \<Rightarrow> qlast bs k)"

declare qlast.simps [code]

definition ide_append :: "nat \<Rightarrow> unit kop" where
  "ide_append i =
     bindM (modM (buf_upd i (\<lambda>b. b\<lparr>b_qnext := None\<rparr>))) (\<lambda>_.
     bindM (getM (\<lambda>s. (ide_queue (k_ide s), bufs s))) (\<lambda>(q, bs).
     case q of
       None \<Rightarrow> modM (ide_upd (\<lambda>d. d\<lparr>ide_queue := Some i\<rparr>))
     | Some j \<Rightarrow> bindM (theM Loops (qlast bs j)) (\<lambda>k. modM (buf_upd k (\<lambda>b. b\<lparr>b_qnext := Some i\<rparr>)))))"

definition ide_enqueue :: "nat \<Rightarrow> unit kop" where
  "ide_enqueue i =
     bindM (ide_append i) (\<lambda>_.
     bindM (getM (\<lambda>s. ide_queue (k_ide s))) (\<lambda>q.
     if q = Some i then idestart (Some i) else retM ()))"

definition ide_check :: "nat \<Rightarrow> unit kop" where
  "ide_check i =
     bindM (holdingsleep (SlBuf i)) (\<lambda>h.
     bindM (assertM h (Panic ''iderw: buf not locked'')) (\<lambda>_.
     bindM (getM (\<lambda>s. bufs s ! i)) (\<lambda>b.
     bindM (assertM (b_flags b AND (B_VALID OR B_DIRTY) \<noteq> B_VALID) (Panic ''iderw: nothing to do'')) (\<lambda>_.
     bindM (getM (\<lambda>s. ide_havedisk1 (k_ide s))) (\<lambda>d1.
     assertM (b_dev b = 0 \<or> d1) (Panic ''iderw: ide disk 1 not present''))))))"

text \<open>The waiting loop, run with the lock held: it ends when the interrupt handler has finished the buffer.\<close>

definition ide_wait :: "nat \<Rightarrow> unit kop" where
  "ide_wait i =
     bindM (getM (\<lambda>s. bufs s ! i)) (\<lambda>b.
     if b_flags b AND (B_VALID OR B_DIRTY) \<noteq> B_VALID then sleeps (ChBuf i) LkIde
     else liftS (release LkIde))"

definition ide_rw :: "nat \<Rightarrow> unit kop" where
  "ide_rw i =
     bindM (ide_check i) (\<lambda>_.
     bindM (liftS (acquire LkIde)) (\<lambda>_.
     bindM (ide_enqueue i) (\<lambda>_.
     ide_wait i)))"

section \<open>The controller\<close>

text \<open>
  What the controller does with a command: it reads the sector at the address in its registers, of the drive
  that bit 4 of port \<open>0x1F6\<close> selects, into its buffer, or writes its buffer there; then it is ready, with the
  error bit set if the command failed.
\<close>

definition ata_sector :: "(u16 \<Rightarrow> u8) \<Rightarrow> nat" where
  "ata_sector regs = unat (u32_le (regs 0x1F3) (regs 0x1F4) (regs 0x1F5) (regs 0x1F6 AND 0xF))"

definition ata_done :: "bool \<Rightarrow> kernel \<Rightarrow> kernel" where
  "ata_done ok s =
     (let d = k_ide s; n = ata_sector (hw_regs d); one = bit (hw_regs d 0x1F6) 4;
          ready = ide_upd (\<lambda>d. d\<lparr>hw_cmd := None, hw_status := IDE_DRDY\<rparr>) in
      case hw_cmd d of
        None \<Rightarrow> s
      | Some c \<Rightarrow>
          if \<not> ok then ide_upd (\<lambda>d. d\<lparr>hw_cmd := None, hw_status := IDE_DRDY OR 1\<rparr>) s
          else if c = IDE_CMD_READ then
            ide_upd (\<lambda>d. d\<lparr>hw_data := (if one then k_disk s ! n else hw_disk0 d ! n)\<rparr>) (ready s)
          else if c = IDE_CMD_WRITE then
            if one then (ready s)\<lparr>k_disk := (k_disk s)[n := hw_data d], k_writes := k_writes s @ [(n, hw_data d)]\<rparr>
            else ide_upd (\<lambda>d'. d'\<lparr>hw_disk0 := (hw_disk0 d)[n := hw_data d]\<rparr>) (ready s)
          else ready s)"

section \<open>One request after the other\<close>

text \<open>What a request does to the disk and the buffers, as \<^verbatim>\<open>memide.c\<close> does it at once.\<close>

definition dirty :: "buf \<Rightarrow> bool" where
  "dirty b \<longleftrightarrow> b_flags b AND B_DIRTY \<noteq> 0"

definition done_flags :: "buf \<Rightarrow> buf" where
  "done_flags b = b\<lparr>b_flags := (b_flags b OR B_VALID) AND NOT B_DIRTY\<rparr>"

definition perform :: "nat \<Rightarrow> u8 list list \<times> buf list \<Rightarrow> u8 list list \<times> buf list" where
  "perform i = (\<lambda>(disk, bs).
     let b = bs ! i; n = unat (b_blockno b) in
     if dirty b then (disk[n := b_data b], bs[i := done_flags b])
     else (disk, bs[i := done_flags (b\<lparr>b_data := disk ! n\<rparr>)]))"

lemma flags_commute: "(f AND NOT B_DIRTY) OR B_VALID = ((f :: u32) OR B_VALID) AND NOT B_DIRTY"
  by (rule bit_word_eqI) (auto simp: bit_simps B_VALID_def B_DIRTY_def)

lemma flags_clean: "f AND B_DIRTY = 0 \<Longrightarrow> f OR B_VALID = ((f :: u32) OR B_VALID) AND NOT B_DIRTY"
proof -
  assume "f AND B_DIRTY = 0"
  moreover have "f = (f AND B_DIRTY) OR (f AND NOT B_DIRTY)" by (rule bit_word_eqI) (auto simp: bit_simps)
  ultimately have "f AND NOT B_DIRTY = f" by simp
  with flags_commute [of f] show ?thesis by simp
qed

text \<open>The memory disk performs a request.\<close>

lemma iderw_performs:
  assumes "at_rest s c" and "iderw i s = Inr ((), t)" and i: "i < length (bufs s)"
  shows "(k_disk t, bufs t) = perform i (k_disk s, bufs s)"
proof (cases "dirty (bufs s ! i)")
  case True
  then show ?thesis using assms holdingsleep_run [OF assms(1), of "SlBuf i"]
    by (auto simp: iderw_def op_defs perform_def done_flags_def dirty_def flags_commute Let_def split: if_splits)
next
  case False
  then have "b_flags (bufs s ! i) OR B_VALID = (b_flags (bufs s ! i) OR B_VALID) AND NOT B_DIRTY"
    by (intro flags_clean) (simp add: dirty_def)
  with False show ?thesis using assms holdingsleep_run [OF assms(1), of "SlBuf i"]
    by (auto simp: iderw_def op_defs perform_def done_flags_def dirty_def Let_def split: if_splits)
qed

section \<open>The queue\<close>

fun qchain :: "buf list \<Rightarrow> nat option \<Rightarrow> nat list \<Rightarrow> bool" where
  "qchain bs q [] \<longleftrightarrow> q = None"
| "qchain bs q (i # L) \<longleftrightarrow> q = Some i \<and> i < length bs \<and> qchain bs (b_qnext (bs ! i)) L"

lemma qchain_other: "i \<notin> set L \<Longrightarrow> qchain (bs[i := b]) q L = qchain bs q L"
  by (induction L arbitrary: q) auto

lemma qchain_lt: "qchain bs q L \<Longrightarrow> i \<in> set L \<Longrightarrow> i < length bs"
  by (induction L arbitrary: q) auto

lemma qchain_unique: "qchain bs q L \<Longrightarrow> qchain bs q M \<Longrightarrow> L = M"
proof (induction L arbitrary: q M)
  case Nil
  then show ?case by (cases M) auto
next
  case (Cons i L)
  then show ?case by (cases M) auto
qed

lemma qlast_chain: "qchain bs (Some j) L \<Longrightarrow> qlast bs j = Some (last L)"
proof (induction L arbitrary: j)
  case (Cons i L)
  then have i: "i = j" "qchain bs (b_qnext (bs ! j)) L" by auto
  show ?case
  proof (cases L)
    case Nil
    then show ?thesis using i by (subst qlast.simps) simp
  next
    case (Cons k M)
    with i have k: "b_qnext (bs ! j) = Some k" by simp
    with Cons.IH [of k] i Cons show ?thesis by (subst qlast.simps) simp
  qed
qed simp

lemma qchain_append:
  "qchain bs q L \<Longrightarrow> distinct L \<Longrightarrow> L \<noteq> [] \<Longrightarrow> i \<notin> set L \<Longrightarrow> i < length bs \<Longrightarrow> b_qnext (bs ! i) = None \<Longrightarrow>
   qchain (bs[last L := (bs ! last L)\<lparr>b_qnext := Some i\<rparr>]) q (L @ [i])"
proof (induction L arbitrary: q)
  case (Cons j L)
  show ?case
  proof (cases L)
    case Nil
    with Cons.prems show ?thesis by auto
  next
    case (Cons k M)
    then have "last L \<in> set L" by (intro last_in_set) simp
    then have "last L \<noteq> j" using Cons.prems(2) by auto
    with Cons Cons.prems Cons.IH [of "b_qnext (bs ! j)"] show ?thesis by simp
  qed
qed simp

section \<open>Starting a request\<close>

lemma sector_bytes:
  assumes "unat (x :: u32) < FSSIZE"
  shows "u32_le (ucast (x AND 0xFF)) (ucast (drop_bit 8 x AND 0xFF)) (ucast (drop_bit 16 x AND 0xFF))
    (ucast (0xE0 OR push_bit 4 (1 :: u32) OR (drop_bit 24 x AND 0xF)) AND 0xF) = x"
proof -
  have m: "(0xFF :: u32) = mask 8" by (simp add: mask_eq_exp_minus_1)
  have b: "ucast (drop_bit n x AND 0xFF) = (ucast (drop_bit n x) :: u8)" for n
    unfolding m by (rule bit_word_eqI) (auto simp: bit_simps)
  have "drop_bit 24 x = 0"
    using assms by (simp add: word_unat_eq_iff unat_drop_bit_eq drop_bit_nat_def FSSIZE_def)
  then have "ucast (0xE0 OR push_bit 4 (1 :: u32) OR (drop_bit 24 x AND 0xF)) AND 0xF = (byte_at 3 x :: u8)"
    by (simp add: byte_at_def)
  then show ?thesis using b [of 0] b [of 8] b [of 16] u32_le_bytes [of x] by (simp add: byte_at_def)
qed

definition same_data :: "kernel \<Rightarrow> kernel \<Rightarrow> bool" where
  "same_data s t \<longleftrightarrow> k_sync t = k_sync s \<and> k_ptab t = k_ptab s \<and> k_disk t = k_disk s \<and> k_bcache t = k_bcache s \<and>
     ide_queue (k_ide t) = ide_queue (k_ide s)"

text \<open>The controller works on the request of a buffer; it is done with it.\<close>

definition started :: "kernel \<Rightarrow> nat \<Rightarrow> bool" where
  "started s i \<longleftrightarrow> (let b = bufs s ! i; d = k_ide s in
     hw_cmd d = Some (if dirty b then IDE_CMD_WRITE else IDE_CMD_READ) \<and>
     ata_sector (hw_regs d) = unat (b_blockno b) \<and> bit (hw_regs d 0x1F6) 4 \<and> (dirty b \<longrightarrow> hw_data d = b_data b))"

definition finished :: "kernel \<Rightarrow> nat \<Rightarrow> bool" where
  "finished s i \<longleftrightarrow> (let b = bufs s ! i; d = k_ide s; n = unat (b_blockno b) in
     hw_cmd d = None \<and> hw_status d = IDE_DRDY \<and> (if dirty b then k_disk s ! n = b_data b else hw_data d = k_disk s ! n))"

lemma drdy: "IDE_DRDY AND (IDE_BSY OR IDE_DRDY) = IDE_DRDY" "(IDE_DRDY OR 1) AND (IDE_BSY OR IDE_DRDY) = IDE_DRDY"
  by (simp_all add: IDE_BSY_def IDE_DRDY_def)

lemma idestart_run:
  assumes "unat (b_blockno (bufs s ! i)) < FSSIZE" and "b_dev (bufs s ! i) = 1" and "length (b_data (bufs s ! i)) = BSIZE"
    and "hw_status (k_ide s) AND (IDE_BSY OR IDE_DRDY) = IDE_DRDY"
  shows "\<exists>t. idestart (Some i) s = Inr ((), t) \<and> same_data s t \<and> started t i"
proof -
  note sb = sector_bytes [OF assms(1)]
  have one: "sector_per_block = 1" by (simp add: sector_per_block_def BSIZE_def SECTOR_SIZE_def)
  have bt: "bit (ucast (0xE0 OR push_bit 4 (1 :: u32) OR (drop_bit 24 x AND 0xF)) :: u8) 4" for x :: u32
    by (simp add: bit_simps)
  have "idewait False s = Inr (0, s)" using assms(4) by (simp add: idewait_def inb_def port_read_def port_taken_def op_defs)
  then show ?thesis
    using assms sb bt [of "b_blockno (bufs s ! i)"]
    by (simp add: idestart_def op_defs outb_def port_write_def set_reg_def
        ide_upd_def cons_upd_def apic_upd_def one outsl_def same_data_def started_def ata_sector_def
        dirty_def Let_def BSIZE_def)
qed

section \<open>The invariant of the queue\<close>

definition request_ok :: "buf \<Rightarrow> bool" where
  "request_ok b \<longleftrightarrow> unat (b_blockno b) < FSSIZE \<and> b_dev b = 1 \<and> length (b_data b) = BSIZE"

definition head_ok :: "kernel \<Rightarrow> nat list \<Rightarrow> bool" where
  "head_ok s L \<longleftrightarrow> (case L of [] \<Rightarrow> hw_cmd (k_ide s) = None \<and> hw_status (k_ide s) = IDE_DRDY
     | i # _ \<Rightarrow> started s i \<or> finished s i)"

definition disk_ok :: "u8 list list \<Rightarrow> bool" where
  "disk_ok d \<longleftrightarrow> length d = FSSIZE \<and> (\<forall>b \<in> set d. length b = BSIZE)"

definition ide_inv :: "kernel \<Rightarrow> nat list \<Rightarrow> bool" where
  "ide_inv s L \<longleftrightarrow> qchain (bufs s) (ide_queue (k_ide s)) L \<and> distinct L \<and> (\<forall>i \<in> set L. request_ok (bufs s ! i)) \<and>
     disk_ok (k_disk s) \<and> head_ok s L"

lemma ide_invD:
  assumes "ide_inv s L"
  shows "qchain (bufs s) (ide_queue (k_ide s)) L" "distinct L" "\<And>i. i \<in> set L \<Longrightarrow> request_ok (bufs s ! i)"
    "disk_ok (k_disk s)" "head_ok s L"
  using assms by (auto simp: ide_inv_def)

lemma ata_done_inv:
  assumes inv: "ide_inv s (i # L)" and st: "started s i"
  shows "ide_inv (ata_done True s) (i # L)" and "finished (ata_done True s) i" and "k_sync (ata_done True s) = k_sync s"
    and "perform i (k_disk (ata_done True s), bufs (ata_done True s)) = perform i (k_disk s, bufs s)"
proof -
  let ?b = "bufs s ! i" and ?n = "unat (b_blockno (bufs s ! i))" and ?t = "ata_done True s"
  have ok: "request_ok ?b" using ide_invD(3) [OF inv] by simp
  have d: "disk_ok (k_disk s)" by (rule ide_invD(4) [OF inv])
  have n: "?n < length (k_disk s)" using ok d by (simp add: request_ok_def disk_ok_def)
  have f: "bufs ?t = bufs s" "ide_queue (k_ide ?t) = ide_queue (k_ide s)" "k_sync ?t = k_sync s"
    "k_disk ?t = (if dirty ?b then (k_disk s)[?n := b_data ?b] else k_disk s)"
    using st by (auto simp: ata_done_def started_def Let_def ide_upd_def IDE_CMD_READ_def IDE_CMD_WRITE_def)
  show fin: "finished ?t i" using st n
    by (auto simp: ata_done_def started_def finished_def Let_def ide_upd_def IDE_CMD_READ_def IDE_CMD_WRITE_def)
  have "disk_ok (k_disk ?t)" using d ok f(4) by (auto simp: disk_ok_def request_ok_def dest: set_update_subset_insert [THEN subsetD])
  with fin f ide_invD [OF inv] show "ide_inv ?t (i # L)" by (simp add: ide_inv_def head_ok_def)
  show "k_sync ?t = k_sync s" by (rule f(3))
  show "perform i (k_disk ?t, bufs ?t) = perform i (k_disk s, bufs s)" using f by (simp add: perform_def Let_def)
qed

lemma perform_other: "j \<noteq> i \<Longrightarrow> snd (perform i (d, bs)) ! j = bs ! j"
  by (simp add: perform_def Let_def)

lemma perform_disk_ok: "disk_ok d \<Longrightarrow> request_ok (bs ! i) \<Longrightarrow> disk_ok (fst (perform i (d, bs)))"
  by (auto simp: perform_def disk_ok_def request_ok_def Let_def dest: set_update_subset_insert [THEN subsetD])

lemma qchain_perform: "i \<notin> set L \<Longrightarrow> qchain (snd (perform i (d, bs))) q L = qchain bs q L"
  by (simp add: perform_def Let_def qchain_other)

lemma finish_fetched:
  assumes q: "ide_queue (k_ide s) = Some i"
    and run: "ide_fetch i (bufs s ! i) (ide_upd (\<lambda>d. d\<lparr>ide_queue := b_qnext (bufs s ! i)\<rparr>) s) = Inr ((), s2)"
    and calm: "calm (k_sync s2)" "lock_free LkPtable (k_sync s2)"
  shows "ide_finish s = bindM (getM (\<lambda>s. ide_queue (k_ide s))) (\<lambda>q. if q \<noteq> None then idestart q else retM ())
    ((buf_upd i done_flags s2)\<lparr>k_ptab := tab_upd (wakeup1 (ChBuf i)) (k_ptab s2)\<rparr>)"
proof -
  have df: "(\<lambda>b. b\<lparr>b_flags := (b_flags b OR B_VALID) AND NOT B_DIRTY\<rparr>) = done_flags"
    by (rule ext) (simp add: done_flags_def)
  show ?thesis using q run wakeup_calm [of "buf_upd i done_flags s2" "ChBuf i"] calm
    by (simp add: ide_finish_def df bindM_def getM_def modM_def)
qed

lemma head_step:
  assumes inv: "ide_inv s (i # L)" and fin: "finished s i" and calm: "calm (k_sync s)" "lock_free LkPtable (k_sync s)"
  shows "\<exists>u. bindM (getM (\<lambda>s. ide_queue (k_ide s))) (\<lambda>q. if q \<noteq> None then idestart q else retM ()) u = ide_finish s \<and>
    (k_disk u, bufs u) = perform i (k_disk s, bufs s) \<and> k_sync u = k_sync s \<and> qchain (bufs u) (ide_queue (k_ide u)) L \<and>
    hw_cmd (k_ide u) = None \<and> hw_status (k_ide u) = IDE_DRDY"
proof -
  let ?b = "bufs s ! i" and ?n = "unat (b_blockno (bufs s ! i))"
  have q: "ide_queue (k_ide s) = Some i" "i < length (bufs s)" "qchain (bufs s) (b_qnext ?b) L" "i \<notin> set L"
    using ide_invD(1,2) [OF inv] by auto
  have ok: "request_ok ?b" using ide_invD(3) [OF inv] by simp
  have len: "length (k_disk s ! ?n) = 512"
    using ok ide_invD(4) [OF inv] by (simp add: request_ok_def disk_ok_def BSIZE_def)
  let ?s1 = "ide_upd (\<lambda>d. d\<lparr>ide_queue := b_qnext ?b\<rparr>) s"
  define s2 where "s2 = (if dirty ?b then ?s1 else buf_upd i (\<lambda>b. b\<lparr>b_data := k_disk s ! ?n\<rparr>) (ide_upd (\<lambda>d. d\<lparr>hw_data := []\<rparr>) ?s1))"
  define u where "u = (buf_upd i done_flags s2)\<lparr>k_ptab := tab_upd (wakeup1 (ChBuf i)) (k_ptab s2)\<rparr>"
  have st: "hw_status (k_ide s) = IDE_DRDY" using fin by (simp add: finished_def Let_def)
  then have "idewait True ?s1 = Inr (0, ?s1)"
    by (simp add: idewait_def inb_def port_read_def port_taken_def op_defs IDE_BSY_def IDE_DRDY_def)
  then have run: "ide_fetch i ?b ?s1 = Inr ((), s2)"
    using fin len by (simp add: ide_fetch_def op_defs insl_def dirty_def finished_def Let_def BSIZE_def s2_def) (simp add: ide_upd_def)
  have "ide_finish s = bindM (getM (\<lambda>s. ide_queue (k_ide s))) (\<lambda>q. if q \<noteq> None then idestart q else retM ()) u"
    unfolding u_def using calm by (intro finish_fetched [OF q(1) run]) (simp_all add: s2_def)
  moreover have "(k_disk s)[?n := b_data ?b] = k_disk s" if "dirty ?b"
    using fin that list_update_id [of "k_disk s" ?n] by (simp add: finished_def Let_def)
  then have "(k_disk u, bufs u) = perform i (k_disk s, bufs s)"
    using q(2) fin by (simp add: perform_def Let_def finished_def u_def s2_def)
  moreover have "k_sync u = k_sync s" "ide_queue (k_ide u) = b_qnext ?b" "hw_cmd (k_ide u) = None" "hw_status (k_ide u) = IDE_DRDY"
    using fin by (simp_all add: buf_upd_def finished_def Let_def u_def s2_def)
  moreover have "qchain (bufs u) (b_qnext ?b) L" using q(3,4) by (simp add: qchain_other u_def s2_def)
  ultimately show ?thesis by (intro exI [of _ u]) simp
qed

text \<open>The interrupt that ends the first request performs it and starts the next one.\<close>

lemma finish_inv:
  assumes inv: "ide_inv s (i # L)" and fin: "finished s i" and calm: "calm (k_sync s)" "lock_free LkPtable (k_sync s)"
  shows "\<exists>t. ide_finish s = Inr ((), t) \<and> ide_inv t L \<and> (k_disk t, bufs t) = perform i (k_disk s, bufs s) \<and> k_sync t = k_sync s"
proof -
  obtain u where u: "ide_finish s = bindM (getM (\<lambda>s. ide_queue (k_ide s))) (\<lambda>q. if q \<noteq> None then idestart q else retM ()) u"
    "(k_disk u, bufs u) = perform i (k_disk s, bufs s)" "k_sync u = k_sync s" "qchain (bufs u) (ide_queue (k_ide u)) L"
    "hw_cmd (k_ide u) = None" "hw_status (k_ide u) = IDE_DRDY"
    using head_step [OF assms] by metis
  have d: "distinct L" "i \<notin> set L" using ide_invD(2) [OF inv] by auto
  have b: "bufs u = snd (perform i (k_disk s, bufs s))" "k_disk u = fst (perform i (k_disk s, bufs s))" using u(2) by (metis prod.sel)+
  have ok: "request_ok (bufs u ! j)" if "j \<in> set L" for j
  proof -
    have "j \<noteq> i" using that d(2) by blast
    then show ?thesis using ide_invD(3) [OF inv, of j] that b(1) perform_other by simp
  qed
  have dk: "disk_ok (k_disk u)" unfolding b(2) using ide_invD(3,4) [OF inv] by (intro perform_disk_ok) simp_all
  show ?thesis
  proof (cases L)
    case Nil
    then have "ide_finish s = Inr ((), u)" using u(1,4) by (simp add: op_defs)
    moreover have "ide_inv u L" using u(4-6) Nil dk by (simp add: ide_inv_def head_ok_def)
    ultimately show ?thesis using u(2,3) by blast
  next
    case (Cons j M)
    then have q: "ide_queue (k_ide u) = Some j" using u(4) by simp
    have "request_ok (bufs u ! j)" using ok Cons by simp
    then obtain t where t: "idestart (Some j) u = Inr ((), t)" "same_data u t" "started t j"
      using idestart_run [of u j] u(6) drdy by (auto simp: request_ok_def)
    have "ide_finish s = Inr ((), t)" using u(1) q t(1) by (simp add: op_defs)
    moreover have "ide_inv t L"
      using t(2,3) u(4) d ok dk Cons by (auto simp: ide_inv_def head_ok_def same_data_def)
    ultimately show ?thesis using u(2,3) t(2) by (intro exI [of _ t]) (simp add: same_data_def)
  qed
qed

text \<open>A new request goes to the end of the queue; it is started at once if the queue was empty.\<close>

definition only_links :: "buf list \<Rightarrow> buf list \<Rightarrow> bool" where
  "only_links bs cs \<longleftrightarrow> length cs = length bs \<and> (\<forall>j < length bs. cs ! j = (bs ! j)\<lparr>b_qnext := b_qnext (cs ! j)\<rparr>)"

lemma only_links_upd: "only_links bs cs \<Longrightarrow> only_links bs (cs[i := (cs ! i)\<lparr>b_qnext := q\<rparr>])"
proof -
  assume a: "only_links bs cs"
  have "cs[i := (cs ! i)\<lparr>b_qnext := q\<rparr>] ! j = (bs ! j)\<lparr>b_qnext := b_qnext (cs[i := (cs ! i)\<lparr>b_qnext := q\<rparr>] ! j)\<rparr>" if "j < length bs" for j
  proof (cases "j = i")
    case True
    have e: "cs ! i = (bs ! i)\<lparr>b_qnext := b_qnext (cs ! i)\<rparr>" "i < length cs" using a that True by (simp_all add: only_links_def)
    have "(cs ! i)\<lparr>b_qnext := q\<rparr> = (bs ! i)\<lparr>b_qnext := q\<rparr>" by (subst e(1)) simp
    with True e(2) show ?thesis by simp
  qed (use a that in \<open>simp add: only_links_def\<close>)
  with a show ?thesis by (simp only: only_links_def length_list_update) blast
qed

lemma only_links_data:
  assumes "only_links bs cs" and "j < length bs"
  shows "b_data (cs ! j) = b_data (bs ! j)" and "b_flags (cs ! j) = b_flags (bs ! j)"
proof -
  have e: "cs ! j = (bs ! j)\<lparr>b_qnext := b_qnext (cs ! j)\<rparr>" using assms by (simp add: only_links_def)
  show "b_data (cs ! j) = b_data (bs ! j)" "b_flags (cs ! j) = b_flags (bs ! j)" by (subst e, simp)+
qed

lemma only_links_refl: "only_links bs bs"
  by (simp add: only_links_def)

lemma working_cong:
  assumes "k_ide t = k_ide s" "k_disk t = k_disk s" "b_flags (bufs t ! j) = b_flags (bufs s ! j)"
    "b_blockno (bufs t ! j) = b_blockno (bufs s ! j)" "b_data (bufs t ! j) = b_data (bufs s ! j)"
  shows "started t j = started s j" "finished t j = finished s j"
  using assms by (simp_all add: started_def finished_def dirty_def Let_def)

lemma enqueue_inv:
  assumes inv: "ide_inv s L" and i: "i \<notin> set L" "i < length (bufs s)" and ok: "request_ok (bufs s ! i)"
  shows "\<exists>t. ide_enqueue i s = Inr ((), t) \<and> ide_inv t (L @ [i]) \<and> k_disk t = k_disk s \<and> only_links (bufs s) (bufs t) \<and> k_sync t = k_sync s \<and>
    (L = [] \<longrightarrow> started t i)"
proof -
  let ?s1 = "buf_upd i (\<lambda>b. b\<lparr>b_qnext := None\<rparr>) s"
  have c1: "qchain (bufs ?s1) (ide_queue (k_ide ?s1)) L"
    using ide_invD(1) [OF inv] i(1) by (simp add: qchain_other) (simp add: buf_upd_def)
  have k1: "k_ide ?s1 = k_ide s" by (simp add: buf_upd_def)
  show ?thesis
  proof (cases L)
    case Nil
    then have q: "ide_queue (k_ide s) = None" "hw_status (k_ide s) = IDE_DRDY"
      using ide_invD(1,5) [OF inv] by (auto simp: head_ok_def)
    let ?s2 = "ide_upd (\<lambda>d. d\<lparr>ide_queue := Some i\<rparr>) ?s1"
    have "hw_status (k_ide ?s2) = IDE_DRDY" using q k1 by simp
    moreover have "request_ok (bufs ?s2 ! i)" using ok i(2) by (simp add: request_ok_def)
    ultimately obtain t where t: "idestart (Some i) ?s2 = Inr ((), t)" "same_data ?s2 t" "started t i"
      using idestart_run [of ?s2 i] drdy by (auto simp: request_ok_def)
    have "ide_enqueue i s = Inr ((), t)" using q(1) k1 t(1) by (simp add: ide_enqueue_def ide_append_def op_defs)
    moreover have "ide_inv t (L @ [i])"
      using t(2,3) Nil i(2) ok ide_invD(4) [OF inv] by (simp add: ide_inv_def head_ok_def same_data_def request_ok_def)
    ultimately show ?thesis using t(2,3) i(2) by (intro exI [of _ t]) (auto simp: same_data_def only_links_def nth_list_update)
  next
    case (Cons j M)
    then have q: "ide_queue (k_ide s) = Some j" using ide_invD(1) [OF inv] by simp
    let ?k = "last L"
    let ?t = "buf_upd ?k (\<lambda>b. b\<lparr>b_qnext := Some i\<rparr>) ?s1"
    have kL: "?k \<in> set L" "?k \<noteq> i" "j \<noteq> i" using Cons i(1) by (auto intro: last_in_set)
    have "qlast (bufs ?s1) j = Some ?k" using c1 q k1 by (intro qlast_chain) simp
    then have e: "ide_append i s = Inr ((), ?t)" using q k1 by (simp add: ide_append_def op_defs)
    have kt: "k_ide ?t = k_ide s" by (simp add: buf_upd_def)
    then have run: "ide_enqueue i s = Inr ((), ?t)" using e q kL(3) by (simp add: ide_enqueue_def op_defs)
    have "qchain (bufs ?t) (ide_queue (k_ide ?t)) (L @ [i])"
      using qchain_append [OF c1 ide_invD(2) [OF inv] _ i(1)] Cons i(2) kt k1 by simp
    moreover have "request_ok (bufs ?t ! m)" if "m \<in> set (L @ [i])" for m
      using that ide_invD(3) [OF inv, of m] ok i qchain_lt [OF ide_invD(1) [OF inv], of m]
      by (auto simp: request_ok_def nth_list_update)
    moreover have "started ?t j \<or> finished ?t j"
    proof -
      have "j < length (bufs s)" using qchain_lt [OF ide_invD(1) [OF inv]] Cons by simp
      then have "b_flags (bufs ?t ! j) = b_flags (bufs s ! j)" "b_blockno (bufs ?t ! j) = b_blockno (bufs s ! j)"
        "b_data (bufs ?t ! j) = b_data (bufs s ! j)" using kL(2,3) by (cases "last L = j"; simp)+
      from working_cong [of ?t s j, OF kt _ this] ide_invD(5) [OF inv] Cons show ?thesis by (simp add: head_ok_def)
    qed
    ultimately have "ide_inv ?t (L @ [i])"
      using ide_invD(2,4) [OF inv] i(1) Cons by (simp add: ide_inv_def head_ok_def)
    moreover have "only_links (bufs s) (bufs ?t)"
      unfolding bufs_buf_upd by (intro only_links_upd only_links_refl)
    ultimately show ?thesis using run Cons by (intro exI [of _ ?t]) simp
  qed
qed

section \<open>Serving the requests in order\<close>

definition queued :: "nat \<Rightarrow> kernel \<Rightarrow> bool" where
  "queued i s \<longleftrightarrow> (\<exists>L. qchain (bufs s) (ide_queue (k_ide s)) L \<and> i \<in> set L)"

text \<open>
  The states of the driver and the controller: a process adds the request of a buffer that is not in the queue,
  the controller completes a command, the interrupt handler runs after that, and anything else happens that leaves the
  driver, the disk and the buffers in the queue alone.
\<close>

inductive ide_reach :: "kernel \<Rightarrow> bool" where
  start: "ide_queue (k_ide s) = None \<Longrightarrow> hw_cmd (k_ide s) = None \<Longrightarrow> hw_status (k_ide s) = IDE_DRDY \<Longrightarrow> disk_ok (k_disk s) \<Longrightarrow>
    ide_reach s"
| submit: "ide_reach s \<Longrightarrow> \<not> queued i s \<Longrightarrow> i < length (bufs s) \<Longrightarrow> request_ok (bufs s ! i) \<Longrightarrow> ide_enqueue i s = Inr ((), t) \<Longrightarrow>
    ide_reach t"
| ata: "ide_reach s \<Longrightarrow> hw_cmd (k_ide s) \<noteq> None \<Longrightarrow> ide_reach (ata_done True s)"
| intr: "ide_reach s \<Longrightarrow> hw_cmd (k_ide s) = None \<Longrightarrow> calm (k_sync s) \<Longrightarrow> lock_free LkPtable (k_sync s) \<Longrightarrow> ide_finish s = Inr ((), t) \<Longrightarrow>
    ide_reach t"
| other: "ide_reach s \<Longrightarrow> k_ide t = k_ide s \<Longrightarrow> k_disk t = k_disk s \<Longrightarrow> length (bufs t) = length (bufs s) \<Longrightarrow>
    (\<And>i. queued i s \<Longrightarrow> bufs t ! i = bufs s ! i) \<Longrightarrow> ide_reach t"

lemma started_cmd: "started s i \<Longrightarrow> hw_cmd (k_ide s) \<noteq> None"
  by (auto simp: started_def Let_def)

lemma qchain_cong: "qchain bs q L \<Longrightarrow> length cs = length bs \<Longrightarrow> (\<And>i. i \<in> set L \<Longrightarrow> cs ! i = bs ! i) \<Longrightarrow> qchain cs q L"
  by (induction L arbitrary: q) auto

lemma ide_reach_inv: "ide_reach s \<Longrightarrow> \<exists>L. ide_inv s L"
proof (induction rule: ide_reach.induct)
  case (start s)
  then have "ide_inv s []" by (simp add: ide_inv_def head_ok_def)
  then show ?case by blast
next
  case (submit s i t)
  then obtain L where L: "ide_inv s L" by blast
  then have "i \<notin> set L" using submit(2) ide_invD(1) [OF L] by (auto simp: queued_def)
  from enqueue_inv [OF L this submit(3,4)] submit(5) show ?case by auto
next
  case (ata s)
  then obtain L where L: "ide_inv s L" by blast
  show ?case
  proof (cases L)
    case Nil
    then show ?thesis using ide_invD(5) [OF L] ata(2) by (simp add: head_ok_def)
  next
    case (Cons i M)
    then have "started s i" using ide_invD(5) [OF L] ata(2) by (auto simp: head_ok_def finished_def Let_def)
    with ata_done_inv(1) L Cons show ?thesis by blast
  qed
next
  case (intr s t)
  then obtain L where L: "ide_inv s L" by blast
  show ?case
  proof (cases L)
    case Nil
    then have "ide_finish s = Inr ((), s)" using ide_invD(1) [OF L] by (simp add: ide_finish_def op_defs)
    with intr(5) L show ?thesis by auto
  next
    case (Cons i M)
    then have "finished s i" using ide_invD(5) [OF L] intr(2) by (auto simp: head_ok_def dest: started_cmd)
    from finish_inv [OF _ this intr(3,4)] L Cons intr(5) show ?thesis by auto
  qed
next
  case (other s t)
  then obtain L where L: "ide_inv s L" by blast
  have b: "bufs t ! i = bufs s ! i" if "i \<in> set L" for i
    using that ide_invD(1) [OF L] by (intro other(5)) (auto simp: queued_def)
  have "qchain (bufs t) (ide_queue (k_ide t)) L"
    using qchain_cong [OF ide_invD(1) [OF L] other(4) b] other(2) by simp
  moreover have "head_ok t L"
    using ide_invD(5) [OF L] b other(2,3) by (cases L) (auto simp: head_ok_def started_def finished_def Let_def)
  ultimately have "ide_inv t L" using ide_invD [OF L] b other(3) by (simp add: ide_inv_def)
  then show ?case by blast
qed

lemma neutral_ide_finish: "lock_neutral {LkPtable} ide_finish"
proof -
  have w: "sync_indep (idewait b)" for b unfolding idewait_def by (intro sync_indep_intros)
  have st: "sync_indep (idestart q)" for q
    unfolding idestart_def Let_def by (intro sync_indep_intros w) (simp_all)
  have f: "sync_indep (ide_fetch i b)" for i b
    unfolding ide_fetch_def by (intro sync_indep_intros w)
  show ?thesis unfolding ide_finish_def
    by (intro neutral_intros sync_indep_intros f st neutral_sync_indep neutral_wakeup) simp_all
qed

text \<open>The controller and the interrupt handler run \<open>n\<close> times.\<close>

fun drain :: "nat \<Rightarrow> unit kop" where
  "drain 0 = retM ()"
| "drain (Suc n) = bindM (modM (ata_done True)) (\<lambda>_. bindM ideintr (\<lambda>_. drain n))"

lemma ideintr_run:
  assumes "calm (k_sync s)" "lock_free LkPtable (k_sync s)" "lock_free LkIde (k_sync s)"
  shows "ideintr s = ide_finish s"
  unfolding ideintr_def using assms by (intro with_lock_neutral [OF neutral_ide_finish]) auto

lemma drain_inv:
  assumes "ide_inv s L" and "calm (k_sync s)" "lock_free LkPtable (k_sync s)" "lock_free LkIde (k_sync s)"
  shows "\<exists>t. drain (length L) s = Inr ((), t) \<and> (k_disk t, bufs t) = fold perform L (k_disk s, bufs s) \<and> ide_inv t []"
  using assms
proof (induction L arbitrary: s)
  case (Cons i L)
  let ?s = "ata_done True s"
  have s: "ide_inv ?s (i # L)" "finished ?s i" "k_sync ?s = k_sync s"
    "perform i (k_disk ?s, bufs ?s) = perform i (k_disk s, bufs s)"
  proof -
    consider "started s i" | "finished s i" using ide_invD(5) [OF Cons.prems(1)] by (auto simp: head_ok_def)
    then have "ide_inv ?s (i # L) \<and> finished ?s i \<and> k_sync ?s = k_sync s \<and> perform i (k_disk ?s, bufs ?s) = perform i (k_disk s, bufs s)"
    proof cases
      case 1
      then show ?thesis using ata_done_inv [OF Cons.prems(1)] by blast
    next
      case 2
      then have "?s = s" by (simp add: ata_done_def finished_def Let_def)
      with 2 Cons.prems(1) show ?thesis by simp
    qed
    then show "ide_inv ?s (i # L)" "finished ?s i" "k_sync ?s = k_sync s"
      "perform i (k_disk ?s, bufs ?s) = perform i (k_disk s, bufs s)" by blast+
  qed
  have calm: "calm (k_sync ?s)" "lock_free LkPtable (k_sync ?s)" "lock_free LkIde (k_sync ?s)" using Cons.prems s(3) by simp_all
  obtain u where u: "ide_finish ?s = Inr ((), u)" "ide_inv u L" "(k_disk u, bufs u) = perform i (k_disk s, bufs s)" "k_sync u = k_sync ?s"
    using finish_inv [OF s(1,2) calm(1,2)] s(4) by auto
  have "calm (k_sync u)" "lock_free LkPtable (k_sync u)" "lock_free LkIde (k_sync u)" using calm u(4) by simp_all
  from Cons.IH [OF u(2) this] obtain t where t: "drain (length L) u = Inr ((), t)"
    "(k_disk t, bufs t) = fold perform L (k_disk u, bufs u)" "ide_inv t []" by blast
  have "drain (length (i # L)) s = Inr ((), t)" using u(1) t(1) ideintr_run [OF calm] by (simp add: op_defs)
  with t(2,3) u(3) show ?case by simp
qed (simp add: retM_def)

lemma only_links_perform:
  assumes "only_links bs cs" and "i < length bs"
  shows "fst (perform i (d, bs)) = fst (perform i (d, cs))" and "only_links (snd (perform i (d, bs))) (snd (perform i (d, cs)))"
proof -
  have e: "cs ! i = (bs ! i)\<lparr>b_qnext := b_qnext (cs ! i)\<rparr>" and l: "length cs = length bs" using assms by (auto simp: only_links_def)
  have f: "b_flags (cs ! i) = b_flags (bs ! i)" "b_blockno (cs ! i) = b_blockno (bs ! i)" "b_data (cs ! i) = b_data (bs ! i)"
    by (subst e, simp)+
  show "fst (perform i (d, bs)) = fst (perform i (d, cs))" using f by (simp add: perform_def dirty_def Let_def)
  have "done_flags (cs ! i) = (done_flags (bs ! i))\<lparr>b_qnext := b_qnext (cs ! i)\<rparr>"
    by (subst e, simp add: done_flags_def)
  moreover have "done_flags ((cs ! i)\<lparr>b_data := x\<rparr>) = (done_flags ((bs ! i)\<lparr>b_data := x\<rparr>))\<lparr>b_qnext := b_qnext (cs ! i)\<rparr>" for x
    by (subst e, simp add: done_flags_def)
  moreover have "b_qnext (done_flags b) = b_qnext b" for b by (simp add: done_flags_def)
  ultimately show "only_links (snd (perform i (d, bs))) (snd (perform i (d, cs)))"
    using assms f l by (auto simp: only_links_def perform_def dirty_def Let_def nth_list_update)
qed

lemma only_links_fold:
  assumes "only_links bs cs" and "\<forall>i \<in> set L. i < length bs"
  shows "fst (fold perform L (d, bs)) = fst (fold perform L (d, cs)) \<and> only_links (snd (fold perform L (d, bs))) (snd (fold perform L (d, cs)))"
  using assms
proof (induction L arbitrary: d bs cs)
  case (Cons i L)
  obtain d1 b1 where p: "perform i (d, bs) = (d1, b1)" by force
  obtain d2 b2 where q: "perform i (d, cs) = (d2, b2)" by force
  have i: "i < length bs" using Cons.prems(2) by simp
  have "d2 = d1" "only_links b1 b2" using only_links_perform [OF Cons.prems(1) i, of d] p q by simp_all
  moreover have "length b1 = length bs" using p by (auto simp: perform_def Let_def split: if_splits)
  ultimately show ?case using Cons.IH [of b1 b2 d1] Cons.prems(2) p q by simp
qed simp

text \<open>
  C28: The driver serves requests in the order of their arrival, and like the driver of the memory disk: in every state
  the driver can reach, a request that is added is at the end of the queue, and when the controller has completed the
  requests of the queue one by one and the interrupt handler has run after each, the disk and the buffers are as if the
  requests had been performed at once, one after the other, the new one last; only links between buffers may
  differ. Then the queue is empty. The requests are for disk 1, and the drive reports no error.
\<close>

theorem ide_serves_in_order:
  assumes "ide_reach s" and "qchain (bufs s) (ide_queue (k_ide s)) L" and "i \<notin> set L" and "i < length (bufs s)"
    and "request_ok (bufs s ! i)" and "calm (k_sync s)" and "lock_free LkPtable (k_sync s)" and "lock_free LkIde (k_sync s)"
  shows "\<exists>t u. ide_enqueue i s = Inr ((), t) \<and> drain (Suc (length L)) t = Inr ((), u) \<and>
    k_disk u = fst (fold perform (L @ [i]) (k_disk s, bufs s)) \<and>
    only_links (snd (fold perform (L @ [i]) (k_disk s, bufs s))) (bufs u) \<and> ide_queue (k_ide u) = None"
proof -
  obtain M where "ide_inv s M" using ide_reach_inv [OF assms(1)] by blast
  moreover from this have "M = L" using qchain_unique [OF ide_invD(1) assms(2)] by blast
  ultimately have inv: "ide_inv s L" by simp
  obtain t where t: "ide_enqueue i s = Inr ((), t)" "ide_inv t (L @ [i])" "k_disk t = k_disk s" "only_links (bufs s) (bufs t)" "k_sync t = k_sync s"
    using enqueue_inv [OF inv assms(3-5)] by blast
  obtain u where u: "drain (length (L @ [i])) t = Inr ((), u)" "(k_disk u, bufs u) = fold perform (L @ [i]) (k_disk t, bufs t)" "ide_inv u []"
    using drain_inv [OF t(2)] assms(6-8) t(5) by auto
  have "\<forall>j \<in> set (L @ [i]). j < length (bufs s)" using qchain_lt [OF assms(2)] assms(4) by auto
  from only_links_fold [OF t(4) this, of "k_disk s"] u(2) t(3)
  have "k_disk u = fst (fold perform (L @ [i]) (k_disk s, bufs s))" "only_links (snd (fold perform (L @ [i]) (k_disk s, bufs s))) (bufs u)"
    by (metis prod.sel)+
  moreover have "ide_queue (k_ide u) = None" using ide_invD(1) [OF u(3)] by simp
  ultimately show ?thesis using t(1) u(1) by (intro exI [of _ t] exI [of _ u]) simp
qed

definition ide_ex :: kernel where
  "ide_ex = buf_upd 3 (\<lambda>b. b\<lparr>b_dev := 1, b_blockno := 5\<rparr>) (kernel0 (\<lambda>_. 0) (replicate FSSIZE (replicate BSIZE 7)))"

lemma ide_ex_facts:
  "k_ide ide_ex = ide0" "k_sync ide_ex = sync0" "k_disk ide_ex = replicate FSSIZE (replicate BSIZE 7)"
  "bufs ide_ex = (replicate NBUF buf0)[3 := buf0\<lparr>b_dev := 1, b_blockno := 5\<rparr>]"
  by (simp_all add: ide_ex_def kernel0_def buf_upd_def NBUF_def MAXOPBLOCKS_def)

lemma ide_ex_reach:
  "ide_reach ide_ex" "3 < length (bufs ide_ex)" "request_ok (bufs ide_ex ! 3)" "calm (k_sync ide_ex)" "lock_free lk (k_sync ide_ex)"
  "\<not> dirty (bufs ide_ex ! 3)"
proof -
  show "ide_reach ide_ex" by (rule ide_reach.start) (simp_all add: ide_ex_facts ide0_def IDE_DRDY_def disk_ok_def)
  show "calm (k_sync ide_ex)" "lock_free lk (k_sync ide_ex)" using quiet_sync0 by (simp_all add: ide_ex_facts quiet_def)
qed (simp_all add: ide_ex_facts NBUF_def MAXOPBLOCKS_def request_ok_def buf0_def FSSIZE_def BSIZE_def dirty_def)

theorem ide_serves_in_order_witness:
  "\<exists>t u. ide_enqueue 3 ide_ex = Inr ((), t) \<and> drain 1 t = Inr ((), u) \<and> b_data (bufs u ! 3) = replicate BSIZE 7 \<and> ide_queue (k_ide u) = None"
proof -
  obtain t u where t: "ide_enqueue 3 ide_ex = Inr ((), t)" "drain (Suc (length [])) t = Inr ((), u)" "ide_queue (k_ide u) = None"
    "only_links (snd (fold perform ([] @ [3]) (k_disk ide_ex, bufs ide_ex))) (bufs u)"
    using ide_serves_in_order [OF ide_ex_reach(1), of "[]" 3] ide_ex_reach(2-5) by (auto simp: ide_ex_facts(1) ide0_def)
  let ?bs = "snd (fold perform ([] @ [3]) (k_disk ide_ex, bufs ide_ex))"
  have "?bs = (bufs ide_ex)[3 := done_flags ((bufs ide_ex ! 3)\<lparr>b_data := k_disk ide_ex ! unat (b_blockno (bufs ide_ex ! 3))\<rparr>)]"
    using ide_ex_reach(6) by (simp add: perform_def Let_def)
  then have "length ?bs = length (bufs ide_ex)" "b_data (?bs ! 3) = replicate BSIZE 7"
    using ide_ex_reach(2) by (simp_all add: ide_ex_facts done_flags_def NBUF_def MAXOPBLOCKS_def FSSIZE_def)
  with only_links_data(1) [OF t(4), of 3] ide_ex_reach(2) have "b_data (bufs u ! 3) = replicate BSIZE 7" by simp
  with t show ?thesis by auto
qed

text \<open>
  C32: A failed read looks like a successful one: when the disk controller reports an error for the first request of the
  queue, a read, the interrupt handler leaves the data of the buffer as they were and marks it valid all the same, so
  that its reader gets old contents.
\<close>

theorem ide_read_error_valid:
  assumes "ide_reach s" and "qchain (bufs s) (ide_queue (k_ide s)) (i # L)" and "hw_cmd (k_ide s) = Some IDE_CMD_READ"
    and "calm (k_sync s)" and "lock_free LkPtable (k_sync s)" and "lock_free LkIde (k_sync s)"
  shows "\<exists>t. ideintr (ata_done False s) = Inr ((), t) \<and> b_data (bufs t ! i) = b_data (bufs s ! i) \<and>
    b_flags (bufs t ! i) = (b_flags (bufs s ! i) OR B_VALID) AND NOT B_DIRTY"
proof -
  obtain M where "ide_inv s M" using ide_reach_inv [OF assms(1)] by blast
  moreover from this have "M = i # L" using qchain_unique [OF ide_invD(1) assms(2)] by blast
  ultimately have inv: "ide_inv s (i # L)" by simp
  have "started s i" using ide_invD(5) [OF inv] assms(3) by (auto simp: head_ok_def finished_def Let_def)
  then have "(if dirty (bufs s ! i) then IDE_CMD_WRITE else IDE_CMD_READ) = IDE_CMD_READ"
    using assms(3) unfolding started_def Let_def by simp
  then have nd: "\<not> dirty (bufs s ! i)" by (simp add: IDE_CMD_READ_def IDE_CMD_WRITE_def split: if_splits)
  let ?s = "ata_done False s"
  have e: "?s = ide_upd (\<lambda>d. d\<lparr>hw_cmd := None, hw_status := IDE_DRDY OR 1\<rparr>) s" using assms(3) by (simp add: ata_done_def)
  let ?s1 = "ide_upd (\<lambda>d. d\<lparr>ide_queue := b_qnext (bufs s ! i)\<rparr>) ?s"
  let ?u = "(buf_upd i done_flags ?s1)\<lparr>k_ptab := tab_upd (wakeup1 (ChBuf i)) (k_ptab ?s1)\<rparr>"
  have q: "ide_queue (k_ide ?s) = Some i" "i < length (bufs s)" using assms(2) by (simp_all add: e)
  have "idewait True ?s1 = Inr (- 1, ?s1)"
    by (simp add: idewait_def inb_def port_read_def port_taken_def op_defs IDE_BSY_def IDE_DRDY_def e)
  then have "ide_fetch i (bufs ?s ! i) ?s1 = Inr ((), ?s1)" using nd by (simp add: ide_fetch_def op_defs dirty_def e)
  then have f: "ide_finish ?s = bindM (getM (\<lambda>s. ide_queue (k_ide s))) (\<lambda>q. if q \<noteq> None then idestart q else retM ()) ?u"
    using finish_fetched [OF q(1), of ?s1] assms(4,5) by (simp add: e)
  have b: "b_data (bufs ?u ! i) = b_data (bufs s ! i)" "b_flags (bufs ?u ! i) = (b_flags (bufs s ! i) OR B_VALID) AND NOT B_DIRTY"
    using q(2) by (simp_all add: e done_flags_def)
  have "\<exists>t. ide_finish ?s = Inr ((), t) \<and> bufs t = bufs ?u"
  proof (cases L)
    case Nil
    then have "ide_queue (k_ide ?u) = None" using assms(2) by (simp add: e buf_upd_def)
    with f show ?thesis by (simp add: op_defs)
  next
    case (Cons j M)
    then have j: "ide_queue (k_ide ?u) = Some j" "j \<noteq> i" using assms(2) ide_invD(2) [OF inv] by (auto simp: e buf_upd_def)
    have "request_ok (bufs ?u ! j)" using ide_invD(3) [OF inv, of j] j(2) Cons by (simp add: e)
    moreover have "hw_status (k_ide ?u) = IDE_DRDY OR 1" by (simp add: e buf_upd_def)
    ultimately obtain t where "idestart (Some j) ?u = Inr ((), t)" "same_data ?u t"
      using idestart_run [of ?u j] drdy by (auto simp: request_ok_def)
    with f j(1) show ?thesis by (simp add: op_defs same_data_def)
  qed
  moreover have "ideintr ?s = ide_finish ?s" using assms(4-6) by (intro ideintr_run) (simp_all add: e)
  ultimately show ?thesis using b by auto
qed

theorem ide_read_error_valid_witness:
  "\<exists>t u. ide_enqueue 3 ide_ex = Inr ((), t) \<and> ideintr (ata_done False t) = Inr ((), u) \<and> b_flags (bufs u ! 3) = B_VALID \<and>
     b_data (bufs u ! 3) = replicate BSIZE 0 \<and> k_disk t ! 5 = replicate BSIZE 7"
proof -
  have "ide_inv ide_ex []" by (simp add: ide_inv_def head_ok_def ide_ex_facts ide0_def IDE_DRDY_def disk_ok_def)
  from enqueue_inv [OF this _ ide_ex_reach(2,3)] obtain t where t: "ide_enqueue 3 ide_ex = Inr ((), t)" "ide_inv t [3]"
    "k_disk t = k_disk ide_ex" "only_links (bufs ide_ex) (bufs t)" "k_sync t = k_sync ide_ex" "started t 3" by auto
  have r: "ide_reach t"
    by (rule ide_reach.submit [OF ide_ex_reach(1) _ ide_ex_reach(2,3) t(1)])
      (auto simp: queued_def ide_ex_facts ide0_def neq_Nil_conv elim: qchain.elims)
  have "\<not> dirty (bufs t ! 3)" using only_links_data(2) [OF t(4) ide_ex_reach(2)] ide_ex_reach(6) by (simp add: dirty_def)
  then have "hw_cmd (k_ide t) = Some IDE_CMD_READ" using t(6) by (simp add: started_def Let_def)
  from ide_read_error_valid [OF r ide_invD(1) [OF t(2)] this] obtain u where "ideintr (ata_done False t) = Inr ((), u)"
    "b_data (bufs u ! 3) = b_data (bufs t ! 3)" "b_flags (bufs u ! 3) = (b_flags (bufs t ! 3) OR B_VALID) AND NOT B_DIRTY"
    using ide_ex_reach(4,5) t(5) by auto
  moreover have "b_data (bufs t ! 3) = replicate BSIZE 0" "b_flags (bufs t ! 3) = 0"
    using only_links_data [OF t(4) ide_ex_reach(2)] by (simp_all add: ide_ex_facts NBUF_def MAXOPBLOCKS_def buf0_def BSIZE_def)
  ultimately show ?thesis using t(1,3) by (simp add: ide_ex_facts FSSIZE_def B_VALID_def B_DIRTY_def)
qed

end
