(* ===== verification/Ring.thy ===== *)
theory Ring
  imports Xv6_Types
begin

text \<open>
  Ring buffers as the kernel has them: an array whose size divides \<open>2 ^ 32\<close>, and free-running 32-bit counters that are
  reduced modulo the size for each access. The contents from counter \<open>r\<close> on are a list, and the operations on
  the array are operations on the list, also when the counters wrap around.
\<close>

definition ring :: "'a list \<Rightarrow> u32 \<Rightarrow> nat \<Rightarrow> 'a list" where
  "ring buf r n = map (\<lambda>k. buf ! unat ((r + of_nat k) mod of_nat (length buf))) [0..<n]"

lemma ring_length [simp]: "length (ring buf r n) = n"
  by (simp add: ring_def)

lemma ring_0 [simp]: "ring buf r 0 = []"
  by (simp add: ring_def)

lemma ring_Suc: "ring buf r (Suc n) = ring buf r n @ [buf ! unat ((r + of_nat n) mod of_nat (length buf))]"
  by (simp add: ring_def)

lemma ring_Cons: "ring buf r (Suc n) = buf ! unat (r mod of_nat (length buf)) # ring buf (r + 1) n"
  by (simp add: ring_def map_upt_Suc ac_simps del: upt_Suc)

lemma ring_add: "ring buf r (m + n) = ring buf r m @ ring buf (r + of_nat m) n"
proof (induction n)
  case (Suc n)
  then show ?case by (simp add: ring_Suc ac_simps)
qed simp

lemma ring_take: "m \<le> n \<Longrightarrow> take m (ring buf r n) = ring buf r m"
  using ring_add [of buf r m "n - m"] by simp

lemma ring_drop: "m \<le> n \<Longrightarrow> drop m (ring buf r n) = ring buf (r + of_nat m) (n - m)"
  using ring_add [of buf r m "n - m"] by simp

text \<open>Two counters less than the size apart stand for different places of the array.\<close>

lemma unat_mod_dvd: "c dvd 2 ^ 32 \<Longrightarrow> unat ((r :: u32) + of_nat k) mod c = (unat r + k) mod c"
proof -
  assume c: "c dvd 2 ^ 32"
  have "unat (r + of_nat k) = (unat r + k) mod 2 ^ 32" by (simp add: unat_word_ariths unat_of_nat mod_simps)
  with mod_mod_cancel [OF c] show ?thesis by simp
qed

lemma unat_mod_cap: "0 < c \<Longrightarrow> c dvd 2 ^ 32 \<Longrightarrow> unat ((r :: u32) mod of_nat c) = unat r mod c"
proof -
  assume c: "0 < c" "c dvd 2 ^ 32"
  show ?thesis
  proof (cases "c = 2 ^ 32")
    case True
    then have "unat (of_nat c :: u32) = 0" by (simp only: unat_of_nat) simp
    then have "(of_nat c :: u32) = 0" by (simp add: unat_eq_zero)
    then have "r mod of_nat c = r" by simp
    moreover have "unat r mod c = unat r" using True unsigned_less [of r, where ?'a = nat] by simp
    ultimately show ?thesis by (simp only:)
  next
    case False
    with c have "c < 2 ^ 32" using dvd_imp_le [OF c(2)] by simp
    then have "unat (of_nat c :: u32) = c" by (simp add: unat_of_nat)
    then show ?thesis by (simp add: unat_mod)
  qed
qed

lemma ring_place:
  assumes "0 < c" "c dvd 2 ^ 32"
  shows "unat (((r :: u32) + of_nat k) mod of_nat c) = (unat r + k) mod c"
  using unat_mod_cap [OF assms, of "r + of_nat k"] unat_mod_dvd [OF assms(2), of r k] by simp

lemma places_differ: "(j :: nat) < k \<Longrightarrow> k < j + c \<Longrightarrow> (x + j) mod c \<noteq> (x + k) mod c"
proof
  assume jk: "j < k" "k < j + c" and e: "(x + j) mod c = (x + k) mod c"
  have "c dvd (x + k) - (x + j)" using e [symmetric] jk by (subst mod_eq_dvd_iff_nat [symmetric]) simp_all
  then have "c \<le> k - j" using jk by (intro dvd_imp_le) simp_all
  with jk show False by simp
qed

lemma ring_put:
  assumes "length buf dvd 2 ^ 32" and "n < length buf"
  shows "ring (buf[unat ((r + of_nat n) mod of_nat (length buf)) := x]) r (Suc n) = ring buf r n @ [x]"
proof -
  let ?c = "length buf"
  have c: "0 < ?c" using assms(2) by (cases buf) simp_all
  have place: "unat ((r + of_nat k) mod of_nat ?c) = (unat r + k) mod ?c" for k by (rule ring_place [OF c assms(1)])
  have lt: "(unat r + k) mod ?c < ?c" for k using c by simp
  have "(unat r + k) mod ?c \<noteq> (unat r + n) mod ?c" if "k < n" for k
    using places_differ [OF that, of ?c "unat r"] assms(2) by simp
  then have "(unat r + n) mod ?c \<noteq> (unat r + k) mod ?c" if "k < n" for k using that by metis
  then show ?thesis using lt by (simp add: ring_def place nth_list_update)
qed

lemma ring_other:
  assumes "length buf dvd 2 ^ 32" and "n \<le> k" and "k < length buf"
  shows "ring (buf[unat ((r + of_nat k) mod of_nat (length buf)) := x]) r n = ring buf r n"
proof -
  have "ring (buf[unat ((r + of_nat k) mod of_nat (length buf)) := x]) r (Suc k) = ring buf r k @ [x]"
    using assms by (intro ring_put)
  then have "take n (ring (buf[unat ((r + of_nat k) mod of_nat (length buf)) := x]) r (Suc k)) = take n (ring buf r k @ [x])" by simp
  then show ?thesis using assms(2) by (simp only: ring_take le_SucI take_append ring_length) (simp add: ring_take)
qed

section \<open>Bounded queues\<close>

text \<open>What the users of a ring buffer rely on.\<close>

locale bounded_queue =
  fixes content :: "'q \<Rightarrow> 'a list"
    and ok :: "'q \<Rightarrow> bool"
    and cap :: nat
    and put :: "'a \<Rightarrow> 'q \<Rightarrow> 'q"
    and first :: "'q \<Rightarrow> 'a"
    and get :: "'q \<Rightarrow> 'q"
    and full :: "'q \<Rightarrow> bool"
    and empty :: "'q \<Rightarrow> bool"
  assumes put_ok: "ok q \<Longrightarrow> \<not> full q \<Longrightarrow> ok (put x q)"
    and content_put: "ok q \<Longrightarrow> \<not> full q \<Longrightarrow> content (put x q) = content q @ [x]"
    and get_ok: "ok q \<Longrightarrow> \<not> empty q \<Longrightarrow> ok (get q)"
    and content_get: "ok q \<Longrightarrow> \<not> empty q \<Longrightarrow> content q = first q # content (get q)"
    and full_iff: "ok q \<Longrightarrow> full q \<longleftrightarrow> length (content q) = cap"
    and empty_iff: "ok q \<Longrightarrow> empty q \<longleftrightarrow> content q = []"
    and bounded: "ok q \<Longrightarrow> length (content q) \<le> cap"
begin

lemma put_all:
  "ok q \<Longrightarrow> length (content q) + length xs \<le> cap \<Longrightarrow> ok (fold put xs q) \<and> content (fold put xs q) = content q @ xs"
proof (induction xs arbitrary: q)
  case (Cons x xs)
  then have "\<not> full q" by (simp add: full_iff)
  with Cons show ?case by (simp add: put_ok content_put)
qed simp

lemma get_all:
  "ok q \<Longrightarrow> n \<le> length (content q) \<Longrightarrow> ok ((get ^^ n) q) \<and> content ((get ^^ n) q) = drop n (content q)"
proof (induction n)
  case (Suc n)
  then have q: "ok ((get ^^ n) q)" "content ((get ^^ n) q) = drop n (content q)" by simp_all
  then have ne: "\<not> empty ((get ^^ n) q)" using Suc.prems(2) by (simp add: empty_iff)
  from content_get [OF q(1) ne] q(2) have "content (get ((get ^^ n) q)) = drop (Suc n) (content q)"
    by (metis drop_Suc drop_tl list.sel(3))
  with get_ok [OF q(1) ne] show ?case by simp
qed simp

lemma get_nth: "ok q \<Longrightarrow> n < length (content q) \<Longrightarrow> first ((get ^^ n) q) = content q ! n"
proof -
  assume a: "ok q" "n < length (content q)"
  then have q: "ok ((get ^^ n) q)" "content ((get ^^ n) q) = drop n (content q)" using get_all [of q n] by simp_all
  then have "\<not> empty ((get ^^ n) q)" using a(2) by (simp add: empty_iff)
  from content_get [OF q(1) this] q(2) a(2) show ?thesis by (metis hd_drop_conv_nth list.sel(1))
qed

end

end
