(* ===== verification/Console.thy ===== *)
theory Console
  imports Devices Ulib Ring
begin

text \<open>
  The console: the serial port (\<^verbatim>\<open>uart.c\<close>), the keyboard (\<^verbatim>\<open>kbd.c\<close>) and the display, line editing and
  formatted output (\<^verbatim>\<open>console.c\<close>), and \<^verbatim>\<open>procdump\<close> of \<^verbatim>\<open>proc.c\<close>.
\<close>

section \<open>The serial port\<close>

definition COM1 :: u16 where "COM1 = 0x3F8"

fun uart_wait :: "nat \<Rightarrow> unit kop" where
  "uart_wait 0 = retM ()"
| "uart_wait (Suc n) = bindM (inb (COM1 + 5)) (\<lambda>st. if st AND 0x20 = 0 then uart_wait n else retM ())"

definition uartputc :: "u32 \<Rightarrow> unit kop" where
  "uartputc c =
     bindM (getM (\<lambda>s. ua_present (k_cons s))) (\<lambda>uart.
     if \<not> uart then retM ()
     else bindM (uart_wait 128) (\<lambda>_. outb COM1 (ucast c)))"

definition uartgetc :: "int kop" where
  "uartgetc =
     bindM (getM (\<lambda>s. ua_present (k_cons s))) (\<lambda>uart.
     if \<not> uart then retM (- 1)
     else bindM (inb (COM1 + 5)) (\<lambda>st.
       if st AND 1 = 0 then retM (- 1) else bindM (inb COM1) (\<lambda>b. retM (uint b))))"

fun each :: "('a \<Rightarrow> unit kop) \<Rightarrow> 'a list \<Rightarrow> unit kop" where
  "each f [] = retM ()"
| "each f (x # xs) = bindM (f x) (\<lambda>_. each f xs)"

definition ch :: "char \<Rightarrow> u32" where
  "ch c = of_char c"

definition uartinit :: "unit kop" where
  "uartinit =
     bindM (each (\<lambda>(p, v). outb p v)
       [(COM1 + 2, 0), (COM1 + 3, 0x80), (COM1, of_nat (115200 div 9600)), (COM1 + 1, 0), (COM1 + 3, 3), (COM1 + 4, 0), (COM1 + 1, 1)]) (\<lambda>_.
     bindM (inb (COM1 + 5)) (\<lambda>st.
     if st = 0xFF then retM ()
     else
       bindM (modM (cons_upd (\<lambda>c. c\<lparr>ua_present := True\<rparr>))) (\<lambda>_.
       bindM (inb (COM1 + 2)) (\<lambda>_.
       bindM (inb COM1) (\<lambda>_.
       bindM (ioapicenable IRQ_COM1 0) (\<lambda>_.
       each (\<lambda>c. uartputc (ch c)) (''xv6...'' @ [newline])))))))"

section \<open>The keyboard\<close>

definition chs :: "string \<Rightarrow> u8 list" where
  "chs s = map of_char s"

definition ctl :: "char \<Rightarrow> u8" where
  "ctl c = of_char c - 0x40"

definition SHIFT :: u32 where "SHIFT = 1"
definition CTL :: u32 where "CTL = 2"
definition ALT :: u32 where "ALT = 4"
definition CAPSLOCK :: u32 where "CAPSLOCK = 8"
definition NUMLOCK :: u32 where "NUMLOCK = 16"
definition SCROLLLOCK :: u32 where "SCROLLLOCK = 32"
definition E0ESC :: u32 where "E0ESC = 64"

definition shiftcode :: "u8 \<Rightarrow> u32" where
  "shiftcode d =
     (if d = 0x1D \<or> d = 0x9D then CTL else if d = 0x2A \<or> d = 0x36 then SHIFT else if d = 0x38 \<or> d = 0xB8 then ALT else 0)"

definition togglecode :: "u8 \<Rightarrow> u32" where
  "togglecode d = (if d = 0x3A then CAPSLOCK else if d = 0x45 then NUMLOCK else if d = 0x46 then SCROLLLOCK else 0)"

text \<open>The keys behind an escape code: the keypad and the cursor block.\<close>

definition keypad :: "u8 \<Rightarrow> u8 \<Rightarrow> u8 \<Rightarrow> u8" where
  "keypad enter slash d =
     (case map_of [(0x9C, enter), (0xB5, slash), (0xC8, 0xE2), (0xD0, 0xE3), (0xC9, 0xE6), (0xD1, 0xE7), (0xCB, 0xE4), (0xCD, 0xE5),
        (0x97, 0xE0), (0xCF, 0xE1), (0xD2, 0xE8), (0xD3, 0xE9)] d of None \<Rightarrow> 0 | Some k \<Rightarrow> k)"

definition keymap :: "u8 list \<Rightarrow> (u8 \<Rightarrow> u8) \<Rightarrow> u8 \<Rightarrow> u8" where
  "keymap tab pad d = (if unat d < length tab then tab ! unat d else pad d)"

definition normalmap :: "u8 \<Rightarrow> u8" where
  "normalmap = keymap
     ([0, 0x1B] @ chs ''1234567890-='' @ [8, 9] @ chs ''qwertyuiop[]'' @ [10, 0] @ chs ''asdfghjkl;'' @ [0x27, 0x60, 0, 0x5C] @
      chs ''zxcvbnm,./'' @ [0] @ chs ''*'' @ [0] @ chs '' '' @ replicate 13 0 @ chs ''789-456+1230.'')
     (keypad 10 (of_char (CHR ''/'')))"

definition shiftmap :: "u8 \<Rightarrow> u8" where
  "shiftmap = keymap
     ([0, 0x1B] @ chs ''!@#$%^&*()_+'' @ [8, 9] @ chs ''QWERTYUIOP{}'' @ [10, 0] @ chs ''ASDFGHJKL:'' @ [0x22, 0x7E, 0, 0x7C] @
      chs ''ZXCVBNM<>?'' @ [0] @ chs ''*'' @ [0] @ chs '' '' @ replicate 13 0 @ chs ''789-456+1230.'')
     (keypad 10 (of_char (CHR ''/'')))"

definition ctlmap :: "u8 \<Rightarrow> u8" where
  "ctlmap = keymap
     (replicate 16 0 @ map ctl ''QWERTYUIOP'' @ [0, 0, 13, 0] @ map ctl ''ASDFGHJKL'' @ [0, 0, 0, 0] @ [ctl (CHR 0x5C)] @
      map ctl ''ZXCVBNM'' @ [0, 0, ctl (CHR ''/''), 0, 0])
     (keypad 13 (ctl (CHR ''/'')))"

text \<open>What \<^verbatim>\<open>kbdgetc\<close> makes of a scan code: the new state of the shift keys and the character, 0 for none.\<close>

definition kbd_press :: "u32 \<Rightarrow> u8 \<Rightarrow> u32 \<times> u8" where
  "kbd_press shift d =
     (let shift = (shift OR shiftcode d) XOR togglecode d;
          tab = (if shift AND CTL \<noteq> 0 then ctlmap else if shift AND SHIFT \<noteq> 0 then shiftmap else normalmap);
          c = tab d
      in (shift,
          if shift AND CAPSLOCK = 0 then c
          else if of_char (CHR ''a'') \<le> c \<and> c \<le> of_char (CHR ''z'') then c - 0x20
          else if of_char (CHR ''A'') \<le> c \<and> c \<le> of_char (CHR ''Z'') then c + 0x20
          else c))"

definition kbd_code :: "u32 \<Rightarrow> u8 \<Rightarrow> u32 \<times> u8" where
  "kbd_code shift d =
     (if d = 0xE0 then (shift OR E0ESC, 0)
      else if d AND 0x80 \<noteq> 0 then
        (shift AND NOT (shiftcode (if shift AND E0ESC \<noteq> 0 then d else d AND 0x7F) OR E0ESC), 0)
      else if shift AND E0ESC \<noteq> 0 then kbd_press (shift AND NOT E0ESC) (d OR 0x80)
      else kbd_press shift d)"

definition kbdgetc :: "int kop" where
  "kbdgetc =
     bindM (inb 0x64) (\<lambda>st.
     if st AND 1 = 0 then retM (- 1)
     else
       bindM (inb 0x60) (\<lambda>data.
       bindM (getM (\<lambda>s. kbd_code (kb_shift (k_cons s)) data)) (\<lambda>(shift, c).
       bindM (modM (cons_upd (\<lambda>k. k\<lparr>kb_shift := shift\<rparr>))) (\<lambda>_.
       retM (uint c)))))"

section \<open>The display\<close>

definition BACKSPACE :: u32 where "BACKSPACE = 0x100"

definition crt :: u32 where "crt = P2V 0xB8000"

definition put_cell :: "u32 \<Rightarrow> u16 \<Rightarrow> mem \<Rightarrow> mem" where
  "put_cell pos w m = m(crt + 2 * pos := byte_at 0 w, crt + 2 * pos + 1 := byte_at 1 w)"

text \<open>Scrolling by one line, when the cursor is in the last one.\<close>

definition cga_scroll :: "u32 \<Rightarrow> u32 kop" where
  "cga_scroll pos =
     (if 24 \<le> pos div 80
      then bindM (modM (mem_upd (memmove crt (crt + 160) (2 * 23 * 80)))) (\<lambda>_.
           bindM (modM (mem_upd (memset (crt + 2 * (pos - 80)) 0 (2 * (24 * 80 - (pos - 80)))))) (\<lambda>_.
           retM (pos - 80)))
      else retM pos)"

definition cgaputc :: "u32 \<Rightarrow> unit kop" where
  "cgaputc c =
     bindM (outb 0x3D4 14) (\<lambda>_.
     bindM (inb 0x3D5) (\<lambda>hi.
     bindM (outb 0x3D4 15) (\<lambda>_.
     bindM (inb 0x3D5) (\<lambda>lo.
     let pos = push_bit 8 (ucast hi) OR ucast lo :: u32 in
     bindM (if c = 10 then retM (pos + (80 - pos mod 80))
            else if c = BACKSPACE then retM (if 0 < pos then pos - 1 else pos)
            else bindM (modM (mem_upd (put_cell pos (ucast (c AND 0xFF) OR 0x700)))) (\<lambda>_. retM (pos + 1))) (\<lambda>pos.
     bindM (assertM (\<not> (sint pos < 0 \<or> 25 * 80 < sint pos)) (Panic ''pos under/overflow'')) (\<lambda>_.
     bindM (cga_scroll pos) (\<lambda>pos.
     bindM (outb 0x3D4 14) (\<lambda>_.
     bindM (outb 0x3D5 (ucast (drop_bit 8 pos))) (\<lambda>_.
     bindM (outb 0x3D4 15) (\<lambda>_.
     bindM (outb 0x3D5 (ucast pos)) (\<lambda>_.
     modM (mem_upd (put_cell pos (0x20 OR 0x700))))))))))))))"

text \<open>After a panic on another CPU a CPU stops here.\<close>

definition consputc :: "u32 \<Rightarrow> unit kop" where
  "consputc c =
     bindM (getM (\<lambda>s. cn_panicked (k_cons s))) (\<lambda>p.
     bindM (assertM (\<not> p) Loops) (\<lambda>_.
     bindM (if c = BACKSPACE then each uartputc [8, 0x20, 8] else uartputc c) (\<lambda>_.
     cgaputc c)))"

section \<open>Formatted output\<close>

text \<open>An argument of \<^verbatim>\<open>cprintf\<close>: a word, or a pointer with the string it points to.\<close>

datatype carg = Num u32 | Str string

fun cprintf_text :: "string \<Rightarrow> carg list \<Rightarrow> string option" where
  "cprintf_text [] as = Some []"
| "cprintf_text (c # fmt) as =
     (if c \<noteq> CHR ''%'' then map_option (Cons c) (cprintf_text fmt as)
      else
        case fmt of
          [] \<Rightarrow> Some []
        | d # fmt \<Rightarrow>
            if d = CHR ''d'' then
              (case as of Num n # as \<Rightarrow> map_option (append (int_text ''0123456789abcdef'' n 10 True)) (cprintf_text fmt as) | _ \<Rightarrow> None)
            else if d = CHR ''x'' \<or> d = CHR ''p'' then
              (case as of Num n # as \<Rightarrow> map_option (append (int_text ''0123456789abcdef'' n 16 False)) (cprintf_text fmt as) | _ \<Rightarrow> None)
            else if d = CHR ''s'' then
              (case as of
                 Str s # as \<Rightarrow> map_option (append s) (cprintf_text fmt as)
               | Num n # as \<Rightarrow> if n = 0 then map_option (append ''(null)'') (cprintf_text fmt as) else None
               | [] \<Rightarrow> None)
            else if d = CHR ''%'' then map_option (Cons d) (cprintf_text fmt as)
            else map_option (append [CHR ''%'', d]) (cprintf_text fmt as))"

text \<open>
  Strings are values here, not pointers, so that the panic of \<^verbatim>\<open>cprintf\<close> for a format at address 0 has no counterpart.
\<close>

definition cprintf :: "string \<Rightarrow> carg list \<Rightarrow> unit kop" where
  "cprintf fmt as =
     bindM (getM (\<lambda>s. cn_locking (k_cons s))) (\<lambda>locking.
     bindM (theM Wild (cprintf_text fmt as)) (\<lambda>t.
     if locking then with_lock LkCons (each (\<lambda>c. consputc (ch c)) t) else each (\<lambda>c. consputc (ch c)) t))"

section \<open>The process listing\<close>

text \<open>The return addresses on a kernel stack, from the frame pointer on.\<close>

fun caller_pcs :: "nat \<Rightarrow> u32 \<Rightarrow> mem \<Rightarrow> u32 list" where
  "caller_pcs 0 ebp m = []"
| "caller_pcs (Suc n) ebp m =
     (if ebp = 0 \<or> ebp < KERNBASE \<or> ebp = 0xFFFFFFFF then replicate (Suc n) 0
      else ld32 m (ebp + 4) # caller_pcs n (ld32 m ebp) m)"

definition getcallerpcs :: "u32 \<Rightarrow> mem \<Rightarrow> u32 list" where
  "getcallerpcs v m = caller_pcs 10 (v - 8) m"

text \<open>
  What \<^verbatim>\<open>panic\<close> does before it loops for ever: the message is printed as a format, without taking the lock. \<open>v\<close> is the
  address of its parameter on the stack.
\<close>

definition panic :: "string \<Rightarrow> u32 \<Rightarrow> unit kop" where
  "panic msg v =
     bindM (modM (\<lambda>s. s\<lparr>k_sync := cli (k_sync s)\<rparr>)) (\<lambda>_.
     bindM (modM (cons_upd (\<lambda>k. k\<lparr>cn_locking := False\<rparr>))) (\<lambda>_.
     bindM (getM (\<lambda>s. hw_lapicid (k_sync s))) (\<lambda>id.
     bindM (cprintf ''lapicid %d: panic: '' [Num (ucast id)]) (\<lambda>_.
     bindM (cprintf msg []) (\<lambda>_.
     bindM (cprintf [newline] []) (\<lambda>_.
     bindM (getM (\<lambda>s. getcallerpcs v (k_mem s))) (\<lambda>pcs.
     bindM (each (\<lambda>a. cprintf '' %p'' [Num a]) pcs) (\<lambda>_.
     modM (cons_upd (\<lambda>k. k\<lparr>cn_panicked := True\<rparr>))))))))))"

fun state_name :: "procstate \<Rightarrow> string" where
  "state_name UNUSED = ''unused''"
| "state_name EMBRYO = ''embryo''"
| "state_name SLEEPING = ''sleep ''"
| "state_name RUNNABLE = ''runble''"
| "state_name RUNNING = ''run   ''"
| "state_name ZOMBIE = ''zombie''"

definition procdump :: "unit kop" where
  "procdump =
     each (\<lambda>i.
       bindM (getM (\<lambda>s. kprocs s ! i)) (\<lambda>p.
       if p_state p = UNUSED then retM ()
       else
         bindM (cprintf (''%d %s %s (tix=%d run=%u sleep=%u ready=%u)'' @ [newline])
           [Num (p_pid p), Str (state_name (p_state p)), Str (map (\<lambda>b. char_of (unat b)) (takeWhile (\<lambda>b. b \<noteq> 0) (p_name p))),
            Num (p_tickets p), Num (p_rtime p), Num (p_stime p), Num (p_retime p)]) (\<lambda>_.
         if p_state p \<noteq> SLEEPING then retM ()
         else
           bindM (theM Wild (p_context p)) (\<lambda>cx.
           bindM (getM (\<lambda>s. getcallerpcs (cx_ebp cx + 8) (k_mem s))) (\<lambda>pc.
           bindM (each (\<lambda>a. cprintf '' %p'' [Num a]) (takeWhile (\<lambda>a. a \<noteq> 0) pc)) (\<lambda>_.
           cprintf [newline] []))))))
     [0..<NPROC]"

section \<open>Console input\<close>

definition INPUT_BUF :: nat where "INPUT_BUF = 128"

text \<open>One character less in the line.\<close>

definition erase :: "unit kop" where
  "erase = bindM (modM (cons_upd (\<lambda>k. k\<lparr>in_e := in_e k - 1\<rparr>))) (\<lambda>_. consputc BACKSPACE)"

definition in_last :: "console \<Rightarrow> u8" where
  "in_last k = in_buf k ! unat ((in_e k - 1) mod of_nat INPUT_BUF)"

fun kill_line :: "nat \<Rightarrow> unit kop" where
  "kill_line 0 = retM ()"
| "kill_line (Suc n) =
     bindM (getM k_cons) (\<lambda>k.
     if in_e k \<noteq> in_w k \<and> in_last k \<noteq> 10 then bindM erase (\<lambda>_. kill_line n) else retM ())"

definition in_store :: "u8 \<Rightarrow> console \<Rightarrow> console" where
  "in_store c k = k\<lparr>in_buf := (in_buf k)[unat (in_e k mod of_nat INPUT_BUF) := c], in_e := in_e k + 1\<rparr>"

text \<open>The loop that kills a line runs at most \<^verbatim>\<open>input.e - input.w\<close> times.\<close>

definition cons_char :: "u8 \<Rightarrow> unit kop" where
  "cons_char c =
     bindM (getM k_cons) (\<lambda>k.
     if c = ctl (CHR ''U'') then kill_line (unat (in_e k - in_w k))
     else if c = ctl (CHR ''H'') \<or> c = 0x7F then (if in_e k \<noteq> in_w k then erase else retM ())
     else if c \<noteq> 0 \<and> in_e k - in_r k < of_nat INPUT_BUF then
       let c = (if c = 13 then 10 else c) in
       bindM (modM (cons_upd (in_store c))) (\<lambda>_.
       bindM (consputc (ucast c)) (\<lambda>_.
       bindM (getM k_cons) (\<lambda>k.
       if c = 10 \<or> c = ctl (CHR ''D'') \<or> in_e k = in_r k + of_nat INPUT_BUF then
         bindM (modM (cons_upd (\<lambda>k. k\<lparr>in_w := in_e k\<rparr>))) (\<lambda>_. wakeup ChInput)
       else retM ())))
     else retM ())"

text \<open>
  A round of the loop takes a character of the device that interrupted, until it has none; the result
  tells whether a process listing was asked for.
\<close>

fun consoleintr_loop :: "nat \<Rightarrow> int kop \<Rightarrow> bool \<Rightarrow> bool kop" where
  "consoleintr_loop 0 getc dump = failM Loops"
| "consoleintr_loop (Suc n) getc dump =
     bindM getc (\<lambda>c.
     if c < 0 then retM dump
     else if c = uint (ctl (CHR ''P'')) then consoleintr_loop n getc True
     else bindM (cons_char (word_of_int c)) (\<lambda>_. consoleintr_loop n getc dump))"

definition consoleintr :: "int kop \<Rightarrow> unit kop" where
  "consoleintr getc =
     bindM (getM (\<lambda>s. Suc (length (hw_kbd (k_cons s)) + length (hw_rx (k_cons s))))) (\<lambda>fuel.
     bindM (with_lock LkCons (consoleintr_loop fuel getc False)) (\<lambda>dump.
     if dump then procdump else retM ()))"

definition kbdintr :: "unit kop" where
  "kbdintr = consoleintr kbdgetc"

definition uartintr :: "unit kop" where
  "uartintr = consoleintr uartgetc"

section \<open>Reading and writing the console\<close>

text \<open>
  Takes bytes of the input from byte \<open>i\<close> of the target on. The result is the number of bytes reached, the
  bytes, and whether the loop stopped to wait for input.
\<close>

fun consoleread_loop :: "place \<Rightarrow> nat \<Rightarrow> u32 \<Rightarrow> (u32 \<times> u8 list \<times> bool) kop" where
  "consoleread_loop dst 0 i = retM (i, [], False)"
| "consoleread_loop dst (Suc n) i =
     bindM (getM k_cons) (\<lambda>k.
     if in_r k = in_w k then retM (i, [], True)
     else
       let c = in_buf k ! unat (in_r k mod of_nat INPUT_BUF) in
       bindM (modM (cons_upd (\<lambda>k. k\<lparr>in_r := in_r k + 1\<rparr>))) (\<lambda>_.
       if c = ctl (CHR ''D'') then
         bindM (if 0 < i then modM (cons_upd (\<lambda>k. k\<lparr>in_r := in_r k - 1\<rparr>)) else retM ()) (\<lambda>_. retM (i, [], False))
       else
         bindM (put_bytes dst i [c]) (\<lambda>_.
         if c = 10 then retM (i + 1, [c], False)
         else bindM (consoleread_loop dst n (i + 1)) (\<lambda>(j, cs, more). retM (j, c # cs, more)))))"

text \<open>A reader that sleeps is resumed, with the lock held again, at the byte it had reached.\<close>

definition consoleread_from :: "nat \<Rightarrow> place \<Rightarrow> u32 \<Rightarrow> u32 \<Rightarrow> (u32 \<times> u8 list) kop" where
  "consoleread_from ip dst n i =
     bindM (consoleread_loop dst (nat (sint n - sint i)) i) (\<lambda>(j, cs, more).
     if more then
       bindM mykilled (\<lambda>gone.
       if gone then
         bindM (liftS (release LkCons)) (\<lambda>_.
         bindM (ilock (Some ip)) (\<lambda>_. retM (- 1, [])))
       else sleeps ChInput LkCons)
     else
       bindM (liftS (release LkCons)) (\<lambda>_.
       bindM (ilock (Some ip)) (\<lambda>_. retM (j, cs))))"

definition consoleread :: "nat \<Rightarrow> place \<Rightarrow> u32 \<Rightarrow> (u32 \<times> u8 list) kop" where
  "consoleread ip dst n =
     bindM (iunlock (Some ip)) (\<lambda>_.
     bindM (liftS (acquire LkCons)) (\<lambda>_. consoleread_from ip dst n 0))"

fun consolewrite_loop :: "place \<Rightarrow> nat \<Rightarrow> u32 \<Rightarrow> unit kop" where
  "consolewrite_loop src 0 i = retM ()"
| "consolewrite_loop src (Suc n) i =
     bindM (get_bytes src i 1) (\<lambda>bs.
     bindM (consputc (ucast (hd bs))) (\<lambda>_. consolewrite_loop src n (i + 1)))"

definition consolewrite :: "nat \<Rightarrow> place \<Rightarrow> u32 \<Rightarrow> u32 kop" where
  "consolewrite ip src n =
     bindM (iunlock (Some ip)) (\<lambda>_.
     bindM (with_lock LkCons (consolewrite_loop src (nat (sint n)) 0)) (\<lambda>_.
     bindM (ilock (Some ip)) (\<lambda>_. retM n)))"

definition CONSOLE :: nat where "CONSOLE = 1"

text \<open>The table of devices after \<^verbatim>\<open>consoleinit\<close>: the kernel has no other device.\<close>

definition console_devsw :: devsw where
  "console_devsw =
     \<lparr>dv_read = (\<lambda>major. if major = CONSOLE then Some consoleread else None),
      dv_write = (\<lambda>major. if major = CONSOLE then Some consolewrite else None)\<rparr>"

definition consoleinit :: "unit kop" where
  "consoleinit =
     bindM (liftS (initlock LkCons ''console'')) (\<lambda>_.
     bindM (modM (cons_upd (\<lambda>k. k\<lparr>cn_locking := True\<rparr>))) (\<lambda>_.
     ioapicenable IRQ_KBD 0))"

end
