(* ===== verification/Screen.thy ===== *)
theory Screen
  imports Console
begin

text \<open>
  The display: \<^verbatim>\<open>cgaputc\<close> and \<^verbatim>\<open>consputc\<close> on the display memory and the cursor registers implement a
  terminal of 24 lines of 80 cells, and write nothing but that part of the display memory.
\<close>

section \<open>Output does not touch locks\<close>

lemma sync_indep_uart_wait [sync_indep_intros]: "sync_indep (uart_wait n)"
  by (induction n) (auto intro!: sync_indep_intros)

lemma sync_indep_each [sync_indep_intros]: "(\<And>x. sync_indep (f x)) \<Longrightarrow> sync_indep (each f xs)"
  by (induction xs) (auto intro!: sync_indep_intros)

lemma sync_indep_mem_upd [sync_indep_intros]: "sync_indep (modM (\<lambda>s. s\<lparr>k_mem := f (k_mem s)\<rparr>))"
  by (simp add: sync_indep_def op_defs)

lemma sync_indep_console [sync_indep_intros]:
  "sync_indep (uartputc c)" "sync_indep uartgetc" "sync_indep kbdgetc" "sync_indep (cga_scroll p)" "sync_indep (cgaputc d)" "sync_indep (consputc e)"
proof -
  show g: "sync_indep (uartputc c)" for c unfolding uartputc_def by (auto intro!: sync_indep_intros)
  show "sync_indep uartgetc" unfolding uartgetc_def by (auto intro!: sync_indep_intros)
  show "sync_indep kbdgetc" unfolding kbdgetc_def by (auto intro!: sync_indep_intros)
  show h: "sync_indep (cga_scroll p)" for p unfolding cga_scroll_def by (auto intro!: sync_indep_intros)
  show i: "sync_indep (cgaputc d)" for d unfolding cgaputc_def Let_def by (auto intro!: sync_indep_intros h)
  show "sync_indep (consputc e)" unfolding consputc_def by (auto intro!: sync_indep_intros g i)
qed

section \<open>The terminal\<close>

type_synonym screen = "nat \<times> u16 list"

definition cga_put :: "u32 \<Rightarrow> screen \<Rightarrow> screen" where
  "cga_put c = (\<lambda>(pos, cs).
     let (pos, cs) =
           (if c = 10 then (pos - pos mod 80 + 80, cs)
            else if c = BACKSPACE then (pos - 1, cs)
            else (pos + 1, cs[pos := ucast (c AND 0xFF) OR 0x700]));
         (pos, cs) = (if 24 * 80 \<le> pos then (pos - 80, drop 80 cs @ replicate 80 0) else (pos, cs))
     in (pos, cs[pos := 0x720]))"

definition cell :: "mem \<Rightarrow> nat \<Rightarrow> u16" where
  "cell m k = u16_le (m (crt + of_nat (2 * k))) (m (crt + of_nat (2 * k + 1)))"

definition cells :: "mem \<Rightarrow> u16 list" where
  "cells m = map (cell m) [0..<1920]"

definition display :: "u32 \<Rightarrow> bool" where
  "display a \<longleftrightarrow> unat (a - crt) < 3840"

definition cursor :: "kernel \<Rightarrow> nat" where
  "cursor s = unat (hw_cursor (k_cons s))"

definition screen_of :: "kernel \<Rightarrow> screen" where
  "screen_of s = (cursor s, cells (k_mem s))"

section \<open>The display memory\<close>

lemma length_cells [simp]: "length (cells m) = 1920"
  by (simp add: cells_def)

lemma crt_eq_iff: "a < 4096 \<Longrightarrow> b < 4096 \<Longrightarrow> crt + of_nat a = crt + (of_nat b :: u32) \<longleftrightarrow> a = b"
  unfolding add_left_cancel by (simp add: word_unat_eq_iff unat_of_nat)

lemma put_cell_at:
  assumes "p < 1920"
  shows "put_cell (of_nat p) w m = m(crt + of_nat (2 * p) := byte_at 0 w, crt + of_nat (2 * p + 1) := byte_at 1 w)"
  by (simp add: put_cell_def algebra_simps)

lemma cell_put_cell:
  assumes "p < 1920" "k < 1920"
  shows "cell (put_cell (of_nat p) w m) k = (if k = p then w else cell m k)"
proof -
  have e: "crt + of_nat a = crt + (of_nat b :: u32) \<longleftrightarrow> a = b" if "a < 3840" "b < 3840" for a b
    using crt_eq_iff that by simp
  have "2 * k \<noteq> Suc (2 * p)" "Suc (2 * k) \<noteq> 2 * p" by presburger+
  with assms e [of "2 * k" "2 * p"] e [of "2 * k" "2 * p + 1"] e [of "2 * k + 1" "2 * p"] e [of "2 * k + 1" "2 * p + 1"]
  show ?thesis unfolding cell_def put_cell_at [OF assms(1)] by (auto simp del: of_nat_mult of_nat_add of_nat_Suc One_nat_def)
qed

lemma cells_put_cell: "p < 1920 \<Longrightarrow> cells (put_cell (of_nat p) w m) = (cells m)[p := w]"
  by (rule nth_equalityI) (auto simp: cells_def cell_put_cell nth_list_update)

lemma put_cell_outside: "p < 1920 \<Longrightarrow> \<not> display a \<Longrightarrow> put_cell (of_nat p) w m a = m a"
proof -
  assume p: "p < 1920" and a: "\<not> display a"
  have "crt + of_nat j \<noteq> a" if "j < 3840" for j
    using a that by (auto simp: display_def unat_of_nat)
  from this [of "2 * p"] this [of "2 * p + 1"] show ?thesis using p unfolding put_cell_at [OF p] by simp
qed

definition scrolled :: "mem \<Rightarrow> mem" where
  "scrolled m = memset (crt + 2 * 1840) 0 160 (memmove crt (crt + 160) 3680 m)"

lemma unat_window: "unat k + n < 4294967296 \<Longrightarrow> unat (x - k :: u32) < n \<longleftrightarrow> unat k \<le> unat x \<and> unat x < unat k + n"
  using unsigned_less [of x, where ?'a = nat] by (auto simp: unat_sub_if')

lemma scrolled_at: "scrolled m a = (let o' = unat (a - crt) in if o' < 3680 then m (a + 160) else if o' < 3840 then 0 else m a)"
proof -
  have "memmove crt (crt + 160) 3680 m = copy_fwd (unat (3680 :: u32)) crt (crt + 160) m"
  proof -
    have "\<not> crt + 160 < crt" by (simp add: crt_def P2V_def KERNBASE_def)
    then show ?thesis unfolding memmove_def by (simp only: simp_thms if_False)
  qed
  also have "\<dots> = moved crt (crt + 160) (unat (3680 :: u32)) m"
  proof (rule copy_fwd_moved)
    have u: "unat crt = 0x800B8000" "unat (crt + 160) = 0x800B8000 + 160" by (simp_all add: crt_def P2V_def KERNBASE_def)
    show "crt + 160 + of_nat j \<noteq> crt" if "0 < j" "j < unat (3680 :: u32)" for j :: nat
      using no_wrap_neq [of "crt + 160" j crt 0] that u by simp
    show "crt + of_nat i \<noteq> crt + 160 + of_nat j" if "i < j" "j < unat (3680 :: u32)" for i j :: nat
      using no_wrap_neq [of crt i "crt + 160" j] that u by simp
  qed simp
  finally have "scrolled m = filled (crt + 3680) 160 0 (moved crt (crt + 160) 3680 m)"
    by (simp add: scrolled_def memset_filled)
  moreover have "unat (a - (crt + 3680)) < 160 \<longleftrightarrow> 3680 \<le> unat (a - crt) \<and> unat (a - crt) < 3840"
    using unat_window [of 3680 160 "a - crt"] unfolding diff_diff_eq [symmetric] by simp
  moreover have "crt + 160 + (a - crt) = a + 160" by simp
  moreover have "unat (a - crt) < 4294967296" using unsigned_less [of "a - crt", where ?'a = nat] by simp
  ultimately show ?thesis by (simp add: filled_def moved_def Let_def add.commute)
qed

lemma cells_scrolled: "cells (scrolled m) = drop 80 (cells m) @ replicate 80 0"
proof (rule nth_equalityI)
  fix k assume "k < length (cells (scrolled m))"
  then have k: "k < 1920" by simp
  have u: "unat (crt + of_nat j - crt) = j" if "j < 3840" for j using that by (simp add: unat_of_nat)
  have "cell (scrolled m) k = (if k < 1840 then cell m (k + 80) else 0)"
    using k u [of "2 * k"] u [of "2 * k + 1"] by (auto simp: cell_def scrolled_at Let_def u16_le_def algebra_simps)
  then show "cells (scrolled m) ! k = (drop 80 (cells m) @ replicate 80 0) ! k"
    using k by (auto simp: cells_def nth_append add.commute)
qed simp

lemma scrolled_outside: "\<not> display a \<Longrightarrow> scrolled m a = m a"
  by (simp add: scrolled_at display_def Let_def)

section \<open>Characters on the display\<close>

text \<open>The variables of the console and the memory after an operation of the display, up to the cursor.\<close>

definition drawn :: "kernel \<Rightarrow> kernel \<Rightarrow> bool" where
  "drawn s t \<longleftrightarrow> (k_cons t)\<lparr>hw_cursor := 0, hw_tx := []\<rparr> = (k_cons s)\<lparr>hw_cursor := 0, hw_tx := []\<rparr> \<and> k_ptab t = k_ptab s \<and> k_sync t = k_sync s \<and>
     (\<forall>a. \<not> display a \<longrightarrow> k_mem t a = k_mem s a)"

lemma drawn_refl: "drawn s s"
  by (simp add: drawn_def)

lemma drawn_trans: "drawn s t \<Longrightarrow> drawn t u \<Longrightarrow> drawn s u"
  by (simp add: drawn_def)

lemma drawn_cons:
  assumes "drawn s t"
  shows "cn_panicked (k_cons t) = cn_panicked (k_cons s)" "in_buf (k_cons t) = in_buf (k_cons s)" "in_r (k_cons t) = in_r (k_cons s)"
    "in_w (k_cons t) = in_w (k_cons s)" "in_e (k_cons t) = in_e (k_cons s)" "kb_shift (k_cons t) = kb_shift (k_cons s)"
    "hw_kbd (k_cons t) = hw_kbd (k_cons s)" "hw_rx (k_cons t) = hw_rx (k_cons s)" "ua_present (k_cons t) = ua_present (k_cons s)"
  using assms by (cases "k_cons s"; cases "k_cons t"; simp add: drawn_def)+

lemma read_cursor:
  "bindM (outb 0x3D4 14) (\<lambda>_. bindM (inb 0x3D5) (\<lambda>hi. bindM (outb 0x3D4 15) (\<lambda>_. bindM (inb 0x3D5) (f hi)))) s =
     f (byte_at 1 (hw_cursor (k_cons s))) (byte_at 0 (hw_cursor (k_cons s))) (port_write 0x3D4 15 (port_write 0x3D4 14 s))"
  by (simp add: op_defs outb_def inb_def port_read_def port_taken_def port_write_def set_reg_def Let_def)

lemma port_3D4: "k_cons (port_write 0x3D4 v s) = k_cons s" "k_mem (port_write 0x3D4 v s) = k_mem s"
  "k_ptab (port_write 0x3D4 v s) = k_ptab s" "k_sync (port_write 0x3D4 v s) = k_sync s" "hw_regs (k_ide (port_write 0x3D4 v s)) 0x3D4 = v"
  by (simp_all add: port_write_def set_reg_def Let_def)

lemma port_3D5:
  "hw_regs (k_ide s) 0x3D4 = 14 \<Longrightarrow> k_cons (port_write 0x3D5 v s) = (k_cons s)\<lparr>hw_cursor := u16_le (byte_at 0 (hw_cursor (k_cons s))) v\<rparr>"
  "hw_regs (k_ide s) 0x3D4 = 15 \<Longrightarrow> k_cons (port_write 0x3D5 v s) = (k_cons s)\<lparr>hw_cursor := u16_le v (byte_at 1 (hw_cursor (k_cons s)))\<rparr>"
  "k_mem (port_write 0x3D5 v s) = k_mem s" "k_ptab (port_write 0x3D5 v s) = k_ptab s" "k_sync (port_write 0x3D5 v s) = k_sync s"
  by (simp_all add: port_write_def set_reg_def Let_def)

definition cursor_set :: "u32 \<Rightarrow> kernel \<Rightarrow> kernel" where
  "cursor_set pos s =
     port_write 0x3D5 (ucast pos) (port_write 0x3D4 15 (port_write 0x3D5 (ucast (drop_bit 8 pos)) (port_write 0x3D4 14 s)))"

lemma cursor_set: "k_cons (cursor_set pos s) = (k_cons s)\<lparr>hw_cursor := ucast pos\<rparr>" "k_mem (cursor_set pos s) = k_mem s"
  "k_ptab (cursor_set pos s) = k_ptab s" "k_sync (cursor_set pos s) = k_sync s"
proof -
  have "u16_le (ucast pos) (ucast (drop_bit 8 pos)) = ucast pos"
    unfolding u16_le_def by (rule bit_word_eqI) (auto simp: bit_simps)
  then show "k_cons (cursor_set pos s) = (k_cons s)\<lparr>hw_cursor := ucast pos\<rparr>"
    by (simp add: cursor_set_def port_3D4 port_3D5 del: One_nat_def)
qed (simp_all add: cursor_set_def port_3D4 port_3D5)

lemma cursor_word: "push_bit 8 (ucast (byte_at 1 w)) OR ucast (byte_at 0 w) = (ucast (w :: u16) :: u32)"
  unfolding byte_at_def by (rule bit_word_eqI) (auto simp: bit_simps dest: bit_imp_le_length)

text \<open>The three steps of \<^verbatim>\<open>cgaputc\<close>: the character, scrolling, and the new cursor with a blank cell.\<close>

definition cga_char :: "u32 \<Rightarrow> u32 \<Rightarrow> u32 kop" where
  "cga_char c pos =
     (if c = 10 then retM (pos + (80 - pos mod 80))
      else if c = BACKSPACE then retM (if 0 < pos then pos - 1 else pos)
      else bindM (modM (mem_upd (put_cell pos (ucast (c AND 0xFF) OR 0x700)))) (\<lambda>_. retM (pos + 1)))"

lemma cgaputc_steps:
  "cgaputc c s =
     bindM (cga_char c (ucast (hw_cursor (k_cons s)))) (\<lambda>pos.
     bindM (assertM (\<not> (sint pos < 0 \<or> 25 * 80 < sint pos)) (Panic ''pos under/overflow'')) (\<lambda>_.
     bindM (cga_scroll pos) (\<lambda>pos.
     modM (\<lambda>s. mem_upd (put_cell pos 0x720) (cursor_set pos s))))) (port_write 0x3D4 15 (port_write 0x3D4 14 s))"
proof -
  have "bindM (outb 0x3D4 14) (\<lambda>_. bindM (outb 0x3D5 (ucast (drop_bit 8 pos))) (\<lambda>_. bindM (outb 0x3D4 15) (\<lambda>_. bindM (outb 0x3D5 (ucast pos)) (\<lambda>_.
     modM (mem_upd (put_cell pos (0x20 OR 0x700))))))) = modM (\<lambda>s. mem_upd (put_cell pos 0x720) (cursor_set pos s))" for pos
    by (rule ext) (simp add: op_defs outb_def cursor_set_def)
  then show ?thesis
    unfolding cgaputc_def read_cursor Let_def cursor_word cga_char_def by simp
qed

definition typed_pos :: "u32 \<Rightarrow> nat \<Rightarrow> nat" where
  "typed_pos c p = (if c = 10 then p - p mod 80 + 80 else if c = BACKSPACE then p - 1 else p + 1)"

definition typed_mem :: "u32 \<Rightarrow> nat \<Rightarrow> mem \<Rightarrow> mem" where
  "typed_mem c p m = (if c = 10 \<or> c = BACKSPACE then m else put_cell (of_nat p) (ucast (c AND 0xFF) OR 0x700) m)"

lemma typed_pos_le: "p < 1920 \<Longrightarrow> typed_pos c p \<le> 1920"
  using less_mult_imp_div_less [of p 24 80] by (auto simp: typed_pos_def minus_mod_eq_mult_div)

lemma unat_pos: "p \<le> 1920 \<Longrightarrow> unat (of_nat p :: u32) = p"
  by (simp add: unat_of_nat)

lemma cga_char_run:
  assumes "p < 1920"
  shows "cga_char c (of_nat p) s = Inr (of_nat (typed_pos c p), mem_upd (typed_mem c p) s)"
proof -
  have u: "unat (of_nat p :: u32) = p" using assms by (simp add: unat_of_nat)
  have "of_nat p + (80 - of_nat p mod 80) = (of_nat (p - p mod 80 + 80) :: u32)"
  proof -
    have "(of_nat p :: u32) mod 80 = of_nat (p mod 80)"
      by (rule word_unat_eq_iff [THEN iffD2]) (use assms in \<open>simp add: unat_mod unat_of_nat\<close>)
    then show ?thesis by (simp add: of_nat_diff)
  qed
  moreover have "(if 0 < (of_nat p :: u32) then of_nat p - 1 else of_nat p :: u32) = of_nat (p - 1)"
    using u by (cases p) (auto simp: word_less_nat_alt)
  ultimately show ?thesis by (simp add: cga_char_def typed_pos_def typed_mem_def op_defs add.commute)
qed

lemma cga_scroll_run:
  assumes "p \<le> 1920"
  shows "cga_scroll (of_nat p) s = (if p = 1920 then Inr (of_nat 1840, mem_upd scrolled s) else Inr (of_nat p, s))"
proof -
  have "24 \<le> (of_nat p :: u32) div 80 \<longleftrightarrow> p = 1920"
    using assms unat_pos [OF assms] by (auto simp: word_le_nat_alt unat_div)
  then show ?thesis by (auto simp: cga_scroll_def op_defs scrolled_def)
qed

lemma cga_put_eq:
  "cga_put c (p, cs) =
     (let q = typed_pos c p;
          cs1 = (if c = 10 \<or> c = BACKSPACE then cs else cs[p := ucast (c AND 0xFF) OR 0x700]);
          r = (if 1920 \<le> q then q - 80 else q)
      in (r, (if 1920 \<le> q then drop 80 cs1 @ replicate 80 0 else cs1)[r := 0x720]))"
  by (cases "c = 10"; cases "c = BACKSPACE"; simp add: cga_put_def typed_pos_def Let_def)

lemma cgaputc_run:
  assumes c: "cursor s < 1920"
  shows "\<exists>t. cgaputc c s = Inr ((), t) \<and> drawn s t \<and> screen_of t = cga_put c (screen_of s) \<and> cursor t < 1920"
proof -
  define p where "p = cursor s"
  define q where "q = typed_pos c p"
  define m where "m = typed_mem c p (k_mem s)"
  define s0 where "s0 = port_write 0x3D4 15 (port_write 0x3D4 14 s)"
  define r where "r = (if q = 1920 then 1840 else q)"
  define m2 where "m2 = (if q = 1920 then scrolled m else m)"
  define t where "t = mem_upd (put_cell (of_nat r) 0x720) (cursor_set (of_nat r) (s0\<lparr>k_mem := m2\<rparr>))"
  have p: "p < 1920" "ucast (hw_cursor (k_cons s)) = (of_nat p :: u32)" using c by (simp_all add: p_def cursor_def)
  have q: "q \<le> 1920" unfolding q_def by (rule typed_pos_le [OF p(1)])
  have r: "r < 1920" using q by (simp add: r_def)
  have s0: "k_mem s0 = k_mem s" "k_cons s0 = k_cons s" "k_ptab s0 = k_ptab s" "k_sync s0 = k_sync s" by (simp_all add: s0_def port_3D4)
  have "sint (of_nat q :: u32) = int q" using q by (simp add: sint_u32_pos unat_of_nat)
  then have "cgaputc c s = Inr ((), t)"
    using q cga_char_run [OF p(1), of c s0] cga_scroll_run [OF q, of "s0\<lparr>k_mem := m\<rparr>"]
    unfolding cgaputc_steps p(2) s0_def [symmetric]
    by (auto simp: op_defs t_def r_def m2_def m_def q_def s0)
  moreover have m: "cells m = (if c = 10 \<or> c = BACKSPACE then cells (k_mem s) else (cells (k_mem s))[p := ucast (c AND 0xFF) OR 0x700])"
    "\<not> display a \<Longrightarrow> m a = k_mem s a" for a
    using p(1) by (simp_all add: m_def typed_mem_def cells_put_cell put_cell_outside)
  have "drawn s t"
  proof -
    have "k_mem t a = k_mem s a" if "\<not> display a" for a
      using that r m(2) by (simp add: t_def cursor_set put_cell_outside m2_def scrolled_outside)
    then show ?thesis by (simp add: drawn_def t_def cursor_set s0)
  qed
  moreover have cu: "cursor t = r" using r by (simp add: cursor_def t_def cursor_set unsigned_ucast_eq unat_of_nat take_bit_eq_mod)
  moreover have "screen_of t = cga_put c (screen_of s)"
  proof -
    have "cells (k_mem t) = (cells m2)[r := 0x720]" using r by (simp add: t_def cursor_set cells_put_cell)
    moreover have "1920 \<le> q \<longleftrightarrow> q = 1920" using q by simp
    ultimately show ?thesis
      unfolding screen_of_def cu p_def [symmetric] cga_put_eq q_def [symmetric] m(1) [symmetric] Let_def
      by (simp add: m2_def r_def cells_scrolled)
  qed
  ultimately show ?thesis using r by (intro exI [of _ t]) simp
qed

section \<open>The console\<close>

text \<open>The serial port never makes the console wait: its line status says that it can send.\<close>

lemma uartputc_run: "\<exists>t. uartputc c s = Inr ((), t) \<and> drawn s t \<and> screen_of t = screen_of s"
proof (cases "ua_present (k_cons s)")
  case True
  define t where "t = port_write COM1 (ucast c) s"
  have "port_read (COM1 + 5) s AND 0x20 \<noteq> 0" "port_taken (COM1 + 5) s = s"
    by (simp_all add: COM1_def port_read_def port_taken_def Let_def)
  then have "uart_wait 128 s = Inr ((), s)" by (simp add: numeral_eq_Suc op_defs inb_def)
  then have u: "uartputc c s = Inr ((), t)" using True by (simp add: uartputc_def op_defs outb_def t_def)
  define x where "x = (if bit (hw_regs (k_ide s) 0x3FB) 7 then hw_tx (k_cons s) else hw_tx (k_cons s) @ [ucast c])"
  have x: "k_cons t = (k_cons s)\<lparr>hw_tx := x\<rparr>" by (simp add: t_def x_def port_write_def COM1_def set_reg_def Let_def)
  have "k_mem t = k_mem s" "k_ptab t = k_ptab s" "k_sync t = k_sync s"
    by (simp_all add: t_def port_write_def COM1_def set_reg_def Let_def)
  with x show ?thesis using u unfolding drawn_def screen_of_def cursor_def by (intro exI [of _ t] conjI) auto
next
  case False
  then show ?thesis using drawn_refl by (auto simp: uartputc_def op_defs)
qed

lemma uart_bytes: "\<exists>t. each uartputc cs s = Inr ((), t) \<and> drawn s t \<and> screen_of t = screen_of s"
proof (induction cs arbitrary: s)
  case (Cons c cs)
  from uartputc_run [of c s] obtain t where "uartputc c s = Inr ((), t)" "drawn s t" "screen_of t = screen_of s" by blast
  with Cons.IH [of t] show ?case by (auto simp: op_defs intro: drawn_trans)
qed (use drawn_refl in \<open>auto simp: op_defs\<close>)

lemma consputc_run:
  assumes "cursor s < 1920" and "\<not> cn_panicked (k_cons s)"
  shows "\<exists>t. consputc c s = Inr ((), t) \<and> drawn s t \<and> screen_of t = cga_put c (screen_of s) \<and> cursor t < 1920"
proof -
  have "\<exists>t. (if c = BACKSPACE then each uartputc [8, 0x20, 8] else uartputc c) s = Inr ((), t) \<and> drawn s t \<and> screen_of t = screen_of s"
    using uart_bytes [of "[8, 0x20, 8]" s] uartputc_run [of c s] by presburger
  then obtain t where t: "(if c = BACKSPACE then each uartputc [8, 0x20, 8] else uartputc c) s = Inr ((), t)" "drawn s t"
    "screen_of t = screen_of s" by blast
  have "cursor t < 1920" using assms(1) t(3) by (simp add: screen_of_def)
  from cgaputc_run [OF this, of c] obtain u where u: "cgaputc c t = Inr ((), u)" "drawn t u" "screen_of u = cga_put c (screen_of t)" "cursor u < 1920"
    by blast
  have "consputc c s = Inr ((), u)" using assms(2) t(1) u(1) unfolding consputc_def by (simp add: op_defs)
  with t u show ?thesis by (auto intro: drawn_trans)
qed

lemma consputc_text:
  assumes "cursor s < 1920" and "\<not> cn_panicked (k_cons s)"
  shows "\<exists>t. each (\<lambda>x. consputc (f x)) xs s = Inr ((), t) \<and> drawn s t \<and> screen_of t = fold (\<lambda>x. cga_put (f x)) xs (screen_of s) \<and> cursor t < 1920"
  using assms
proof (induction xs arbitrary: s)
  case (Cons x xs)
  from consputc_run [OF Cons.prems, of "f x"] obtain t where t: "consputc (f x) s = Inr ((), t)" "drawn s t"
    "screen_of t = cga_put (f x) (screen_of s)" "cursor t < 1920" by blast
  have "\<not> cn_panicked (k_cons t)" using Cons.prems(2) drawn_cons(1) [OF t(2)] by simp
  from Cons.IH [OF t(4) this] t show ?case by (auto simp: op_defs intro: drawn_trans)
qed (use drawn_refl in \<open>auto simp: op_defs\<close>)

text \<open>
  C35: The kernel's messages appear on a terminal of 24 lines of 80 characters: \<^verbatim>\<open>cprintf\<close> with fitting arguments returns,
  never fails the check of the cursor position, and leaves on the screen what a terminal shows that gets the formatted text
  character by character (new lines, scrolling and the blank at the cursor included). It writes no memory but the first 24
  lines of the display memory. The formatted text is the one of \<open>cprintf_text\<close>; the cursor starts in the first 24 lines, no panic
  has happened, and the lock of the console is free.
\<close>

theorem cprintf_shows:
  assumes "cprintf_text fmt as = Some out" and "cursor s < 24 * 80" and "\<not> cn_panicked (k_cons s)"
    and "calm (k_sync s)" and "lock_free LkCons (k_sync s)"
  shows "\<exists>t. cprintf fmt as s = Inr ((), t) \<and> screen_of t = fold (\<lambda>c. cga_put (ch c)) out (screen_of s) \<and> cursor t < 24 * 80 \<and>
    (\<forall>a. unat (a - crt) < 24 * 80 * 2 \<or> k_mem t a = k_mem s a)"
proof -
  have l: "with_lock LkCons (each (\<lambda>c. consputc (ch c)) out) s = each (\<lambda>c. consputc (ch c)) out s"
    by (rule with_lock_calm) (use assms(4,5) in \<open>auto intro!: sync_indep_intros\<close>)
  from consputc_text [of s ch out] assms(2,3) obtain t where t: "each (\<lambda>c. consputc (ch c)) out s = Inr ((), t)" "drawn s t"
    "screen_of t = fold (\<lambda>c. cga_put (ch c)) out (screen_of s)" "cursor t < 1920" by auto
  then have "cprintf fmt as s = Inr ((), t)" using assms(1) l by (simp add: cprintf_def op_defs)
  with t show ?thesis by (intro exI [of _ t]) (auto simp: drawn_def display_def)
qed

definition screen_ex :: kernel where
  "screen_ex = cons_upd (\<lambda>k. k\<lparr>hw_cursor := 1919\<rparr>) (kernel0 (\<lambda>a. 0) [])"

theorem cprintf_shows_witness:
  "\<exists>t. cprintf (''cpu%d: %s'' @ [newline]) [Num 1, Str ''up''] screen_ex = Inr ((), t) \<and>
    screen_of t = fold (\<lambda>c. cga_put (ch c)) (''cpu1: up'' @ [newline]) (screen_of screen_ex) \<and> cursor t < 24 * 80 \<and>
    (\<forall>a. unat (a - crt) < 24 * 80 * 2 \<or> k_mem t a = k_mem screen_ex a)"
proof (rule cprintf_shows)
  show "cprintf_text (''cpu%d: %s'' @ [newline]) [Num 1, Str ''up''] = Some (''cpu1: up'' @ [newline])" by code_simp
  show "cursor screen_ex < 24 * 80" "\<not> cn_panicked (k_cons screen_ex)"
    by (simp_all add: cursor_def screen_ex_def kernel0_def console0_def)
  show "calm (k_sync screen_ex)" "lock_free LkCons (k_sync screen_ex)"
    using quiet_sync0 by (auto simp: screen_ex_def kernel0_def quiet_def)
qed

end
