(* ===== verification/PipeQueue.thy ===== *)
theory PipeQueue
  imports Pipe Ring
begin

text \<open>
  A pipe is a queue of at most \<^verbatim>\<open>PIPESIZE\<close> bytes: the ring of \<^verbatim>\<open>pipe.c\<close> implements the interface of bounded
  queues, and \<^verbatim>\<open>pipewrite\<close> and \<^verbatim>\<open>piperead\<close> move bytes between it and the memory of a process.
\<close>

definition pipe_bytes :: "pipe \<Rightarrow> u8 list" where
  "pipe_bytes r = ring (pi_data r) (pi_nread r) (unat (pi_nwrite r - pi_nread r))"

definition pipe_ok :: "pipe \<Rightarrow> bool" where
  "pipe_ok r \<longleftrightarrow> length (pi_data r) = PIPESIZE \<and> unat (pi_nwrite r - pi_nread r) \<le> PIPESIZE"

lemma unat_plus_1: "unat (x :: u32) < k \<Longrightarrow> k \<le> 512 \<Longrightarrow> unat (x + 1) = unat x + 1"
  by (subst unat_add_u32) simp_all

interpretation pq: bounded_queue pipe_bytes pipe_ok PIPESIZE pipe_put pipe_next pipe_get pipe_full pipe_empty
proof
  fix q :: pipe and x
  assume ok: "pipe_ok q"
  have len: "length (pi_data q) = 512" and le: "unat (pi_nwrite q - pi_nread q) \<le> 512"
    using ok by (simp_all add: pipe_ok_def PIPESIZE_def)
  have dv: "length (pi_data q) dvd 2 ^ 32" by (simp add: len)
  define n where "n = unat (pi_nwrite q - pi_nread q)"
  have w: "pi_nwrite q = pi_nread q + of_nat n" by (simp add: n_def)
  have bytes: "pipe_bytes q = ring (pi_data q) (pi_nread q) n" by (simp add: pipe_bytes_def n_def)
  show fi: "pipe_full q \<longleftrightarrow> length (pipe_bytes q) = PIPESIZE"
  proof
    assume "pipe_full q"
    then show "length (pipe_bytes q) = PIPESIZE" by (simp add: pipe_full_def pipe_bytes_def PIPESIZE_def)
  next
    assume "length (pipe_bytes q) = PIPESIZE"
    then have "n = 512" by (simp add: bytes PIPESIZE_def)
    with w show "pipe_full q" by (simp add: pipe_full_def PIPESIZE_def)
  qed
  show ei: "pipe_empty q \<longleftrightarrow> pipe_bytes q = []"
  proof
    assume "pipe_empty q"
    then show "pipe_bytes q = []" by (simp add: pipe_empty_def pipe_bytes_def)
  next
    assume "pipe_bytes q = []"
    then have "length (pipe_bytes q) = 0" by simp
    with w show "pipe_empty q" by (simp add: bytes pipe_empty_def)
  qed
  show "length (pipe_bytes q) \<le> PIPESIZE" using ok by (simp add: pipe_bytes_def pipe_ok_def)
  {
    assume "\<not> pipe_full q"
    then have n: "n < 512" using fi le by (simp add: bytes PIPESIZE_def n_def)
    have s: "unat (pi_nwrite q + 1 - pi_nread q) = Suc n"
      using unat_plus_1 [of "pi_nwrite q - pi_nread q" 512] n by (simp add: n_def algebra_simps)
    show "pipe_ok (pipe_put x q)" using s n len by (simp add: pipe_ok_def pipe_put_def PIPESIZE_def)
    have "pipe_bytes (pipe_put x q) = ring ((pi_data q)[unat (pi_nwrite q mod 512) := x]) (pi_nread q) (Suc n)"
      using s by (simp add: pipe_bytes_def pipe_put_def PIPESIZE_def)
    then show "pipe_bytes (pipe_put x q) = pipe_bytes q @ [x]"
      using ring_put [OF dv, of n "pi_nread q" x] n len w bytes by simp
  next
    assume "\<not> pipe_empty q"
    then obtain m where m: "n = Suc m" using ei by (cases n) (simp_all add: bytes)
    have s: "unat (pi_nwrite q - (pi_nread q + 1)) = m"
      using unat_diff_u32 [of 1 "pi_nwrite q - pi_nread q"] m by (simp add: n_def algebra_simps)
    show "pipe_ok (pipe_get q)" using s m le len by (simp add: pipe_ok_def pipe_get_def PIPESIZE_def n_def)
    have "pipe_bytes (pipe_get q) = ring (pi_data q) (pi_nread q + 1) m"
      using s by (simp add: pipe_bytes_def pipe_get_def)
    then show "pipe_bytes q = pipe_next q # pipe_bytes (pipe_get q)"
      using m len ring_Cons [of "pi_data q" "pi_nread q" m] by (simp add: bytes pipe_next_def PIPESIZE_def)
  }
qed

section \<open>Writing\<close>

lemma pipe_upd_fields [simp]: "k_pipes (pipe_upd p f s) p = f (k_pipes s p)" "k_mem (pipe_upd p f s) = k_mem s"
  "k_sync (pipe_upd p f s) = k_sync s" "k_cr3 (pipe_upd p f s) = k_cr3 s" "k_ptab (pipe_upd p f s) = k_ptab s"
  by (simp_all add: pipe_upd_def)

lemma pipe_upd_upd: "pipe_upd p g (pipe_upd p f s) = pipe_upd p (g \<circ> f) s"
  by (simp add: pipe_upd_def)

lemma pipe_upd_id: "pipe_upd p id s = s"
  by (simp add: pipe_upd_def)

lemma kva_cong: "k_mem t = k_mem s \<Longrightarrow> k_cr3 t = k_cr3 s \<Longrightarrow> kva wr t va = kva wr s va"
  by (simp add: kva_def)

lemma pipewrite_loop_run:
  assumes "pipe_ok (k_pipes s p)" and "length (pipe_bytes (k_pipes s p)) + k \<le> PIPESIZE"
    and "\<And>j. j < k \<Longrightarrow> kva False s (addr + i + of_nat j) = Some (f j)"
  shows "pipewrite_loop p addr k i s = Inr (None, pipe_upd p (fold pipe_put (map (\<lambda>j. k_mem s (f j)) [0..<k])) s)"
  using assms
proof (induction k arbitrary: i f s)
  case 0
  then show ?case by (simp add: retM_def pipe_upd_id [unfolded id_def])
next
  case (Suc k)
  let ?t = "pipe_upd p (pipe_put (k_mem s (f 0))) s"
  have nf: "\<not> pipe_full (k_pipes s p)" using Suc.prems(1,2) by (simp add: pq.full_iff)
  have v: "vload8 (addr + i) s = Inr (k_mem s (f 0), s)" using Suc.prems(3) [of 0] by (simp add: vload8_def)
  have "kva False ?t (addr + (i + 1) + of_nat j) = Some (f (Suc j))" if "j < k" for j
    using Suc.prems(3) [of "Suc j"] that kva_cong [of ?t s] by (simp add: algebra_simps)
  then have "pipewrite_loop p addr k (i + 1) ?t =
      Inr (None, pipe_upd p (fold pipe_put (map (\<lambda>j. k_mem ?t (f (Suc j))) [0..<k])) ?t)"
    using Suc.prems(1,2) nf by (intro Suc.IH) (simp_all add: pq.put_ok pq.content_put)
  moreover have "map (\<lambda>j. k_mem s (f j)) [0..<Suc k] = k_mem s (f 0) # map (\<lambda>j. k_mem s (f (Suc j))) [0..<k]"
    by (simp only: map_upt_Suc)
  ultimately show ?case using nf v by (simp add: pipe_at_def op_defs pipe_upd_upd comp_def del: upt_Suc)
qed

section \<open>Reading\<close>

text \<open>
  The buffer of \<open>n\<close> bytes at \<open>addr\<close>: its bytes lie at \<open>T 0\<close>, \<open>T 1\<close>, ... in memory, and the page tables that map
  them do not lie in it.
\<close>

definition buffer :: "kernel \<Rightarrow> u32 \<Rightarrow> nat \<Rightarrow> (nat \<Rightarrow> u32) \<Rightarrow> bool" where
  "buffer s addr n T \<longleftrightarrow> inj_on T {..<n} \<and>
     (\<forall>m. (\<forall>a. a \<notin> T ` {..<n} \<longrightarrow> m a = k_mem s a) \<longrightarrow> (\<forall>j < n. kva True (s\<lparr>k_mem := m\<rparr>) (addr + of_nat j) = Some (T j)))"

text \<open>Memory after the first \<open>n\<close> bytes of \<open>bs\<close> have been stored in the buffer.\<close>

definition stored :: "(nat \<Rightarrow> u32) \<Rightarrow> u8 list \<Rightarrow> nat \<Rightarrow> mem \<Rightarrow> mem" where
  "stored T bs n m = fold (\<lambda>j m. m(T j := bs ! j)) [0..<n] m"

lemma stored_Suc: "stored T bs (Suc n) m = (stored T bs n m)(T n := bs ! n)"
  by (simp add: stored_def)

lemma stored_outside: "a \<notin> T ` {..<n} \<Longrightarrow> stored T bs n m a = m a"
  by (induction n) (auto simp: stored_Suc lessThan_Suc stored_def)

lemma stored_at: "inj_on T {..<n} \<Longrightarrow> j < n \<Longrightarrow> stored T bs n m (T j) = bs ! j"
proof (induction n)
  case (Suc n)
  have "T j \<noteq> T n" if "j \<noteq> n" using Suc.prems that by (auto simp: inj_on_def)
  with Suc show ?case by (cases "j = n") (auto simp: stored_Suc inj_on_def)
qed simp

lemma piperead_loop_run:
  assumes ok: "pipe_ok (k_pipes s p)" and buf: "buffer s addr n T" and i: "i + k = n" "i \<le> length (pipe_bytes (k_pipes s p))" "n < 2 ^ 31"
  shows "piperead_loop p addr k (of_nat i) ((pipe_upd p (pipe_get ^^ i) s)\<lparr>k_mem := stored T (pipe_bytes (k_pipes s p)) i (k_mem s)\<rparr>) =
    (let m = min n (length (pipe_bytes (k_pipes s p))) in
     Inr (of_nat m, (pipe_upd p (pipe_get ^^ m) s)\<lparr>k_mem := stored T (pipe_bytes (k_pipes s p)) m (k_mem s)\<rparr>))"
  using i
proof (induction k arbitrary: i)
  case 0
  then show ?case by (simp add: retM_def)
next
  case (Suc k)
  let ?b = "pipe_bytes (k_pipes s p)" and ?q = "(pipe_get ^^ i) (k_pipes s p)"
  let ?t = "(pipe_upd p (pipe_get ^^ i) s)\<lparr>k_mem := stored T ?b i (k_mem s)\<rparr>"
  have q: "pipe_ok ?q" "pipe_bytes ?q = drop i ?b" using pq.get_all [OF ok Suc.prems(2)] by simp_all
  show ?case
  proof (cases "i = length ?b")
    case True
    then have "pipe_empty ?q" using q by (simp add: pq.empty_iff)
    with True Suc.prems show ?thesis by (simp add: pipe_at_def op_defs min_def Let_def)
  next
    case False
    then have lt: "i < length ?b" using Suc.prems(2) by simp
    then have ne: "\<not> pipe_empty ?q" using q by (simp add: pq.empty_iff)
    have nx: "pipe_next ?q = ?b ! i" using pq.get_nth [OF ok lt] .
    let ?u = "pipe_upd p pipe_get ?t"
    have "kva True (s\<lparr>k_mem := stored T ?b i (k_mem s)\<rparr>) (addr + of_nat i) = Some (T i)"
      using buf Suc.prems(1) stored_outside [of _ T i] unfolding buffer_def by (auto simp: image_iff)
    then have "kva True ?u (addr + of_nat i) = Some (T i)"
      using kva_cong [of ?u "s\<lparr>k_mem := stored T ?b i (k_mem s)\<rparr>"] by (simp add: pipe_upd_def)
    then have st: "vstore8 (addr + of_nat i) (?b ! i) ?u =
        Inr ((), (pipe_upd p (pipe_get ^^ Suc i) s)\<lparr>k_mem := stored T ?b (Suc i) (k_mem s)\<rparr>)"
      by (simp add: vstore8_def pipe_upd_def stored_Suc)
    from Suc.IH [of "Suc i"] Suc.prems lt st ne nx show ?thesis
      by (simp add: pipe_at_def op_defs add.commute comp_def)
  qed
qed

section \<open>A pipe is a queue\<close>

lemma pipewrite_run:
  assumes rest: "at_rest s c" and ok: "pipe_ok (k_pipes s p)"
    and n: "unat n < 2 ^ 31" "length (pipe_bytes (k_pipes s p)) + unat n \<le> PIPESIZE"
    and f: "\<And>j. j < unat n \<Longrightarrow> kva False s (addr + of_nat j) = Some (f j)"
  shows "pipewrite p addr n s = Inr (n, (pipe_upd p (fold pipe_put (map (\<lambda>j. k_mem s (f j)) [0..<unat n])) s)
    \<lparr>k_ptab := tab_upd (wakeup1 (ChPipeR p)) (k_ptab s)\<rparr>)"
proof -
  let ?y = "acquired (LkPipe p) (k_sync s)" and ?g = "fold pipe_put (map (\<lambda>j. k_mem s (f j)) [0..<unat n])"
  let ?s1 = "s\<lparr>k_sync := ?y\<rparr>"
  let ?s2 = "pipe_upd p ?g ?s1"
  have c: "calm (k_sync s)" "lock_free lk (k_sync s)" for lk using at_rest_calm [OF rest] at_rest_free [OF rest] by blast+
  have a: "liftS (acquire (LkPipe p)) s = Inr ((), ?s1)" using acquire_calm [OF c(1), of "LkPipe p"] c(2) [of "LkPipe p"] by (simp add: liftS_def lock_free_def)
  have k: "nat (sint n - sint (0 :: u32)) = unat n" using n(1) by (simp add: sint_u32_pos)
  have "pipewrite_loop p addr (unat n) 0 ?s1 = Inr (None, ?s2)"
    using pipewrite_loop_run [of ?s1 p "unat n" addr 0 f] ok n(2) f kva_cong [of ?s1 s] by simp
  moreover have "wakeup (ChPipeR p) ?s2 = Inr ((), ?s2\<lparr>k_ptab := tab_upd (wakeup1 (ChPipeR p)) (k_ptab ?s2)\<rparr>)"
    using c by (intro wakeup_calm) (simp_all add: calm_acquired lock_free_acquired)
  moreover have "liftS (release (LkPipe p)) (?s2\<lparr>k_ptab := tab_upd (wakeup1 (ChPipeR p)) (k_ptab ?s2)\<rparr>) =
      Inr ((), (pipe_upd p ?g s)\<lparr>k_ptab := tab_upd (wakeup1 (ChPipeR p)) (k_ptab s)\<rparr>)"
    using release_acquired [OF c(1) c(2)] by (simp add: liftS_def) (simp add: pipe_upd_def)
  ultimately show ?thesis using a k by (simp add: pipewrite_def pipewrite_from_def op_defs)
qed

lemma piperead_run:
  assumes rest: "at_rest s c" and ok: "pipe_ok (k_pipes s p)"
    and n: "unat n < 2 ^ 31" and buf: "buffer s addr (unat n) T"
    and ne: "pipe_bytes (k_pipes s p) \<noteq> [] \<or> \<not> pi_writeopen (k_pipes s p)"
  shows "piperead p addr n s = (let m = min (unat n) (length (pipe_bytes (k_pipes s p))) in
    Inr (of_nat m, (pipe_upd p (pipe_get ^^ m) s)
      \<lparr>k_mem := stored T (pipe_bytes (k_pipes s p)) m (k_mem s), k_ptab := tab_upd (wakeup1 (ChPipeW p)) (k_ptab s)\<rparr>))"
proof -
  let ?y = "acquired (LkPipe p) (k_sync s)" and ?b = "pipe_bytes (k_pipes s p)"
  let ?s1 = "s\<lparr>k_sync := ?y\<rparr>" and ?m = "min (unat n) (length (pipe_bytes (k_pipes s p)))"
  let ?s2 = "(pipe_upd p (pipe_get ^^ ?m) ?s1)\<lparr>k_mem := stored T ?b ?m (k_mem s)\<rparr>"
  have c: "calm (k_sync s)" "lock_free lk (k_sync s)" for lk using at_rest_calm [OF rest] at_rest_free [OF rest] by blast+
  have a: "liftS (acquire (LkPipe p)) s = Inr ((), ?s1)" using acquire_calm [OF c(1), of "LkPipe p"] c(2) [of "LkPipe p"] by (simp add: liftS_def lock_free_def)
  have k: "nat (sint n) = unat n" using n(1) by (simp add: sint_u32_pos)
  have "buffer ?s1 addr (unat n) T" using buf kva_cong [of "s\<lparr>k_sync := ?y, k_mem := m\<rparr>" "s\<lparr>k_mem := m\<rparr>" for m] by (simp add: buffer_def)
  from piperead_loop_run [OF _ this, of p 0 "unat n"] ok n
  have "piperead_loop p addr (unat n) 0 ?s1 = Inr (of_nat ?m, ?s2)" by (simp add: pipe_upd_id Let_def stored_def)
  moreover have "wakeup (ChPipeW p) ?s2 = Inr ((), ?s2\<lparr>k_ptab := tab_upd (wakeup1 (ChPipeW p)) (k_ptab ?s2)\<rparr>)"
    using c by (intro wakeup_calm) (simp_all add: calm_acquired lock_free_acquired)
  moreover have "liftS (release (LkPipe p)) (?s2\<lparr>k_ptab := tab_upd (wakeup1 (ChPipeW p)) (k_ptab ?s2)\<rparr>) =
      Inr ((), (pipe_upd p (pipe_get ^^ ?m) s)
        \<lparr>k_mem := stored T ?b ?m (k_mem s), k_ptab := tab_upd (wakeup1 (ChPipeW p)) (k_ptab s)\<rparr>)"
    using release_acquired [OF c(1) c(2)] by (simp add: liftS_def) (simp add: pipe_upd_def)
  moreover have "\<not> (pipe_empty (k_pipes s p) \<and> pi_writeopen (k_pipes s p))" using ne pq.empty_iff [OF ok] by blast
  ultimately show ?thesis using a k
    by (cases "pipe_empty (k_pipes s p)") (simp_all add: piperead_def piperead_from_def pipe_at_def op_defs Let_def)
qed

text \<open>
  C29: A pipe is a first-in first-out queue of at most \<^verbatim>\<open>PIPESIZE\<close> bytes. When there is room, \<^verbatim>\<open>pipewrite\<close> returns the
  number of bytes and appends the bytes at \<open>addr\<close>, also where the counters of the ring wrap around; when the pipe is not empty or has no writer
  left, \<^verbatim>\<open>piperead\<close> takes as many bytes as there are, up to \<open>n\<close>, from the front, stores them at \<open>addr\<close> in order and changes
  no other memory; at the end of the stream it returns 0. Covered are the calls that need not sleep: a write that finds
  room for all its bytes, and a read that finds a byte or no writer.
\<close>

theorem pipe_is_queue:
  assumes "at_rest s c" and "pipe_ok (k_pipes s p)" and "unat n < 2 ^ 31"
  shows "(length (pipe_bytes (k_pipes s p)) + unat n \<le> PIPESIZE \<and> (\<forall>j < unat n. kva False s (addr + of_nat j) = Some (f j)) \<longrightarrow>
      (\<exists>t. pipewrite p addr n s = Inr (n, t) \<and> pipe_ok (k_pipes t p) \<and> k_mem t = k_mem s \<and>
        pipe_bytes (k_pipes t p) = pipe_bytes (k_pipes s p) @ map (\<lambda>j. k_mem s (f j)) [0..<unat n])) \<and>
    (buffer s addr (unat n) T \<and> (pipe_bytes (k_pipes s p) \<noteq> [] \<or> \<not> pi_writeopen (k_pipes s p)) \<longrightarrow>
      (\<exists>t m. piperead p addr n s = Inr (of_nat m, t) \<and> m = min (unat n) (length (pipe_bytes (k_pipes s p))) \<and>
        pipe_ok (k_pipes t p) \<and> pipe_bytes (k_pipes t p) = drop m (pipe_bytes (k_pipes s p)) \<and>
        (\<forall>j < m. k_mem t (T j) = pipe_bytes (k_pipes s p) ! j) \<and> (\<forall>a. a \<notin> T ` {..<m} \<longrightarrow> k_mem t a = k_mem s a)))"
proof (intro conjI impI)
  assume a: "length (pipe_bytes (k_pipes s p)) + unat n \<le> PIPESIZE \<and> (\<forall>j < unat n. kva False s (addr + of_nat j) = Some (f j))"
  with pq.put_all [OF assms(2), of "map (\<lambda>j. k_mem s (f j)) [0..<unat n]"] pipewrite_run [OF assms, of addr f]
  show "\<exists>t. pipewrite p addr n s = Inr (n, t) \<and> pipe_ok (k_pipes t p) \<and> k_mem t = k_mem s \<and>
        pipe_bytes (k_pipes t p) = pipe_bytes (k_pipes s p) @ map (\<lambda>j. k_mem s (f j)) [0..<unat n]" by simp
next
  let ?m = "min (unat n) (length (pipe_bytes (k_pipes s p)))"
  assume a: "buffer s addr (unat n) T \<and> (pipe_bytes (k_pipes s p) \<noteq> [] \<or> \<not> pi_writeopen (k_pipes s p))"
  then have "inj_on T {..<?m}" by (auto simp: buffer_def intro: inj_on_subset)
  with a piperead_run [OF assms, of addr T] pq.get_all [OF assms(2), of ?m]
  show "\<exists>t m. piperead p addr n s = Inr (of_nat m, t) \<and> m = min (unat n) (length (pipe_bytes (k_pipes s p))) \<and>
        pipe_ok (k_pipes t p) \<and> pipe_bytes (k_pipes t p) = drop m (pipe_bytes (k_pipes s p)) \<and>
        (\<forall>j < m. k_mem t (T j) = pipe_bytes (k_pipes s p) ! j) \<and> (\<forall>a. a \<notin> T ` {..<m} \<longrightarrow> k_mem t a = k_mem s a)"
    by (simp add: Let_def stored_at stored_outside)
qed

definition pipe_ex :: kernel where
  "pipe_ex = (kernel0 (\<lambda>a. ucast a) [])
     \<lparr>k_sync := sync0\<lparr>cpus := cpu0\<lparr>c_proc := Some 0\<rparr> # replicate 7 cpu0\<rparr>,
      k_pipes := (\<lambda>_. \<lparr>pi_data = replicate 512 9, pi_nread = 0xFFFFFFFE, pi_nwrite = 0xFFFFFFFF, pi_readopen = True, pi_writeopen = True\<rparr>)\<rparr>"

lemma pipe_ex_facts: "at_rest pipe_ex 0" "pipe_ok (k_pipes pipe_ex p)" "pipe_bytes (k_pipes pipe_ex p) = [9]" "k_mem pipe_ex = (\<lambda>a. ucast a)"
proof -
  show "at_rest pipe_ex 0"
    by (simp add: at_rest_def pipe_ex_def kernel0_def quiet_def calm_def lock_free_def sync0_def cpu0_def find_cpu_def
      readeflags_def cur_def)
  show "pipe_bytes (k_pipes pipe_ex p) = [9]" by (simp add: pipe_ex_def pipe_bytes_def ring_def)
qed (simp_all add: pipe_ex_def pipe_ok_def PIPESIZE_def kernel0_def)

lemma kva_high: "KERNBASE \<le> va \<Longrightarrow> kva wr s va = Some va"
  by (simp add: kva_def)

theorem pipe_is_queue_witness:
  "(\<exists>t. pipewrite 0 0x80001000 3 pipe_ex = Inr (3, t) \<and> pipe_bytes (k_pipes t 0) = [9, 0, 1, 2]) \<and>
   (\<exists>t. piperead 0 0x80001000 3 pipe_ex = Inr (1, t) \<and> pipe_bytes (k_pipes t 0) = [] \<and> k_mem t 0x80001000 = 9)"
proof -
  let ?f = "\<lambda>j. 0x80001000 + of_nat j :: u32"
  have lt: "j = 0 \<or> j = 1 \<or> j = 2" if "j < 3" for j :: nat using that by linarith
  have k: "kva wr s (?f j) = Some (?f j)" if "j < 3" for wr s j
    using lt [OF that] by (intro kva_high) (auto simp: KERNBASE_def)
  have "inj_on ?f {0, 1, 2}" by (simp add: inj_on_def)
  moreover have "{..<3 :: nat} = {0, 1, 2}" using lt by auto
  ultimately have "buffer pipe_ex 0x80001000 3 ?f" using k by (simp add: buffer_def)
  moreover have "map (\<lambda>j. k_mem pipe_ex (?f j)) [0..<3] = [0, 1, 2]" by (simp add: pipe_ex_facts upt_rec)
  ultimately show ?thesis using pipe_is_queue [OF pipe_ex_facts(1,2), of 3 0 "0x80001000" ?f ?f] k
    by (simp add: pipe_ex_facts(3) PIPESIZE_def) (metis (no_types, lifting) lessI nth_Cons_0 of_nat_0 add.right_neutral One_nat_def)
qed

end
