(* ===== verification/LineInput.thy ===== *)
theory LineInput
  imports Screen PipeQueue
begin

text \<open>
  Console input: the array of \<^verbatim>\<open>console.c\<close> with its three counters holds the lines that are ready for readers and the
  line that is being edited. The interrupt handler edits the line, and \<^verbatim>\<open>consoleread\<close> takes bytes of ready lines.
\<close>

section \<open>Lines\<close>

type_synonym lines = "u8 list \<times> u8 list"

text \<open>What a character does: control-U, control-H and delete edit the line; a new line, control-D or the last free byte complete it.\<close>

definition line_key :: "u8 \<Rightarrow> lines \<Rightarrow> lines" where
  "line_key c = (\<lambda>(ready, line).
     if c = ctl (CHR ''U'') then (ready, [])
     else if c = ctl (CHR ''H'') \<or> c = 0x7F then (ready, butlast line)
     else if c \<noteq> 0 \<and> length ready + length line < INPUT_BUF then
       let c = (if c = 13 then 10 else c); line = line @ [c] in
       if c = 10 \<or> c = ctl (CHR ''D'') \<or> length ready + length line = INPUT_BUF then (ready @ line, []) else (ready, line)
     else (ready, line))"

definition ready :: "console \<Rightarrow> u8 list" where
  "ready k = ring (in_buf k) (in_r k) (unat (in_w k - in_r k))"

definition editing :: "console \<Rightarrow> u8 list" where
  "editing k = ring (in_buf k) (in_w k) (unat (in_e k - in_w k))"

abbreviation lines_of :: "console \<Rightarrow> lines" where
  "lines_of k \<equiv> (ready k, editing k)"

definition in_size :: "console \<Rightarrow> bool" where
  "in_size k \<longleftrightarrow> length (in_buf k) = INPUT_BUF \<and> unat (in_w k - in_r k) + unat (in_e k - in_w k) \<le> INPUT_BUF"

definition in_ok :: "console \<Rightarrow> bool" where
  "in_ok k \<longleftrightarrow> in_size k \<and> 10 \<notin> set (editing k)"

section \<open>The counters\<close>

lemma unat_small: "n \<le> 128 \<Longrightarrow> unat (of_nat n :: u32) = n"
  by (simp add: unat_of_nat)

lemma in_counts:
  assumes "in_size k"
  obtains n l where "in_w k = in_r k + of_nat n" "in_e k = in_r k + of_nat (n + l)" "n + l \<le> 128"
    "unat (in_w k - in_r k) = n" "unat (in_e k - in_w k) = l" "unat (in_e k - in_r k) = n + l" "length (in_buf k) = 128"
proof -
  let ?n = "unat (in_w k - in_r k)" and ?l = "unat (in_e k - in_w k)"
  have "in_w k = in_r k + of_nat ?n" "in_e k = in_r k + of_nat (?n + ?l)" by simp_all
  moreover have "?n + ?l \<le> 128" "length (in_buf k) = 128" using assms by (simp_all add: in_size_def INPUT_BUF_def)
  moreover have "unat (of_nat (?n + ?l) :: u32) = ?n + ?l" by (rule unat_small) (use calculation(3) in simp)
  then have "unat (in_e k - in_r k) = ?n + ?l" by simp
  ultimately show ?thesis using that by blast
qed

lemma lines_erase:
  assumes "in_size k" "in_e k \<noteq> in_w k"
  shows "in_size (k\<lparr>in_e := in_e k - 1\<rparr>)" "ready (k\<lparr>in_e := in_e k - 1\<rparr>) = ready k" "editing (k\<lparr>in_e := in_e k - 1\<rparr>) = butlast (editing k)"
    "in_last k = last (editing k)" "editing k \<noteq> []" "unat (in_e k - 1 - in_w k) = unat (in_e k - in_w k) - 1"
proof -
  obtain n l where c: "in_w k = in_r k + of_nat n" "in_e k = in_r k + of_nat (n + l)" "n + l \<le> 128"
    "unat (in_w k - in_r k) = n" "unat (in_e k - in_w k) = l" "length (in_buf k) = 128" using in_counts [OF assms(1)] by metis
  have "l \<noteq> 0" using assms(2) c(1,2) by (cases l) auto
  then obtain m where m: "l = Suc m" by (cases l) auto
  have e: "in_e k - 1 = in_w k + of_nat m" using c(1,2) m by simp
  have "unat (of_nat m :: u32) = m" by (rule unat_small) (use c(3) m in simp)
  then have u: "unat (in_e k - 1 - in_w k) = m" unfolding e by simp
  show "in_size (k\<lparr>in_e := in_e k - 1\<rparr>)" using c m u by (simp add: in_size_def INPUT_BUF_def)
  show "ready (k\<lparr>in_e := in_e k - 1\<rparr>) = ready k" by (simp add: ready_def)
  have r: "editing k = ring (in_buf k) (in_w k) m @ [in_buf k ! unat ((in_w k + of_nat m) mod of_nat 128)]"
    using ring_Suc [of "in_buf k" "in_w k" m] c(5,6) m by (simp add: editing_def)
  show "editing (k\<lparr>in_e := in_e k - 1\<rparr>) = butlast (editing k)" unfolding r using u by (simp add: editing_def)
  show "in_last k = last (editing k)" unfolding r by (simp add: in_last_def e INPUT_BUF_def)
  show "editing k \<noteq> []" unfolding r by simp
  show "unat (in_e k - 1 - in_w k) = unat (in_e k - in_w k) - 1" using u c(5) m by simp
qed

lemma in_room: "in_size k \<Longrightarrow> in_e k - in_r k < of_nat INPUT_BUF \<longleftrightarrow> length (ready k) + length (editing k) < INPUT_BUF"
  by (erule in_counts) (simp add: word_less_nat_alt INPUT_BUF_def ready_def editing_def)

lemma lines_store:
  assumes "in_size k" "in_e k - in_r k < of_nat INPUT_BUF"
  shows "in_size (in_store c k)" "ready (in_store c k) = ready k" "editing (in_store c k) = editing k @ [c]"
    "in_e (in_store c k) = in_r (in_store c k) + of_nat INPUT_BUF \<longleftrightarrow> length (ready k) + length (editing k) + 1 = INPUT_BUF"
proof -
  obtain n l where c: "in_w k = in_r k + of_nat n" "in_e k = in_r k + of_nat (n + l)" "n + l \<le> 128"
    "unat (in_w k - in_r k) = n" "unat (in_e k - in_w k) = l" "unat (in_e k - in_r k) = n + l" "length (in_buf k) = 128"
    using in_counts [OF assms(1)] by metis
  have lt: "n + l < 128" using assms(2) c(6) by (simp add: word_less_nat_alt INPUT_BUF_def)
  have "unat (of_nat (Suc l) :: u32) = Suc l" by (rule unat_small) (use lt in simp)
  moreover have e: "in_e k + 1 = in_w k + of_nat (Suc l)" using c(1,2) by simp
  ultimately have u: "unat (in_e k + 1 - in_w k) = Suc l" unfolding e by simp
  have p: "in_e k = in_w k + of_nat l" using c(1,2) by simp
  show "in_size (in_store c k)" using c lt u by (simp add: in_size_def in_store_def INPUT_BUF_def)
  show "ready (in_store c k) = ready k"
    using ring_other [of "in_buf k" n "n + l" "in_r k" c] c lt by (simp add: ready_def in_store_def INPUT_BUF_def)
  show "editing (in_store c k) = editing k @ [c]"
    using ring_put [of "in_buf k" l "in_w k" c] c lt u by (simp add: editing_def in_store_def INPUT_BUF_def p)
  have "in_e k + 1 = in_r k + 128 \<longleftrightarrow> in_e k - in_r k = 127" by (auto simp: algebra_simps)
  also have "\<dots> \<longleftrightarrow> n + l = 127" using c(6) by (simp add: word_unat_eq_iff)
  finally show "in_e (in_store c k) = in_r (in_store c k) + of_nat INPUT_BUF \<longleftrightarrow> length (ready k) + length (editing k) + 1 = INPUT_BUF"
    using c by (auto simp: in_store_def INPUT_BUF_def ready_def editing_def)
qed

lemma lines_commit:
  assumes "in_size k"
  shows "in_size (k\<lparr>in_w := in_e k\<rparr>)" "ready (k\<lparr>in_w := in_e k\<rparr>) = ready k @ editing k" "editing (k\<lparr>in_w := in_e k\<rparr>) = []"
proof -
  obtain n l where c: "in_w k = in_r k + of_nat n" "n + l \<le> 128"
    "unat (in_w k - in_r k) = n" "unat (in_e k - in_w k) = l" "unat (in_e k - in_r k) = n + l" "length (in_buf k) = 128"
    using in_counts [OF assms] by metis
  then show "in_size (k\<lparr>in_w := in_e k\<rparr>)" by (simp add: in_size_def INPUT_BUF_def)
  show "ready (k\<lparr>in_w := in_e k\<rparr>) = ready k @ editing k"
    using c ring_add [of "in_buf k" "in_r k" n l] by (simp add: ready_def editing_def)
  show "editing (k\<lparr>in_w := in_e k\<rparr>) = []" by (simp add: editing_def)
qed

lemma lines_take:
  assumes "in_size k" "in_r k \<noteq> in_w k"
  shows "in_size (k\<lparr>in_r := in_r k + 1\<rparr>)" "ready k = in_buf k ! unat (in_r k mod of_nat INPUT_BUF) # ready (k\<lparr>in_r := in_r k + 1\<rparr>)"
    "editing (k\<lparr>in_r := in_r k + 1\<rparr>) = editing k"
proof -
  obtain n l where c: "in_w k = in_r k + of_nat n" "n + l \<le> 128"
    "unat (in_w k - in_r k) = n" "unat (in_e k - in_w k) = l" "length (in_buf k) = 128"
    using in_counts [OF assms(1)] by metis
  obtain m where m: "n = Suc m" using c(1) assms(2) by (cases n) auto
  have "unat (of_nat m :: u32) = m" by (rule unat_small) (use c(2) m in simp)
  moreover have "in_w k - (in_r k + 1) = of_nat m" using c(1) m by simp
  ultimately have u: "unat (in_w k - (in_r k + 1)) = m" by simp
  show "in_size (k\<lparr>in_r := in_r k + 1\<rparr>)" using c m u by (simp add: in_size_def INPUT_BUF_def)
  show "ready k = in_buf k ! unat (in_r k mod of_nat INPUT_BUF) # ready (k\<lparr>in_r := in_r k + 1\<rparr>)"
    using ring_Cons [of "in_buf k" "in_r k" m] c m u by (simp add: ready_def INPUT_BUF_def)
  show "editing (k\<lparr>in_r := in_r k + 1\<rparr>) = editing k" by (simp add: editing_def)
qed

section \<open>One character\<close>

definition in_sane :: "kernel \<Rightarrow> bool" where
  "in_sane s \<longleftrightarrow> in_size (k_cons s) \<and> cursor s < 1920 \<and> \<not> cn_panicked (k_cons s)"

text \<open>The devices that characters come from.\<close>

definition sources :: "console \<Rightarrow> u32 \<times> u8 list \<times> u8 list \<times> bool \<times> bool" where
  "sources k = (kb_shift k, hw_kbd k, hw_rx k, ua_present k, hw_com1 k)"

text \<open>When the ready bytes change the readers are woken up.\<close>

definition edits :: "kernel \<Rightarrow> kernel \<Rightarrow> bool" where
  "edits s t \<longleftrightarrow> k_sync t = k_sync s \<and> sources (k_cons t) = sources (k_cons s) \<and>
     (kprocs t = kprocs s \<and> ready (k_cons t) = ready (k_cons s) \<or> kprocs t = wakeup1 ChInput (kprocs s))"

lemma wakeup1_twice: "wakeup1 q (wakeup1 q ps) = wakeup1 q ps"
  by (simp add: wakeup1_def)

lemma edits_refl: "edits s s"
  by (simp add: edits_def)

lemma edits_trans: "edits s t \<Longrightarrow> edits t u \<Longrightarrow> edits s u"
  by (auto simp: edits_def wakeup1_twice)

lemma drawn_edits:
  assumes "drawn s t"
  shows "lines_of (k_cons t) = lines_of (k_cons s)" "in_size (k_cons t) = in_size (k_cons s)" "edits s t"
proof -
  have "hw_com1 (k_cons t) = hw_com1 (k_cons s)" using assms by (cases "k_cons s"; cases "k_cons t"; simp add: drawn_def)
  then show "lines_of (k_cons t) = lines_of (k_cons s)" "in_size (k_cons t) = in_size (k_cons s)" "edits s t"
    using assms by (simp_all add: edits_def sources_def drawn_cons [OF assms] in_size_def ready_def editing_def) (simp_all add: drawn_def)
qed

lemma sane_draw:
  assumes "in_sane s"
  shows "\<exists>t. consputc c s = Inr ((), t) \<and> drawn s t \<and> in_sane t"
  using consputc_run [of s c] assms drawn_edits(2) drawn_cons(1) by (fastforce simp: in_sane_def)

lemma erase_run:
  assumes "in_sane s" "in_e (k_cons s) \<noteq> in_w (k_cons s)"
  shows "\<exists>t. erase s = Inr ((), t) \<and> in_sane t \<and> edits s t \<and> lines_of (k_cons t) = (ready (k_cons s), butlast (editing (k_cons s))) \<and>
    in_w (k_cons t) = in_w (k_cons s) \<and> in_e (k_cons t) = in_e (k_cons s) - 1"
proof -
  let ?k = "(k_cons s)\<lparr>in_e := in_e (k_cons s) - 1\<rparr>"
  let ?s = "cons_upd (\<lambda>k. k\<lparr>in_e := in_e k - 1\<rparr>) s"
  have sz: "in_size (k_cons s)" using assms(1) by (simp add: in_sane_def)
  note l = lines_erase [OF sz assms(2)]
  have "in_sane ?s" using assms(1) l(1) by (simp add: in_sane_def cursor_def)
  from sane_draw [OF this, of BACKSPACE] obtain t where t: "consputc BACKSPACE ?s = Inr ((), t)" "drawn ?s t" "in_sane t" by blast
  have "edits s ?s" using l(2) by (simp add: edits_def sources_def)
  then have "edits s t" using drawn_edits(3) [OF t(2)] by (rule edits_trans)
  moreover have "erase s = Inr ((), t)" using t(1) by (simp add: erase_def op_defs)
  ultimately show ?thesis using t l drawn_edits(1) [OF t(2)] drawn_cons(4,5) [OF t(2)] by simp
qed

lemma kill_line_run:
  assumes "in_sane s" "10 \<notin> set (editing (k_cons s))" "unat (in_e (k_cons s) - in_w (k_cons s)) = n"
  shows "\<exists>t. kill_line n s = Inr ((), t) \<and> in_sane t \<and> edits s t \<and> lines_of (k_cons t) = (ready (k_cons s), [])"
  using assms
proof (induction n arbitrary: s)
  case 0
  then have "editing (k_cons s) = []" by (simp add: editing_def)
  with 0 show ?case using edits_refl by (auto simp: op_defs)
next
  case (Suc n)
  then have ne: "in_e (k_cons s) \<noteq> in_w (k_cons s)" by auto
  have sz: "in_size (k_cons s)" using Suc.prems(1) by (simp add: in_sane_def)
  have nl: "in_last (k_cons s) \<noteq> 10" using lines_erase(4,5) [OF sz ne] Suc.prems(2) last_in_set by metis
  from erase_run [OF Suc.prems(1) ne] obtain t where t: "erase s = Inr ((), t)" "in_sane t" "edits s t"
    "lines_of (k_cons t) = (ready (k_cons s), butlast (editing (k_cons s)))" "in_w (k_cons t) = in_w (k_cons s)"
    "in_e (k_cons t) = in_e (k_cons s) - 1" by blast
  have n: "unat (in_e (k_cons t) - in_w (k_cons t)) = n" using lines_erase(6) [OF sz ne] t(5,6) Suc.prems(3) by simp
  have "10 \<notin> set (editing (k_cons t))" using t(4) Suc.prems(2) by (auto dest: in_set_butlastD)
  from Suc.IH [OF t(2) this n] obtain u where u: "kill_line n t = Inr ((), u)" "in_sane u" "edits t u" "lines_of (k_cons u) = (ready (k_cons t), [])"
    by blast
  have "kill_line (Suc n) s = Inr ((), u)" using t(1) u(1) ne nl by (simp add: op_defs)
  then show ?case using u t edits_trans [OF t(3) u(3)] by simp
qed

lemma editing_empty: "in_size k \<Longrightarrow> in_e k = in_w k \<longleftrightarrow> editing k = []"
  using lines_erase(5) [of k] by (auto simp: editing_def)

lemma store_run:
  assumes sane: "in_sane s" and room: "in_e (k_cons s) - in_r (k_cons s) < of_nat INPUT_BUF" and nl: "10 \<notin> set (editing (k_cons s))"
    and calm: "calm (k_sync s)" "lock_free LkPtable (k_sync s)"
  shows "\<exists>t. bindM (modM (cons_upd (in_store c))) (\<lambda>_. bindM (consputc (ucast c)) (\<lambda>_. bindM (getM k_cons) (\<lambda>k.
       if c = 10 \<or> c = ctl (CHR ''D'') \<or> in_e k = in_r k + of_nat INPUT_BUF then
         bindM (modM (cons_upd (\<lambda>k. k\<lparr>in_w := in_e k\<rparr>))) (\<lambda>_. wakeup ChInput)
       else retM ()))) s = Inr ((), t) \<and> in_sane t \<and> edits s t \<and> 10 \<notin> set (editing (k_cons t)) \<and>
    lines_of (k_cons t) = (let line = editing (k_cons s) @ [c] in
      if c = 10 \<or> c = ctl (CHR ''D'') \<or> length (ready (k_cons s)) + length line = INPUT_BUF
      then (ready (k_cons s) @ line, []) else (ready (k_cons s), line))"
    (is "\<exists>t. ?m s = _ \<and> _")
proof -
  let ?s = "cons_upd (in_store c) s"
  have sz: "in_size (k_cons s)" using sane by (simp add: in_sane_def)
  note l = lines_store [OF sz room, of c]
  have "in_sane ?s" using sane l(1) by (simp add: in_sane_def cursor_def in_store_def)
  from sane_draw [OF this, of "ucast c"] obtain t where t: "consputc (ucast c) ?s = Inr ((), t)" "drawn ?s t" "in_sane t" by blast
  have "edits s ?s" using l(2) by (simp add: edits_def sources_def) (simp add: in_store_def)
  then have e: "edits s t" using drawn_edits(3) [OF t(2)] by (rule edits_trans)
  have lt: "ready (k_cons t) = ready (k_cons s)" "editing (k_cons t) = editing (k_cons s) @ [c]" using drawn_edits(1) [OF t(2)] l(2,3) by simp_all
  have full: "in_e (k_cons t) = in_r (k_cons t) + of_nat INPUT_BUF \<longleftrightarrow> length (ready (k_cons s)) + length (editing (k_cons s)) + 1 = INPUT_BUF"
    using l(4) drawn_cons(3,5) [OF t(2)] by simp
  let ?done = "c = 10 \<or> c = ctl (CHR ''D'') \<or> in_e (k_cons t) = in_r (k_cons t) + of_nat INPUT_BUF"
  have step: "?m s = (if ?done then bindM (modM (cons_upd (\<lambda>k. k\<lparr>in_w := in_e k\<rparr>))) (\<lambda>_. wakeup ChInput) else retM ()) t"
    using t(1) by (simp add: op_defs)
  show ?thesis
  proof (cases ?done)
    case False
    with step t e lt full nl show ?thesis by (auto simp: op_defs Let_def)
  next
    case True
    let ?u = "cons_upd (\<lambda>k. k\<lparr>in_w := in_e k\<rparr>) t"
    let ?v = "?u\<lparr>k_ptab := tab_upd (wakeup1 ChInput) (k_ptab ?u)\<rparr>"
    note lc = lines_commit [of "k_cons t"]
    have szt: "in_size (k_cons t)" using t(3) by (simp add: in_sane_def)
    have sync: "k_sync t = k_sync s" using e by (simp add: edits_def)
    have "?m s = Inr ((), ?v)" using step True calm sync by (simp add: op_defs wakeup_calm)
    moreover have "in_sane ?v" using t(3) lc(1) [OF szt] by (simp add: in_sane_def cursor_def)
    moreover have "edits s ?v" using e sync by (auto simp: edits_def sources_def wakeup1_twice)
    moreover have "lines_of (k_cons ?v) = (ready (k_cons s) @ editing (k_cons s) @ [c], [])" using lc [OF szt] lt by simp
    moreover have "c = 10 \<or> c = ctl (CHR ''D'') \<or> length (ready (k_cons s)) + length (editing (k_cons s) @ [c]) = INPUT_BUF"
      using True full by simp
    ultimately show ?thesis unfolding Let_def by (intro exI [of _ ?v]) auto
  qed
qed

lemma cons_char_run:
  assumes sane: "in_sane s" and nl: "10 \<notin> set (editing (k_cons s))" and calm: "calm (k_sync s)" "lock_free LkPtable (k_sync s)"
  shows "\<exists>t. cons_char c s = Inr ((), t) \<and> in_sane t \<and> edits s t \<and> 10 \<notin> set (editing (k_cons t)) \<and>
    lines_of (k_cons t) = line_key c (lines_of (k_cons s))"
proof -
  have sz: "in_size (k_cons s)" using sane by (simp add: in_sane_def)
  consider "c = ctl (CHR ''U'')" | "c \<noteq> ctl (CHR ''U'')" "c = ctl (CHR ''H'') \<or> c = 0x7F"
    | "c \<noteq> ctl (CHR ''U'')" "\<not> (c = ctl (CHR ''H'') \<or> c = 0x7F)" "c \<noteq> 0 \<and> in_e (k_cons s) - in_r (k_cons s) < of_nat INPUT_BUF"
    | "c \<noteq> ctl (CHR ''U'')" "\<not> (c = ctl (CHR ''H'') \<or> c = 0x7F)" "\<not> (c \<noteq> 0 \<and> in_e (k_cons s) - in_r (k_cons s) < of_nat INPUT_BUF)"
    by blast
  then show ?thesis
  proof cases
    case 1
    from kill_line_run [OF sane nl refl] 1 show ?thesis by (auto simp: cons_char_def line_key_def op_defs)
  next
    case 2
    show ?thesis
    proof (cases "in_e (k_cons s) = in_w (k_cons s)")
      case True
      with 2 sane nl edits_refl editing_empty [OF sz] show ?thesis by (auto simp: cons_char_def line_key_def op_defs)
    next
      case False
      from erase_run [OF sane this] 2 nl False show ?thesis
        by (auto simp: cons_char_def line_key_def op_defs dest: in_set_butlastD)
    qed
  next
    case 3
    then have r: "length (ready (k_cons s)) + length (editing (k_cons s)) < INPUT_BUF" using in_room [OF sz] by simp
    define d where "d = (if c = 13 then 10 else c)"
    have "cons_char c s = bindM (modM (cons_upd (in_store d))) (\<lambda>_. bindM (consputc (ucast d)) (\<lambda>_. bindM (getM k_cons) (\<lambda>k.
        if d = 10 \<or> d = ctl (CHR ''D'') \<or> in_e k = in_r k + of_nat INPUT_BUF
        then bindM (modM (cons_upd (\<lambda>k. k\<lparr>in_w := in_e k\<rparr>))) (\<lambda>_. wakeup ChInput) else retM ()))) s"
      unfolding cons_char_def Let_def d_def [symmetric] using 3
      by (subst run_bindM_Inr [OF run_getM]) (simp only: simp_thms if_True if_False)
    with store_run [OF sane _ nl calm, of d] 3 r show ?thesis
      by (simp only: line_key_def prod.case simp_thms if_True if_False Let_def d_def [symmetric])
  next
    case 4
    then have "c = 0 \<or> \<not> length (ready (k_cons s)) + length (editing (k_cons s)) < INPUT_BUF" using in_room [OF sz] by simp
    with 4 sane nl edits_refl show ?thesis by (auto simp: cons_char_def line_key_def op_defs)
  qed
qed

section \<open>Interrupts\<close>

lemma sync_indep_erase [sync_indep_intros]: "sync_indep erase"
  unfolding erase_def by (auto intro!: sync_indep_intros)

lemma sync_indep_kill_line [sync_indep_intros]: "sync_indep (kill_line n)"
  by (induction n) (auto intro!: sync_indep_intros)

lemma neutral_cons_char: "lock_neutral {LkPtable} (cons_char c)"
  unfolding cons_char_def Let_def by (intro neutral_intros sync_indep_intros) auto

lemma neutral_consoleintr_loop: "sync_indep getc \<Longrightarrow> lock_neutral {LkPtable} (consoleintr_loop n getc dump)"
proof (induction n arbitrary: dump)
  case (Suc n)
  then have "lock_neutral {LkPtable} getc" by (intro neutral_intros)
  with Suc show ?case unfolding consoleintr_loop.simps
    by (intro neutral_bindM neutral_if neutral_cons_char) (auto intro!: neutral_intros sync_indep_intros)
qed (simp add: neutral_intros sync_indep_intros)

definition wakes :: "kernel \<Rightarrow> kernel \<Rightarrow> bool" where
  "wakes s t \<longleftrightarrow> kprocs t = kprocs s \<and> ready (k_cons t) = ready (k_cons s) \<or> kprocs t = wakeup1 ChInput (kprocs s)"

lemma wakes_trans: "wakes s t \<Longrightarrow> wakes t u \<Longrightarrow> wakes s u"
  by (auto simp: wakes_def wakeup1_twice)

text \<open>
  What the interrupt handler relies on in a device: reading a character gives the next one of those that wait, or a
  negative number when none does, and has no other effect.
\<close>

locale char_source =
  fixes getc :: "int kop"
    and chars :: "console \<Rightarrow> u8 list"
    and live :: "console \<Rightarrow> bool"
  assumes at_end: "live (k_cons s) \<Longrightarrow> chars (k_cons s) = [] \<Longrightarrow> getc s = Inr (- 1, s)"
    and next_char: "live (k_cons s) \<Longrightarrow> chars (k_cons s) = c # cs \<Longrightarrow>
      \<exists>k. getc s = Inr (uint c, s\<lparr>k_cons := k\<rparr>) \<and> chars k = cs \<and> live k \<and>
        k\<lparr>kb_shift := 0, hw_kbd := [], hw_rx := []\<rparr> = (k_cons s)\<lparr>kb_shift := 0, hw_kbd := [], hw_rx := []\<rparr>"
    and same_source: "sources k = sources l \<Longrightarrow> chars k = chars l \<and> live k = live l"
    and enough: "length (chars k) \<le> length (hw_kbd k) + length (hw_rx k)"
    and indep: "sync_indep getc"
begin

lemma loop_run:
  assumes "in_sane s" "10 \<notin> set (editing (k_cons s))" "calm (k_sync s)" "lock_free LkPtable (k_sync s)" "live (k_cons s)"
    "ctl (CHR ''P'') \<notin> set (chars (k_cons s))" "length (chars (k_cons s)) < n"
  shows "\<exists>t. consoleintr_loop n getc dump s = Inr (dump, t) \<and> in_sane t \<and> 10 \<notin> set (editing (k_cons t)) \<and> k_sync t = k_sync s \<and>
    chars (k_cons t) = [] \<and> wakes s t \<and> lines_of (k_cons t) = fold line_key (chars (k_cons s)) (lines_of (k_cons s))"
  using assms
proof (induction n arbitrary: s)
  case (Suc n)
  show ?case
  proof (cases "chars (k_cons s)")
    case Nil
    with Suc.prems at_end [OF Suc.prems(5)] show ?thesis by (auto simp: op_defs wakes_def)
  next
    case (Cons c cs)
    from next_char [OF Suc.prems(5) Cons] obtain k where k: "getc s = Inr (uint c, s\<lparr>k_cons := k\<rparr>)" "chars k = cs" "live k"
      "k\<lparr>kb_shift := 0, hw_kbd := [], hw_rx := []\<rparr> = (k_cons s)\<lparr>kb_shift := 0, hw_kbd := [], hw_rx := []\<rparr>" by blast
    let ?s = "s\<lparr>k_cons := k\<rparr>"
    have f: "in_buf k = in_buf (k_cons s)" "in_r k = in_r (k_cons s)" "in_w k = in_w (k_cons s)" "in_e k = in_e (k_cons s)"
      "cn_panicked k = cn_panicked (k_cons s)" "hw_cursor k = hw_cursor (k_cons s)"
      using k(4) by (cases k; cases "k_cons s"; simp)+
    have l: "lines_of k = lines_of (k_cons s)" "in_sane ?s" using Suc.prems(1) f by (simp_all add: ready_def editing_def in_sane_def in_size_def cursor_def)
    from cons_char_run [OF l(2), of c] Suc.prems(2-4) l(1) obtain t where t: "cons_char c ?s = Inr ((), t)" "in_sane t" "edits ?s t"
      "10 \<notin> set (editing (k_cons t))" "lines_of (k_cons t) = line_key c (lines_of (k_cons s))" by auto
    have e: "sources (k_cons t) = sources k" "k_sync t = k_sync s" "wakes s t" using t(3) l(1) by (auto simp: edits_def wakes_def)
    have t2: "chars (k_cons t) = cs" "live (k_cons t)" using same_source [OF e(1)] k by simp_all
    have "ctl (CHR ''P'') \<noteq> c" "ctl (CHR ''P'') \<notin> set cs" "length cs < n" using Suc.prems(6,7) Cons by auto
    with Suc.IH [OF t(2,4)] Suc.prems(3,4) e t2 obtain u where u: "consoleintr_loop n getc dump t = Inr (dump, u)" "in_sane u"
      "10 \<notin> set (editing (k_cons u))" "k_sync u = k_sync s" "chars (k_cons u) = []" "wakes t u"
      "lines_of (k_cons u) = fold line_key cs (lines_of (k_cons t))" by auto
    have "uint c \<noteq> uint (ctl (CHR ''P''))" using \<open>ctl (CHR ''P'') \<noteq> c\<close> by (metis word_uint_eqI)
    then have "consoleintr_loop (Suc n) getc dump s = Inr (dump, u)" using k(1) t(1) u(1) by (simp add: op_defs)
    with u t e Cons wakes_trans [OF e(3) u(6)] show ?thesis by simp
  qed
qed simp

lemma consoleintr_run:
  assumes "in_sane s" "10 \<notin> set (editing (k_cons s))" "calm (k_sync s)" "lock_free LkPtable (k_sync s)" "lock_free LkCons (k_sync s)"
    "live (k_cons s)" "ctl (CHR ''P'') \<notin> set (chars (k_cons s))"
  shows "\<exists>t. consoleintr getc s = Inr ((), t) \<and> in_sane t \<and> 10 \<notin> set (editing (k_cons t)) \<and> k_sync t = k_sync s \<and>
    chars (k_cons t) = [] \<and> wakes s t \<and> lines_of (k_cons t) = fold line_key (chars (k_cons s)) (lines_of (k_cons s))"
proof -
  let ?n = "Suc (length (hw_kbd (k_cons s)) + length (hw_rx (k_cons s)))"
  have "length (chars (k_cons s)) < ?n" using enough [of "k_cons s"] by simp
  with loop_run [where n = ?n and dump = False and s = s] assms obtain t where t: "consoleintr_loop ?n getc False s = Inr (False, t)"
    "in_sane t" "10 \<notin> set (editing (k_cons t))" "k_sync t = k_sync s"
    "chars (k_cons t) = []" "wakes s t" "lines_of (k_cons t) = fold line_key (chars (k_cons s)) (lines_of (k_cons s))" by blast
  have "with_lock LkCons (consoleintr_loop ?n getc False) s = consoleintr_loop ?n getc False s"
    using assms(3-5) by (intro with_lock_neutral [OF neutral_consoleintr_loop [OF indep]]) auto
  then have "consoleintr getc s = Inr ((), t)" using t(1) unfolding consoleintr_def by (simp add: op_defs)
  with t show ?thesis by blast
qed

end

text \<open>The characters behind a sequence of scan codes.\<close>

fun kbd_chars :: "u32 \<Rightarrow> u8 list \<Rightarrow> u8 list" where
  "kbd_chars shift [] = []"
| "kbd_chars shift (d # ds) = snd (kbd_code shift d) # kbd_chars (fst (kbd_code shift d)) ds"

lemma length_kbd_chars [simp]: "length (kbd_chars shift ds) = length ds"
  by (induction ds arbitrary: shift) simp_all

interpretation kb: char_source kbdgetc "\<lambda>k. kbd_chars (kb_shift k) (hw_kbd k)" "\<lambda>_. True"
proof
  fix s :: kernel and c cs
  show "kbdgetc s = Inr (- 1, s)" if "kbd_chars (kb_shift (k_cons s)) (hw_kbd (k_cons s)) = []"
    using that by (cases "hw_kbd (k_cons s)") (simp_all add: kbdgetc_def inb_def port_read_def port_taken_def op_defs Let_def)
  assume "kbd_chars (kb_shift (k_cons s)) (hw_kbd (k_cons s)) = c # cs"
  then obtain d ds where d: "hw_kbd (k_cons s) = d # ds" "c = snd (kbd_code (kb_shift (k_cons s)) d)"
    "cs = kbd_chars (fst (kbd_code (kb_shift (k_cons s)) d)) ds" by (cases "hw_kbd (k_cons s)") auto
  let ?k = "(k_cons s)\<lparr>hw_kbd := ds, kb_shift := fst (kbd_code (kb_shift (k_cons s)) d)\<rparr>"
  have "kbdgetc s = Inr (uint c, s\<lparr>k_cons := ?k\<rparr>)"
    using d by (simp add: kbdgetc_def inb_def port_read_def port_taken_def op_defs Let_def cons_upd_def split_beta)
  then show "\<exists>k. kbdgetc s = Inr (uint c, s\<lparr>k_cons := k\<rparr>) \<and> kbd_chars (kb_shift k) (hw_kbd k) = cs \<and> True \<and>
      k\<lparr>kb_shift := 0, hw_kbd := [], hw_rx := []\<rparr> = (k_cons s)\<lparr>kb_shift := 0, hw_kbd := [], hw_rx := []\<rparr>"
    using d(3) by (intro exI [of _ ?k]) simp
qed (auto simp: sources_def intro: sync_indep_intros)

interpretation ua: char_source uartgetc "\<lambda>k. if ua_present k then hw_rx k else []" "\<lambda>k. ua_present k \<longrightarrow> hw_com1 k"
proof
  fix s :: kernel and c cs
  assume live: "ua_present (k_cons s) \<longrightarrow> hw_com1 (k_cons s)"
  show "uartgetc s = Inr (- 1, s)" if "(if ua_present (k_cons s) then hw_rx (k_cons s) else []) = []"
    using that live by (cases "ua_present (k_cons s)") (simp_all add: uartgetc_def COM1_def inb_def port_read_def port_taken_def op_defs Let_def)
  assume "(if ua_present (k_cons s) then hw_rx (k_cons s) else []) = c # cs"
  then have d: "ua_present (k_cons s)" "hw_rx (k_cons s) = c # cs" by (simp_all split: if_splits)
  let ?k = "(k_cons s)\<lparr>hw_rx := cs\<rparr>"
  have "uartgetc s = Inr (uint c, s\<lparr>k_cons := ?k\<rparr>)"
    using d live by (simp add: uartgetc_def COM1_def inb_def port_read_def port_taken_def op_defs Let_def cons_upd_def)
  then show "\<exists>k. uartgetc s = Inr (uint c, s\<lparr>k_cons := k\<rparr>) \<and> (if ua_present k then hw_rx k else []) = cs \<and> (ua_present k \<longrightarrow> hw_com1 k) \<and>
      k\<lparr>kb_shift := 0, hw_kbd := [], hw_rx := []\<rparr> = (k_cons s)\<lparr>kb_shift := 0, hw_kbd := [], hw_rx := []\<rparr>"
    using d live by (intro exI [of _ ?k]) simp
qed (auto simp: sources_def intro: sync_indep_intros)

lemma wakes_readers:
  assumes "wakes s t" "ready (k_cons t) \<noteq> ready (k_cons s)" "p \<in> set (kprocs t)"
  shows "\<not> (p_state p = SLEEPING \<and> p_chan p = ChInput)"
  using assms by (auto simp: wakes_def wakeup1_def split: if_splits)

section \<open>Reading lines\<close>

text \<open>
  The bytes a reader gets that asks for \<open>n\<close> bytes, and those it leaves: up to the end of a line or a control-D, which stays for the
  next reader unless it comes first. Without one of them there is nothing to return yet.
\<close>

fun take_line :: "nat \<Rightarrow> bool \<Rightarrow> u8 list \<Rightarrow> (u8 list \<times> u8 list) option" where
  "take_line 0 at_start bs = Some ([], bs)"
| "take_line (Suc n) at_start [] = None"
| "take_line (Suc n) at_start (c # bs) =
     (if c = ctl (CHR ''D'') then Some ([], if at_start then bs else c # bs)
      else if c = 10 then Some ([c], bs)
      else map_option (apfst (Cons c)) (take_line n False bs))"

lemma buffer_store:
  "buffer s addr N T \<Longrightarrow> i < N \<Longrightarrow> buffer (s\<lparr>k_cons := k, k_mem := (k_mem s)(T i := c)\<rparr>) addr N T"
  using kva_cong [of "s\<lparr>k_cons := k, k_mem := m\<rparr>" "s\<lparr>k_mem := m\<rparr>" for m] by (auto simp: buffer_def)

lemma consoleread_eof:
  assumes "in_size (k_cons s)" "ready (k_cons s) = ctl (CHR ''D'') # bs" "i < 2 ^ 31"
  shows "\<exists>k. consoleread_loop dst (Suc n) (of_nat i) s = Inr ((of_nat i, [], False), s\<lparr>k_cons := k, k_mem := k_mem s\<rparr>) \<and> in_size k \<and>
    lines_of k = (if i = 0 then bs else ready (k_cons s), editing (k_cons s))"
proof -
  let ?k = "k_cons s"
  let ?k1 = "?k\<lparr>in_r := in_r ?k + 1\<rparr>"
  have ne: "in_r ?k \<noteq> in_w ?k" using assms(2) by (auto simp: ready_def)
  note l = lines_take [OF assms(1) ne]
  have "(0 :: u32) < of_nat i \<longleftrightarrow> i \<noteq> 0" using assms(3) by (simp add: word_less_nat_alt unat_of_nat)
  moreover have "cons_upd (\<lambda>k. k\<lparr>in_r := in_r k - 1\<rparr>) (cons_upd (\<lambda>k. k\<lparr>in_r := in_r k + 1\<rparr>) s) = s\<lparr>k_cons := ?k, k_mem := k_mem s\<rparr>"
    "cons_upd (\<lambda>k. k\<lparr>in_r := in_r k + 1\<rparr>) s = s\<lparr>k_cons := ?k1, k_mem := k_mem s\<rparr>" by (simp_all add: cons_upd_def)
  ultimately have "consoleread_loop dst (Suc n) (of_nat i) s =
      Inr ((of_nat i, [], False), s\<lparr>k_cons := if i = 0 then ?k1 else ?k, k_mem := k_mem s\<rparr>)"
    using ne l(2) assms(2) by (simp add: op_defs Let_def)
  then show ?thesis using l assms(1,2) by (intro exI [of _ "if i = 0 then ?k1 else ?k"]) simp
qed

lemma consoleread_byte:
  assumes "in_size (k_cons s)" "ready (k_cons s) = c # bs" "c \<noteq> ctl (CHR ''D'')" "buffer s addr N T" "i < N"
  shows "\<exists>k. consoleread_loop (AtMem addr) (Suc n) (of_nat i) s =
      (if c = 10 then retM (of_nat (Suc i), [c], False)
       else bindM (consoleread_loop (AtMem addr) n (of_nat (Suc i))) (\<lambda>(j, cs, more). retM (j, c # cs, more)))
      (s\<lparr>k_cons := k, k_mem := (k_mem s)(T i := c)\<rparr>) \<and> in_size k \<and> lines_of k = (bs, editing (k_cons s))"
proof -
  let ?k = "k_cons s" and ?s = "cons_upd (\<lambda>k. k\<lparr>in_r := in_r k + 1\<rparr>) s"
  have ne: "in_r ?k \<noteq> in_w ?k" using assms(2) by (auto simp: ready_def)
  note l = lines_take [OF assms(1) ne]
  have "kva True ?s (addr + of_nat i) = Some (T i)"
    using assms(4,5) kva_cong [of ?s s] unfolding buffer_def by (auto simp: cons_upd_def dest: spec [of _ "k_mem s"])
  then have "put_bytes (AtMem addr) (of_nat i) [c] ?s = Inr ((), s\<lparr>k_cons := ?k\<lparr>in_r := in_r ?k + 1\<rparr>, k_mem := (k_mem s)(T i := c)\<rparr>)"
    by (simp add: put_bytes_def vstore8_def op_defs cons_upd_def)
  with assms(2,3) ne l show ?thesis
    by (intro exI [of _ "?k\<lparr>in_r := in_r ?k + 1\<rparr>"]) (simp add: op_defs Let_def add.commute)
qed

lemma consoleread_loop_run:
  assumes "in_size (k_cons s)" "buffer s addr N T" "i + n = N" "N < 2 ^ 31" "take_line n (i = 0) (ready (k_cons s)) = Some (cs, rest)"
  shows "\<exists>k m. consoleread_loop (AtMem addr) n (of_nat i) s = Inr ((of_nat (i + length cs), cs, False), s\<lparr>k_cons := k, k_mem := m\<rparr>) \<and>
    in_size k \<and> lines_of k = (rest, editing (k_cons s)) \<and> i + length cs \<le> N \<and>
    (\<forall>j < length cs. m (T (i + j)) = cs ! j) \<and> (\<forall>a. a \<notin> T ` {i..<i + length cs} \<longrightarrow> m a = k_mem s a)"
  using assms
proof (induction n arbitrary: i s cs)
  case 0
  then show ?case by (intro exI [of _ "k_cons s"] exI [of _ "k_mem s"]) (auto simp: op_defs)
next
  case (Suc n)
  obtain c bs where r: "ready (k_cons s) = c # bs" using Suc.prems(5) by (cases "ready (k_cons s)") auto
  have lt: "i < N" using Suc.prems(3) by simp
  show ?case
  proof (cases "c = ctl (CHR ''D'')")
    case True
    from consoleread_eof [of s bs i "AtMem addr" n] Suc.prems(1,4) r True lt obtain k where
      "consoleread_loop (AtMem addr) (Suc n) (of_nat i) s = Inr ((of_nat i, [], False), s\<lparr>k_cons := k, k_mem := k_mem s\<rparr>)" "in_size k"
      "lines_of k = (if i = 0 then bs else ready (k_cons s), editing (k_cons s))" by auto
    with True r Suc.prems(3,5) lt show ?thesis by (intro exI [of _ k] exI [of _ "k_mem s"]) auto
  next
    case False
    let ?m = "(k_mem s)(T i := c)"
    from consoleread_byte [OF Suc.prems(1) r False Suc.prems(2) lt, of n] obtain k1 where k1:
      "consoleread_loop (AtMem addr) (Suc n) (of_nat i) s =
        (if c = 10 then retM (of_nat (Suc i), [c], False)
         else bindM (consoleread_loop (AtMem addr) n (of_nat (Suc i))) (\<lambda>(j, cs, more). retM (j, c # cs, more))) (s\<lparr>k_cons := k1, k_mem := ?m\<rparr>)"
      "in_size k1" "lines_of k1 = (bs, editing (k_cons s))" by blast
    let ?s = "s\<lparr>k_cons := k1, k_mem := ?m\<rparr>"
    show ?thesis
    proof (cases "c = 10")
      case True
      then have cs: "cs = [c]" "rest = bs" using False r Suc.prems(5) by simp_all
      have "consoleread_loop (AtMem addr) (Suc n) (of_nat i) s = Inr ((of_nat (i + length cs), cs, False), ?s)"
        unfolding k1(1) cs using True by (simp add: retM_def)
      then show ?thesis using k1(2,3) cs lt by (intro exI [of _ k1] exI [of _ ?m]) (simp add: fun_upd_def del: consoleread_loop.simps)
    next
      case nl: False
      then obtain ds where ds: "cs = c # ds" "take_line n False bs = Some (ds, rest)" using Suc.prems(5) False r by auto
      have "take_line n (Suc i = 0) (ready (k_cons ?s)) = Some (ds, rest)" using ds(2) k1(3) by simp
      from Suc.IH [OF _ buffer_store [OF Suc.prems(2) lt] _ Suc.prems(4) this] k1(2) Suc.prems(3) obtain k m where
        k: "consoleread_loop (AtMem addr) n (of_nat (Suc i)) ?s = Inr ((of_nat (Suc i + length ds), ds, False), ?s\<lparr>k_cons := k, k_mem := m\<rparr>)"
        "in_size k" "lines_of k = (rest, editing k1)" "Suc i + length ds \<le> N" "\<forall>j < length ds. m (T (Suc i + j)) = ds ! j"
        "\<forall>a. a \<notin> T ` {Suc i..<Suc i + length ds} \<longrightarrow> m a = ?m a" by auto
      have "consoleread_loop (AtMem addr) (Suc n) (of_nat i) s = Inr ((of_nat (i + length cs), cs, False), s\<lparr>k_cons := k, k_mem := m\<rparr>)"
        unfolding k1(1) using nl k(1) ds(1) by (simp add: op_defs)
      moreover have inj: "inj_on T {..<N}" using Suc.prems(2) by (simp add: buffer_def)
      have "T i \<notin> T ` {Suc i..<Suc i + length ds}" using inj_onD [OF inj, of i] k(4) by fastforce
      then have "m (T (i + j)) = cs ! j" if "j < length cs" for j using that k(5,6) ds(1) by (cases j) auto
      moreover have "m a = k_mem s a" if "a \<notin> T ` {i..<i + length cs}" for a
      proof -
        have "a \<noteq> T i" "a \<notin> T ` {Suc i..<Suc i + length ds}" using that ds(1) by auto
        then show ?thesis using k(6) by simp
      qed
      ultimately show ?thesis using k(2-4) k1(3) ds(1) by (intro exI [of _ k] exI [of _ m]) auto
    qed
  qed
qed

section \<open>The console as a source of lines\<close>

text \<open>
  C33: The interrupt handlers of the keyboard and of the serial port edit lines: they take all characters that wait, and the bytes
  ready for readers and the line being edited are afterwards what the characters make of them, also when the counters of the
  ring wrap around. Control-U, control-H and delete change only the line being edited; when new bytes are ready no reader sleeps on.
  Covered are inputs without control-P, which prints the process table, with the cursor in the first 24 lines, the locks of the console
  and of the process table free, and no panic so far.
\<close>

theorem kbdintr_edits_line:
  assumes "in_ok (k_cons s)" and "cursor s < 24 * 80" and "\<not> cn_panicked (k_cons s)"
    and "calm (k_sync s)" and "lock_free LkPtable (k_sync s)" and "lock_free LkCons (k_sync s)"
  shows "(ctl (CHR ''P'') \<notin> set (kbd_chars (kb_shift (k_cons s)) (hw_kbd (k_cons s))) \<longrightarrow>
      (\<exists>t. kbdintr s = Inr ((), t) \<and> in_ok (k_cons t) \<and> hw_kbd (k_cons t) = [] \<and>
        lines_of (k_cons t) = fold line_key (kbd_chars (kb_shift (k_cons s)) (hw_kbd (k_cons s))) (lines_of (k_cons s)) \<and>
        (ready (k_cons t) = ready (k_cons s) \<or> (\<forall>p \<in> set (kprocs t). \<not> (p_state p = SLEEPING \<and> p_chan p = ChInput))))) \<and>
    (ua_present (k_cons s) \<and> hw_com1 (k_cons s) \<and> ctl (CHR ''P'') \<notin> set (hw_rx (k_cons s)) \<longrightarrow>
      (\<exists>t. uartintr s = Inr ((), t) \<and> in_ok (k_cons t) \<and> 
        lines_of (k_cons t) = fold line_key (hw_rx (k_cons s)) (lines_of (k_cons s)) \<and>
        (ready (k_cons t) = ready (k_cons s) \<or> (\<forall>p \<in> set (kprocs t). \<not> (p_state p = SLEEPING \<and> p_chan p = ChInput)))))"
proof (intro conjI impI)
  have s: "in_sane s" "10 \<notin> set (editing (k_cons s))" using assms(1-3) by (simp_all add: in_sane_def in_ok_def)
  {
    assume "ctl (CHR ''P'') \<notin> set (kbd_chars (kb_shift (k_cons s)) (hw_kbd (k_cons s)))"
    from kb.consoleintr_run [OF s assms(4-6) TrueI this] obtain t where t: "kbdintr s = Inr ((), t)" "in_ok (k_cons t)"
      "kbd_chars (kb_shift (k_cons t)) (hw_kbd (k_cons t)) = []" "wakes s t"
      "lines_of (k_cons t) = fold line_key (kbd_chars (kb_shift (k_cons s)) (hw_kbd (k_cons s))) (lines_of (k_cons s))"
      unfolding kbdintr_def in_ok_def in_sane_def by blast
    moreover have "hw_kbd (k_cons t) = []" using t(3) by (cases "hw_kbd (k_cons t)") simp_all
    ultimately
    show "\<exists>t. kbdintr s = Inr ((), t) \<and> in_ok (k_cons t) \<and> hw_kbd (k_cons t) = [] \<and>
        lines_of (k_cons t) = fold line_key (kbd_chars (kb_shift (k_cons s)) (hw_kbd (k_cons s))) (lines_of (k_cons s)) \<and>
        (ready (k_cons t) = ready (k_cons s) \<or> (\<forall>p \<in> set (kprocs t). \<not> (p_state p = SLEEPING \<and> p_chan p = ChInput)))"
      using wakes_readers by blast
  next
    assume "ua_present (k_cons s) \<and> hw_com1 (k_cons s) \<and> ctl (CHR ''P'') \<notin> set (hw_rx (k_cons s))"
    then have "ua_present (k_cons s) \<longrightarrow> hw_com1 (k_cons s)" "(if ua_present (k_cons s) then hw_rx (k_cons s) else []) = hw_rx (k_cons s)"
      "ctl (CHR ''P'') \<notin> set (if ua_present (k_cons s) then hw_rx (k_cons s) else [])" by simp_all
    with ua.consoleintr_run [OF s assms(4-6) this(1,3)] obtain t where "uartintr s = Inr ((), t)" "in_ok (k_cons t)"
      "wakes s t" "lines_of (k_cons t) = fold line_key (hw_rx (k_cons s)) (lines_of (k_cons s))"
      unfolding uartintr_def in_ok_def in_sane_def by auto
    then
    show "\<exists>t. uartintr s = Inr ((), t) \<and> in_ok (k_cons t) \<and> 
        lines_of (k_cons t) = fold line_key (hw_rx (k_cons s)) (lines_of (k_cons s)) \<and>
        (ready (k_cons t) = ready (k_cons s) \<or> (\<forall>p \<in> set (kprocs t). \<not> (p_state p = SLEEPING \<and> p_chan p = ChInput)))"
      using wakes_readers by blast
  }
qed

definition type_ex :: kernel where
  "type_ex = cons_upd (\<lambda>k. k\<lparr>in_r := 0xFFFFFFFF, in_w := 0xFFFFFFFF, in_e := 0xFFFFFFFF, hw_kbd := [0x26, 0xA6, 0x1F, 0x9F, 0x1C],
     ua_present := True, hw_com1 := True, hw_rx := [0x70, 0x71, 8, 0x73, 13]\<rparr>) (kernel0 (\<lambda>a. 0) [])"

lemma type_ex_keys:
  "kbd_chars 0 [0x26, 0xA6, 0x1F, 0x9F, 0x1C] = [0x6C, 0, 0x73, 0, 10]"
  "fold line_key [0x6C, 0, 0x73, 0, 10] ([], []) = ([0x6C, 0x73, 10], [])"
  "fold line_key [0x70, 0x71, 8, 0x73, 13] ([], []) = ([0x70, 0x73, 10], [])"
  "ctl (CHR ''P'') \<notin> set [0x6C, 0, 0x73, 0, 10]" "ctl (CHR ''P'') \<notin> set [0x70, 0x71, 8, 0x73, 13]"
  by code_simp+

theorem kbdintr_edits_line_witness:
  "(\<exists>t. kbdintr type_ex = Inr ((), t) \<and> ready (k_cons t) = [0x6C, 0x73, 10] \<and> editing (k_cons t) = []) \<and>
   (\<exists>t. uartintr type_ex = Inr ((), t) \<and> ready (k_cons t) = [0x70, 0x73, 10] \<and> editing (k_cons t) = [])"
proof -
  have e: "lines_of (k_cons type_ex) = ([], [])" "kb_shift (k_cons type_ex) = 0" "hw_kbd (k_cons type_ex) = [0x26, 0xA6, 0x1F, 0x9F, 0x1C]"
    "hw_rx (k_cons type_ex) = [0x70, 0x71, 8, 0x73, 13]" "ua_present (k_cons type_ex)" "hw_com1 (k_cons type_ex)"
    by (simp_all add: type_ex_def kernel0_def console0_def ready_def editing_def)
  have "in_ok (k_cons type_ex)" "cursor type_ex < 24 * 80" "\<not> cn_panicked (k_cons type_ex)"
    by (simp_all add: in_ok_def in_size_def cursor_def type_ex_def kernel0_def console0_def INPUT_BUF_def editing_def)
  moreover have "calm (k_sync type_ex)" "lock_free l (k_sync type_ex)" for l
    using quiet_sync0 by (auto simp: type_ex_def kernel0_def quiet_def)
  ultimately show ?thesis using kbdintr_edits_line [of type_ex] unfolding e type_ex_keys by (metis (no_types, lifting) e(5,6) prod.inject type_ex_keys(4,5))
qed

lemma iunlock_run:
  assumes "at_rest s c" "ip < length (k_icache s)" "sl_locked (i_lock (k_icache s ! ip)) \<noteq> 0" "sl_pid (i_lock (k_icache s ! ip)) = pid_of s c"
    "1 \<le> sint (i_ref (k_icache s ! ip))"
  shows "iunlock (Some ip) s = Inr ((), (sl_upd (SlInode ip) (\<lambda>l. l\<lparr>sl_locked := 0, sl_pid := 0\<rparr>) s)
    \<lparr>k_ptab := tab_upd (wakeup1 (ChSleep (SlInode ip))) (k_ptab s)\<rparr>)"
  using assms holdingsleep_run [OF assms(1), of "SlInode ip"] releasesleep_run [OF assms(1), of "SlInode ip"]
  by (simp add: iunlock_def ino_def op_defs)

lemma ilock_run:
  assumes "at_rest s c" "ip < length (k_icache s)" "sl_locked (i_lock (k_icache s ! ip)) = 0" "1 \<le> sint (i_ref (k_icache s ! ip))"
    "i_valid (k_icache s ! ip)"
  shows "ilock (Some ip) s = Inr ((), sl_upd (SlInode ip) (\<lambda>l. l\<lparr>sl_locked := 1, sl_pid := pid_of s c\<rparr>) s)"
  using assms acquiresleep_run [OF assms(1), of "SlInode ip"]
  by (simp add: ilock_def ino_def op_defs sl_valid_def sl_upd_def)

text \<open>
  C34: A reader of the console gets the next line: \<^verbatim>\<open>consoleread\<close>, called with its inode locked, returns the number of bytes up to the
  end of the first ready line or the number asked for, stores exactly these bytes in the buffer and nothing elsewhere in memory,
  and leaves the rest of the input. A control-D ends the line without being returned, and is kept for the next call unless it
  comes first, when the result is 0. Covered are the calls that need not sleep, that is, those for which enough input is ready.
\<close>

theorem consoleread_takes_line:
  assumes "at_rest s c" and "ip < length (k_icache s)" and "sl_locked (i_lock (k_icache s ! ip)) \<noteq> 0"
    and "sl_pid (i_lock (k_icache s ! ip)) = pid_of s c" and "1 \<le> sint (i_ref (k_icache s ! ip))" and "i_valid (k_icache s ! ip)"
    and "in_ok (k_cons s)" and "buffer s addr (unat n) T" and "unat n < 2 ^ 31"
    and "take_line (unat n) True (ready (k_cons s)) = Some (cs, rest)"
  shows "\<exists>t. consoleread ip (AtMem addr) n s = Inr ((of_nat (length cs), cs), t) \<and> in_ok (k_cons t) \<and>
    lines_of (k_cons t) = (rest, editing (k_cons s)) \<and> length cs \<le> unat n \<and>
    (\<forall>j < length cs. k_mem t (T j) = cs ! j) \<and> (\<forall>a. a \<notin> T ` {..<length cs} \<longrightarrow> k_mem t a = k_mem s a)"
proof -
  define s1 where "s1 = (sl_upd (SlInode ip) (\<lambda>l. l\<lparr>sl_locked := 0, sl_pid := 0\<rparr>) s)
    \<lparr>k_ptab := tab_upd (wakeup1 (ChSleep (SlInode ip))) (k_ptab s)\<rparr>"
  define y where "y = acquired LkCons (k_sync s)"
  have s1: "k_sync s1 = k_sync s" "k_cons s1 = k_cons s" "k_mem s1 = k_mem s" "k_cr3 s1 = k_cr3 s" by (simp_all add: s1_def sl_upd_def)
  have i1: "k_icache s1 = (k_icache s)[ip := (k_icache s ! ip)\<lparr>i_lock := (i_lock (k_icache s ! ip))\<lparr>sl_locked := 0, sl_pid := 0\<rparr>\<rparr>]"
    by (simp add: s1_def sl_upd_def)
  have c: "calm (k_sync s)" "lock_free LkCons (k_sync s)" using at_rest_calm [OF assms(1)] at_rest_free [OF assms(1)] by blast+
  have a: "liftS (acquire LkCons) s1 = Inr ((), s1\<lparr>k_sync := y\<rparr>)"
    using acquire_calm [OF c(1), of LkCons] c(2) s1(1) by (simp add: liftS_def lock_free_def y_def)
  have "buffer (s1\<lparr>k_sync := y\<rparr>) addr (unat n) T"
    using assms(8) s1(3,4) kva_cong [of "s1\<lparr>k_sync := y, k_mem := m\<rparr>" "s\<lparr>k_mem := m\<rparr>" for m] by (simp add: buffer_def)
  from consoleread_loop_run [OF _ this, of 0 "unat n" cs rest] assms(7,9,10) s1 obtain k m where
    k: "consoleread_loop (AtMem addr) (unat n) 0 (s1\<lparr>k_sync := y\<rparr>) = Inr ((of_nat (length cs), cs, False), s1\<lparr>k_sync := y, k_cons := k, k_mem := m\<rparr>)"
    "in_size k" "lines_of k = (rest, editing (k_cons s))" "length cs \<le> unat n"
    "\<forall>j < length cs. m (T j) = cs ! j" "\<forall>a. a \<notin> T ` {0..<length cs} \<longrightarrow> m a = k_mem s a" by (auto simp: in_ok_def)
  define s4 where "s4 = s1\<lparr>k_cons := k, k_mem := m\<rparr>"
  have r: "liftS (release LkCons) (s1\<lparr>k_sync := y, k_cons := k, k_mem := m\<rparr>) = Inr ((), s4)"
    using release_acquired [OF c] s1(1) by (simp add: liftS_def y_def s4_def)
  have "at_rest s4 c" using assms(1) by (rule at_rest_sync) (simp add: s4_def s1)
  then have il: "ilock (Some ip) s4 = Inr ((), sl_upd (SlInode ip) (\<lambda>l. l\<lparr>sl_locked := 1, sl_pid := pid_of s4 c\<rparr>) s4)"
    using assms(2,5,6) by (intro ilock_run) (simp_all add: s4_def i1)
  let ?t = "sl_upd (SlInode ip) (\<lambda>l. l\<lparr>sl_locked := 1, sl_pid := pid_of s4 c\<rparr>) s4"
  have "nat (sint n - sint (0 :: u32)) = unat n" using assms(9) by (simp add: sint_u32_pos)
  then have "consoleread ip (AtMem addr) n s = Inr ((of_nat (length cs), cs), ?t)"
    using iunlock_run [OF assms(1-5)] a k(1) r il unfolding s1_def [symmetric]
    by (simp add: consoleread_def consoleread_from_def op_defs)
  moreover have "k_cons ?t = k" "k_mem ?t = m" by (simp_all add: sl_upd_def s4_def)
  ultimately show ?thesis using k assms(7) by (intro exI [of _ ?t]) (auto simp: in_ok_def lessThan_atLeast0)
qed

definition read_ex :: kernel where
  "read_ex = (kernel0 (\<lambda>a. 0) [])
     \<lparr>k_sync := sync0\<lparr>cpus := cpu0\<lparr>c_proc := Some 0\<rparr> # replicate 7 cpu0\<rparr>,
      k_icache := (k_icache (kernel0 (\<lambda>a. 0) []))[0 := (k_icache (kernel0 (\<lambda>a. 0) []) ! 0)\<lparr>i_ref := 1, i_valid := True,
        i_lock := sleeplock0\<lparr>sl_locked := 1\<rparr>\<rparr>],
      k_cons := console0\<lparr>in_buf := [0x6C, 0x73, 10, 0x70] @ replicate 124 0, in_w := 3, in_e := 4\<rparr>\<rparr>"

theorem consoleread_takes_line_witness:
  "\<exists>t. consoleread 0 (AtMem 0x80001000) 8 read_ex = Inr ((3, [0x6C, 0x73, 10]), t) \<and> lines_of (k_cons t) = ([], [0x70]) \<and>
    k_mem t 0x80001000 = 0x6C"
proof -
  let ?T = "\<lambda>j. 0x80001000 + of_nat j :: u32"
  have t: "kva wr s (?T j) = Some (?T j)" "?T i = ?T j \<longleftrightarrow> i = j" if "i < 8" "j < 8" for wr s i j
  proof -
    have u: "unat (?T j) = 0x80001000 + j" if "j < 8" for j using that by (simp add: unat_add_u32 unat_of_nat)
    then show "kva wr s (?T j) = Some (?T j)" using that by (intro kva_high) (simp add: word_le_nat_alt KERNBASE_def)
    show "?T i = ?T j \<longleftrightarrow> i = j" using u [OF that(1)] u [OF that(2)] by (metis add_left_cancel)
  qed
  then have b: "buffer read_ex 0x80001000 (unat (8 :: u32)) ?T" by (auto simp: buffer_def inj_on_def)
  have l: "ready (k_cons read_ex) = [0x6C, 0x73, 10]" "editing (k_cons read_ex) = [0x70]" by code_simp+
  have "at_rest read_ex 0"
    by (simp add: at_rest_def read_ex_def quiet_def calm_def lock_free_def sync0_def cpu0_def find_cpu_def readeflags_def cur_def)
  moreover have "0 < length (k_icache read_ex)" "sl_locked (i_lock (k_icache read_ex ! 0)) \<noteq> 0"
    "sl_pid (i_lock (k_icache read_ex ! 0)) = pid_of read_ex 0" "1 \<le> sint (i_ref (k_icache read_ex ! 0))" "i_valid (k_icache read_ex ! 0)"
    by (simp_all add: read_ex_def kernel0_def NINODE_def sleeplock0_def ptab0_def NPROC_def proc0_def)
  moreover have "in_ok (k_cons read_ex)" unfolding in_ok_def l(2) by (simp add: in_size_def read_ex_def console0_def INPUT_BUF_def)
  moreover have "take_line (unat (8 :: u32)) True (ready (k_cons read_ex)) = Some ([0x6C, 0x73, 10], [])" unfolding l by code_simp
  ultimately have "\<exists>t. consoleread 0 (AtMem 0x80001000) 8 read_ex = Inr ((of_nat (length [0x6C, 0x73, 10 :: u8]), [0x6C, 0x73, 10]), t) \<and>
      in_ok (k_cons t) \<and> lines_of (k_cons t) = ([], [0x70]) \<and> length [0x6C, 0x73, 10 :: u8] \<le> unat (8 :: u32) \<and>
      (\<forall>j < length [0x6C, 0x73, 10 :: u8]. k_mem t (?T j) = [0x6C, 0x73, 10] ! j) \<and>
      (\<forall>a. a \<notin> ?T ` {..<length [0x6C, 0x73, 10 :: u8]} \<longrightarrow> k_mem t a = k_mem read_ex a)"
    unfolding l(2) [symmetric] using b by (intro consoleread_takes_line) simp_all
  then show ?thesis by (auto dest: spec [of _ 0])
qed

end
