(* ===== verification/Starvation.thy ===== *)
theory Starvation
  imports Process Sched_Policy
begin

text \<open>
  The system call \<^verbatim>\<open>settickets\<close> and the lottery: the counts that it accepts can make the running sum of the
  second loop of the lottery overflow.
\<close>

lemma settickets_run:
  assumes "at_rest s c"
  shows "settickets n s = (if sint n < 1 then Inr (- 1, s) else Inr (0, s\<lparr>k_ptab := tab_upd (set_tickets_mark c n) (k_ptab s)\<rparr>))"
proof -
  let ?m = "bindM curp (\<lambda>p. bindM (procsM (set_tickets_mark p n)) (\<lambda>_. retM 0)) :: u32 kop"
  have "lock_neutral {} ?m" unfolding curp_def by (intro neutral_intros sync_indep_intros)
  from with_lock_rest [OF this _ assms, of LkPtable] show ?thesis
    using assms by (simp add: settickets_def curp_def op_defs liftS_myproc_calm [OF at_rest_calm] procsM_run at_rest_def)
qed

text \<open>
  C5: The lottery can starve a process and leave the CPU idle. Let the running process \<open>i\<close> ask \<^verbatim>\<open>settickets\<close> for any positive
  number of tickets, and let the only other runnable process \<open>j\<close>, further down in the table, have so many that the two
  counts exceed the largest \<^verbatim>\<open>int\<close>. The call succeeds, and once \<open>i\<close> is runnable again the total saturates at that value as
  intended, but the running sum of the second loop wraps to a negative number: whatever the seed, process \<open>j\<close> is never selected,
  and every draw that does not select \<open>i\<close> selects no process at all.
\<close>

theorem lottery_overflow_idle:
  assumes "at_rest s i" and "1 \<le> sint n" and "only_runnable i j (yield_mark i (kprocs s))"
    and "1 \<le> sint (p_tickets (kprocs s ! j))" and "2147483648 \<le> unat n + unat (p_tickets (kprocs s ! j))"
  shows "\<exists>t. settickets n s = Inr (0, t) \<and> lottery_total (yield_mark i (kprocs t)) 0 = 0x7fffffff \<and>
    (\<forall>seed. fst (lottery_pick (yield_mark i (kprocs t)) seed) = (if krand_next seed mod 0x7fffffff < n then Some i else None))"
proof -
  let ?t = "s\<lparr>k_ptab := tab_upd (set_tickets_mark i n) (k_ptab s)\<rparr>"
  define ps where "ps = yield_mark i (set_tickets_mark i n (kprocs s))"
  let ?b = "p_tickets (kprocs s ! j)"
  have ij: "i < j" "j < length (kprocs s)" using assms(3) by (simp_all add: only_runnable_def yield_mark_def)
  have e: "eff_tickets (ps ! i) = n" "eff_tickets (ps ! j) = ?b"
    using ij assms(2,4) by (simp_all add: ps_def eff_tickets_def yield_mark_def set_tickets_mark_def entry_simps)
  have only: "only_runnable i j ps"
    using assms(3) by (auto simp: ps_def only_runnable_def yield_mark_def set_tickets_mark_def entry_simps)
  have pos: "sint w = int (unat w) \<and> unat w < 2147483648" if "1 \<le> sint w" for w :: u32
    using that sint_u32_pos_iff [of w] sint_u32_pos [of w] by simp
  note n = pos [OF assms(2)] and b = pos [OF assms(4)]
  have rest: "sint (0x7fffffff - w) = 2147483647 - int (unat w)" if "unat w < 2147483648" for w :: u32
  proof -
    have "unat (0x7fffffff - w) = 2147483647 - unat w" using that by (subst unat_diff_u32) simp_all
    then show ?thesis using that sint_u32_pos [of "0x7fffffff - w"] by simp
  qed
  have sum: "sint (n + ?b) < 0"
  proof -
    have "unat (n + ?b) = unat n + unat ?b" using n b by (intro unat_add_u32) simp
    then show ?thesis using assms(5) n b sint_u32 [of "n + ?b"] by (simp del: of_nat_unat)
  qed
  have st: "p_state (ps ! i) = RUNNABLE" "p_state (ps ! j) = RUNNABLE" using only by (auto simp: only_runnable_def)
  have tot: "lottery_total ps 0 = 0x7fffffff"
    using n b rest [of n] rest [of ?b] assms(5) st by (simp add: lottery_two(1) [OF only] e Let_def del: of_nat_unat)
  have "fst (lottery_pick ps seed) = (if krand_next seed mod 0x7fffffff < n then Some i else None)" for seed
  proof -
    let ?r = "krand_next seed mod 0x7fffffff"
    have "unat ?r < 2147483647" by (simp add: unat_mod)
    then have r: "sint ?r = int (unat ?r)" by (intro sint_u32_pos) simp
    moreover have "\<not> sint ?r < sint (n + ?b)" using sum r by linarith
    moreover have "sint ?r < sint n \<longleftrightarrow> ?r < n" using r n by (simp add: word_less_nat_alt del: of_nat_unat)
    ultimately show ?thesis using tot by (simp add: lottery_pick_def lottery_two(2) [OF only] e Let_def)
  qed
  with tot settickets_run [OF assms(1), of n] assms(2) show ?thesis by (intro exI [of _ ?t]) (simp add: ps_def)
qed

definition heavy_ex :: kernel where
  "heavy_ex = (kernel0 (\<lambda>a. 0) [])
     \<lparr>k_sync := sync0\<lparr>cpus := cpu0\<lparr>c_proc := Some 3\<rparr> # replicate 7 cpu0\<rparr>,
      k_ptab := ptab0\<lparr>pt_procs := (replicate NPROC proc0)
        [3 := proc0\<lparr>p_state := RUNNING\<rparr>, 5 := proc0\<lparr>p_state := RUNNABLE, p_tickets := 0x7fffffff\<rparr>]\<rparr>\<rparr>"

theorem lottery_overflow_idle_witness:
  "\<exists>t. settickets 5 heavy_ex = Inr (0, t) \<and> fst (lottery_pick (yield_mark 3 (kprocs t)) 521675907) = None"
proof -
  have "at_rest heavy_ex 3"
    by (simp add: at_rest_def heavy_ex_def quiet_def calm_def lock_free_def sync0_def cpu0_def find_cpu_def readeflags_def cur_def)
  moreover have "only_runnable 3 5 (yield_mark 3 (kprocs heavy_ex))"
    by (auto simp: only_runnable_def heavy_ex_def yield_mark_def NPROC_def entry_simps nth_list_update proc0_def)
  moreover have "p_tickets (kprocs heavy_ex ! 5) = 0x7fffffff" by (simp add: heavy_ex_def NPROC_def)
  ultimately show ?thesis using lottery_overflow_idle [of heavy_ex 3 5 5] by (auto simp: krand_next_def)
qed

end
