(* ===== verification/ProcTime.thy ===== *)
theory ProcTime
  imports ProcMachine
begin

text \<open>
  The times that \<^verbatim>\<open>waitx\<close> reports, against the history of the machine: the counters of a process are compared with
  the number of clock ticks at which some CPU ran it.
\<close>

section \<open>Histories\<close>

text \<open>The states of a run, the latest one first.\<close>

inductive prun :: "pm list \<Rightarrow> bool" where
  begin_run: "ks \<noteq> 0 \<Longrightarrow> prun [pm_start ks]"
| next_step: "prun (s # tr) \<Longrightarrow> pstep s t \<Longrightarrow> prun (t # s # tr)"

inductive_cases prunE: "prun (t # tr)"

text \<open>
  How often the process in entry \<open>k\<close> was met by the accounting of a clock tick since its kernel stack was allocated: while
  a CPU ran it, and while it was started but no CPU ran it.
\<close>

abbreviation on_cpu :: "nat \<Rightarrow> pm \<Rightarrow> bool" where
  "on_cpu k s \<equiv> \<exists>n. pm_cpu s n = Some k"

abbreviation accounts :: "pm \<Rightarrow> pm \<Rightarrow> bool" where
  "accounts s t \<equiv> pm_tick s \<and> \<not> pm_tick t"

fun ran :: "nat \<Rightarrow> pm list \<Rightarrow> nat" where
  "ran k (t # s # tr) =
     (if p_kstack (procs s ! k) = 0 then 0 else ran k (s # tr) + (if accounts s t \<and> on_cpu k s then 1 else 0))"
| "ran k tr = 0"

fun idled :: "nat \<Rightarrow> pm list \<Rightarrow> nat" where
  "idled k (t # s # tr) =
     (if p_kstack (procs s ! k) = 0 then 0
      else idled k (s # tr) + (if accounts s t \<and> live (procs s ! k) \<and> \<not> on_cpu k s then 1 else 0))"
| "idled k tr = 0"

section \<open>The counters of a process\<close>

definition times :: "proc \<Rightarrow> u32 \<times> u32 \<times> u32" where
  "times p = (p_rtime p, p_stime p, p_retime p)"

definition timed :: "pm \<Rightarrow> pm \<Rightarrow> nat \<Rightarrow> bool" where
  "timed s t k \<longleftrightarrow>
     (if p_kstack (procs s ! k) = 0 then p_kstack (procs t ! k) \<noteq> 0 \<longrightarrow> times (procs t ! k) = (0, 0, 0)
      else if accounts s t then procs t ! k = account (procs s ! k)
      else times (procs t ! k) = times (procs s ! k))"

lemma timed_same:
  "times (procs t ! k) = times (procs s ! k) \<Longrightarrow> p_kstack (procs t ! k) = p_kstack (procs s ! k) \<or> p_kstack (procs t ! k) = 0 \<Longrightarrow>
   \<not> accounts s t \<Longrightarrow> timed s t k"
  by (auto simp: timed_def)

lemma timed_upd:
  assumes "length (procs s) = NPROC" "k < NPROC" "procs t = proc_upd i f (procs s)" "pm_tick t = pm_tick s"
    "times (f (procs s ! i)) = times (procs s ! i)"
    "p_kstack (f (procs s ! i)) = p_kstack (procs s ! i) \<or> p_kstack (f (procs s ! i)) = 0"
  shows "timed s t k"
  using assms by (intro timed_same) (auto simp: entry_simps)

lemma exit_other_times: "times (exit_other c t p) = times p"
  by (simp add: times_def exit_other_def reparented_def)

lemma step_timed:
  assumes inv: "pm_inv s" and st: "pstep s t" and k: "k < NPROC"
  shows "timed s t k"
proof -
  have len: "length (procs s) = NPROC" by (rule pm_invD(6) [OF inv])
  note upd = timed_upd [OF len k]
  note marks = sleep_mark_def sleep_tidy_def yield_mark_def start_mark_def reap_def set_tickets_mark_def run_mark_def
    release_slot_def mark_killed_def adopt_def
  show ?thesis
    using st
  proof cases
    case (alloc n c i t')
    then have "procs t = proc_upd i (\<lambda>p. p\<lparr>p_state := EMBRYO, p_pid := pt_nextpid (pm_tab s)\<rparr>) (procs s)" "pm_tick t = pm_tick s"
      by (auto simp: alloc_slot_def split: option.splits)
    then show ?thesis by (rule upd) (simp_all add: times_def)
  next
    case (alloc_fill i ks fr tf)
    then show ?thesis using len k by (auto simp: timed_def entry_simps alloc_init_def times_def)
  next
    case (exit n c)
    then show ?thesis
      using len k exit_other_simps(2) exit_other_times
      by (intro timed_same) (auto simp: exit_table_entry times_def)
  next
    case (kill pid qs)
    then show ?thesis using kill_scan_eq [of pid "procs s"]
      by (auto simp: kill_mark_def times_def intro!: upd)
  next
    case tick_acct
    then show ?thesis using len k by (auto simp: timed_def entry_simps)
  next
    case (wake ch)
    then show ?thesis using len k by (intro timed_same) (simp_all add: entry_simps times_def)
  next
    case tick
    then show ?thesis using len k by (intro timed_same) (simp_all add: entry_simps times_def tick_count_def)
  next
    case (setpolicy w)
    then show ?thesis by (intro timed_same) (simp_all add: setpolicy_def)
  qed (use len k in \<open>auto simp: timed_def marks times_def entry_simps\<close>)
qed

lemma prun_reach: "prun tr \<Longrightarrow> preach (hd tr)"
  by (induction rule: prun.induct) (auto intro: preach.intros)

lemma reach_prun: "preach s \<Longrightarrow> \<exists>tr. prun (s # tr)"
  by (induction rule: preach.induct) (auto intro: prun.intros)

lemma account_counts:
  assumes inv: "pm_inv s" and k: "k < NPROC" "p_kstack (procs s ! k) \<noteq> 0" and tick: "pm_tick s"
  shows "unat (p_rtime (account (procs s ! k))) = unat (p_rtime (procs s ! k)) + (if on_cpu k s then 1 else 0)"
    "unat (p_stime (account (procs s ! k))) + unat (p_retime (account (procs s ! k))) =
       unat (p_stime (procs s ! k)) + unat (p_retime (procs s ! k)) + (if live (procs s ! k) \<and> \<not> on_cpu k s then 1 else 0)"
proof -
  let ?p = "procs s ! k"
  have run: "on_cpu k s \<longleftrightarrow> p_state ?p = RUNNING" using pm_invD(4) [OF inv] k(1) unfolding cpus_ok_def by blast
  have lim: "unat (p_rtime ?p) < 4294967295" "unat (p_stime ?p) < 4294967295" "unat (p_retime ?p) < 4294967295" if "live ?p"
    using pm_invD(9) [OF inv k(1)] pm_invD(5) [OF inv] k(2) tick that
    by (auto simp: acct_ok_def accts_ok_def used_ticks_def live_def)
  have inc: "unat (w + 1 :: u32) = unat w + 1" if "unat w < 4294967295" for w using that by (simp add: unat_add_u32)
  show "unat (p_rtime (account ?p)) = unat (p_rtime ?p) + (if on_cpu k s then 1 else 0)"
    using lim inc unfolding run by (cases "p_state ?p") (simp_all add: account_def live_def)
  show "unat (p_stime (account ?p)) + unat (p_retime (account ?p)) =
       unat (p_stime ?p) + unat (p_retime ?p) + (if live ?p \<and> \<not> on_cpu k s then 1 else 0)"
    using lim inc unfolding run by (cases "p_state ?p") (simp_all add: account_def live_def)
qed

lemma counters:
  assumes "prun tr" and "k < NPROC" and "p_kstack (procs (hd tr) ! k) \<noteq> 0"
  shows "unat (p_rtime (procs (hd tr) ! k)) = ran k tr \<and>
    unat (p_stime (procs (hd tr) ! k)) + unat (p_retime (procs (hd tr) ! k)) = idled k tr"
  using assms
proof (induction rule: prun.induct)
  case (begin_run ks)
  then show ?case by (cases k) (auto simp: pm_start_def init_entry_def alloc_init_def nth_Cons' split: if_splits)
next
  case (next_step s tr t)
  have inv: "pm_inv s" using preach_inv prun_reach [OF next_step.hyps(1)] by simp
  note tm = step_timed [OF inv next_step.hyps(2) next_step.prems(1)]
  show ?case
  proof (cases "p_kstack (procs s ! k) = 0")
    case True
    with tm next_step.prems(2) show ?thesis by (simp add: timed_def times_def)
  next
    case False
    with next_step.IH next_step.prems(1) have ih: "unat (p_rtime (procs s ! k)) = ran k (s # tr)"
      "unat (p_stime (procs s ! k)) + unat (p_retime (procs s ! k)) = idled k (s # tr)" by simp_all
    show ?thesis
    proof (cases "accounts s t")
      case True
      with tm False have "procs t ! k = account (procs s ! k)" by (simp add: timed_def)
      with account_counts [OF inv next_step.prems(1) False] True False ih show ?thesis by simp
    next
      case no: False
      with tm False have "times (procs t ! k) = times (procs s ! k)" unfolding timed_def by (simp only: if_False)
      with no False ih show ?thesis unfolding times_def by (simp only: ran.simps idled.simps list.sel if_False prod.inject) simp
    qed
  qed
qed

section \<open>What waitx reports\<close>

text \<open>
  C12: What \<^verbatim>\<open>waitx\<close> reports. When \<^verbatim>\<open>waitx\<close> collects a child at the end of any run of the machine, while the tick counter fits an
  \<^verbatim>\<open>int\<close>, the reported running time is exactly the number of clock ticks since the creation of the child at whose accounting a CPU
  was running it, and the reported waiting time is the rest of its lifetime, from creation to exit, or 0 when that is
  negative. The ticks at which the child ran and those at which it was started but did not run are together at most its lifetime
  and one more: the tick that can be accounted after the child was created or before it ended, but counted on the other side.
\<close>

theorem waitx_accounts_lifetime:
  assumes "prun (s # tr)" and "k < NPROC" and "p_state (procs s ! k) = ZOMBIE"
    and "unat (pt_ticks (pm_tab s)) < 2147483647" and "waitx_times (procs s ! k) = (wt, rt)"
  shows "let life = unat (p_etime (procs s ! k)) - unat (p_ctime (procs s ! k)) in
    unat rt = ran k (s # tr) \<and> unat wt = life - ran k (s # tr) \<and> ran k (s # tr) + idled k (s # tr) \<le> life + 1"
proof -
  let ?p = "procs s ! k"
  let ?life = "unat (p_etime ?p) - unat (p_ctime ?p)"
  have inv: "pm_inv s" using preach_inv prun_reach [OF assms(1)] by simp
  have "p_kstack ?p \<noteq> 0"
    using family_okD(2,4,5) [OF pm_invD(1) [OF inv]] assms(2,3) by (fastforce simp: live_def)
  with counters [OF assms(1,2)] have cnt: "unat (p_rtime ?p) = ran k (s # tr)" "unat (p_stime ?p) + unat (p_retime ?p) = idled k (s # tr)"
    by simp_all
  from pm_invD(9) [OF inv assms(2)] assms(3)
  have le: "unat (p_ctime ?p) \<le> unat (p_etime ?p)" "unat (p_etime ?p) \<le> unat (pt_ticks (pm_tab s))"
    and used: "used_ticks ?p \<le> ?life + 1"
    by (simp_all add: acct_ok_def)
  have life: "unat (p_etime ?p - p_ctime ?p) = ?life" by (rule unat_diff_u32 [OF le(1)])
  have rt: "rt = p_rtime ?p" and wt: "wt = (if sint (p_etime ?p - p_ctime ?p - p_rtime ?p) < 0 then 0
      else p_etime ?p - p_ctime ?p - p_rtime ?p)"
    using assms(5) by (auto simp: waitx_times_def Let_def)
  have "unat wt = ?life - unat (p_rtime ?p)"
  proof (cases "unat (p_rtime ?p) \<le> ?life")
    case True
    then have d: "unat (p_etime ?p - p_ctime ?p - p_rtime ?p) = ?life - unat (p_rtime ?p)"
      by (simp add: unat_diff_u32 life)
    with le assms(4) have "0 \<le> sint (p_etime ?p - p_ctime ?p - p_rtime ?p)" by (subst sint_u32_pos) simp_all
    with wt d show ?thesis by simp
  next
    case False
    with used have "p_rtime ?p = (p_etime ?p - p_ctime ?p) + 1"
      using le assms(4) by (intro word_unat_eq_iff [THEN iffD2]) (simp add: used_ticks_def unat_add_u32 life)
    with wt False show ?thesis by simp
  qed
  with rt used cnt show ?thesis by (simp add: Let_def used_ticks_def)
qed

theorem waitx_accounts_lifetime_witness:
  "\<exists>tr. prun (ex_exited # tr) \<and> waitx_times (procs ex_exited ! 1) = (0, 1) \<and> ran 1 (ex_exited # tr) = 1"
proof -
  obtain tr where tr: "prun (ex_exited # tr)" using reach_prun [OF ex_reach_exited] by blast
  have "waitx_times (procs ex_exited ! 1) = (0, 1)" by (simp add: ex_exited_def ex_defs proc0_def waitx_times_def)
  moreover have "p_state (procs ex_exited ! 1) = ZOMBIE" "unat (pt_ticks (pm_tab ex_exited)) < 2147483647"
    by (simp_all add: ex_exited_def ex_defs)
  ultimately show ?thesis using waitx_accounts_lifetime [OF tr, of 1 0 1] tr by (auto simp: NPROC_def Let_def)
qed

end
