(* ===== verification/Paging.thy ===== *)
theory Paging
  imports Vm
begin

text \<open>
  Page tables as maps from pages to entries: \<^verbatim>\<open>walkpgdir\<close> adds tables without changing the map, and \<^verbatim>\<open>mappages\<close>
  changes it exactly on the range it is given.
\<close>

section \<open>Indices\<close>

lemma unat_PDX: "unat (PDX va) < 1024" "unat (4 * PDX va) = 4 * unat (PDX va)"
  and unat_PTX: "unat (PTX va) < 1024" "unat (4 * PTX va) = 4 * unat (PTX va)"
proof -
  have lt: "unat (w AND 0x3FF :: u32) < 1024" for w
    unfolding x3FF_mask take_bit_eq_mask [symmetric] by (simp add: take_bit_eq_mod unat_mod)
  then show "unat (PDX va) < 1024" "unat (PTX va) < 1024" by (simp_all add: PDX_def PTX_def)
  then show "unat (4 * PDX va) = 4 * unat (PDX va)" "unat (4 * PTX va) = 4 * unat (PTX va)"
    by (simp_all add: unat_word_ariths)
qed

lemma page_indices: "PDX v = PDX w \<and> PTX v = PTX w \<longleftrightarrow> PGROUNDDOWN v = PGROUNDDOWN w"
proof -
  have d: "bit (PDX v) n = bit v (22 + n)" "bit (PTX v) n = (n < 10 \<and> bit v (12 + n))" for v n
    by (auto simp: PDX_def PTX_def PDXSHIFT_def PTXSHIFT_def x3FF_mask bit_simps dest: bit_imp_le_length)
  have p: "bit (PGROUNDDOWN v) n = (12 \<le> n \<and> bit v n)" for v n by (auto simp: PGROUNDDOWN_eq bit_simps dest: bit_imp_le_length)
  show ?thesis
  proof (intro iffI conjI)
    assume a: "PDX v = PDX w \<and> PTX v = PTX w"
    have "bit v n = bit w n" if "12 \<le> n" for n
    proof (cases "n < 22")
      case True
      with that have "n - 12 < 10" by linarith
      with that d(2) [of v "n - 12"] d(2) [of w "n - 12"] a show ?thesis by simp
    next
      case False
      with d(1) [of v "n - 22"] d(1) [of w "n - 22"] a show ?thesis by simp
    qed
    then show "PGROUNDDOWN v = PGROUNDDOWN w" by (intro bit_word_eqI) (auto simp: p)
  next
    assume "PGROUNDDOWN v = PGROUNDDOWN w"
    then have "bit v n = bit w n" if "12 \<le> n" for n using p that by metis
    then show "PDX v = PDX w" "PTX v = PTX w" by (auto intro!: bit_word_eqI simp: d)
  qed
qed

section \<open>Words of a page\<close>

lemma ld32_st32_slot:
  assumes "unat i < 1024" "unat j < 1024"
  shows "ld32 (st32 (p + 4 * i) w m) (p + 4 * j) = (if i = j then w else ld32 m (p + 4 * j))"
proof (cases "i = j")
  case False
  have u: "unat (4 * x) = 4 * unat x" if "unat x < 1024" for x :: u32 using that by (simp add: unat_word_ariths)
  have "4 \<le> unat (p + 4 * j + k - (p + 4 * i))" if "unat k < 4" for k
  proof -
    have e: "p + 4 * j + k - (p + 4 * i) = 4 * j + k - 4 * i" by simp
    have jk: "unat (4 * j + k) = 4 * unat j + unat k" using u [OF assms(2)] assms(2) that by (subst unat_add_u32) simp_all
    have "unat i \<noteq> unat j" using False by (simp add: word_unat_eq_iff)
    then show ?thesis unfolding e using jk u [OF assms(1)] assms that by (subst unat_sub_if') auto
  qed
  then have "st32 (p + 4 * i) w m (p + 4 * j + k) = m (p + 4 * j + k)" if "unat k < 4" for k using that by (intro st32_other) simp
  from this [of 0] this [of 1] this [of 2] this [of 3] False show ?thesis by (simp add: ld32_def)
qed simp

section \<open>The map of a page directory\<close>

definition pde_of :: "u32 \<Rightarrow> mem \<Rightarrow> u32 \<Rightarrow> u32" where
  "pde_of pgdir m va = ld32 m (pde_ref pgdir va)"

definition has_table :: "u32 \<Rightarrow> mem \<Rightarrow> u32 \<Rightarrow> bool" where
  "has_table pgdir m va \<longleftrightarrow> pde_of pgdir m va AND PTE_P \<noteq> 0"

definition table_of :: "u32 \<Rightarrow> mem \<Rightarrow> u32 \<Rightarrow> u32" where
  "table_of pgdir m va = P2V (PTE_ADDR (pde_of pgdir m va))"

text \<open>The page table entry of the page with address \<open>va\<close>, 0 when there is no table for it.\<close>

definition entry :: "u32 \<Rightarrow> mem \<Rightarrow> u32 \<Rightarrow> u32" where
  "entry pgdir m va = (if has_table pgdir m va then ld32 m (pte_ref (table_of pgdir m va) va) else 0)"

text \<open>The directory and its tables are different pages, none of them free.\<close>

definition tables_ok :: "u32 \<Rightarrow> u32 \<Rightarrow> u32 list \<Rightarrow> mem \<Rightarrow> bool" where
  "tables_ok kend pgdir fs m \<longleftrightarrow> kpage kend pgdir \<and> pgdir \<notin> set fs \<and>
     (\<forall>va. has_table pgdir m va \<longrightarrow> kpage kend (table_of pgdir m va) \<and> table_of pgdir m va \<noteq> pgdir \<and> table_of pgdir m va \<notin> set fs) \<and>
     (\<forall>va wa. has_table pgdir m va \<and> has_table pgdir m wa \<and> table_of pgdir m va = table_of pgdir m wa \<longrightarrow> PDX va = PDX wa)"

lemma tables_okD:
  assumes "tables_ok kend pgdir fs m"
  shows "kpage kend pgdir" "pgdir \<notin> set fs" "has_table pgdir m va \<Longrightarrow> kpage kend (table_of pgdir m va)"
    "has_table pgdir m va \<Longrightarrow> table_of pgdir m va \<noteq> pgdir" "has_table pgdir m va \<Longrightarrow> table_of pgdir m va \<notin> set fs"
    "has_table pgdir m va \<Longrightarrow> has_table pgdir m wa \<Longrightarrow> PDX va \<noteq> PDX wa \<Longrightarrow> table_of pgdir m va \<noteq> table_of pgdir m wa"
  using assms unfolding tables_ok_def by blast+

lemma tables_okI:
  assumes "kpage kend pgdir" "pgdir \<notin> set fs"
    and "\<And>w. has_table pgdir m w \<Longrightarrow> kpage kend (table_of pgdir m w) \<and> table_of pgdir m w \<noteq> pgdir \<and> table_of pgdir m w \<notin> set fs"
    and "\<And>w x. has_table pgdir m w \<Longrightarrow> has_table pgdir m x \<Longrightarrow> PDX w \<noteq> PDX x \<Longrightarrow> table_of pgdir m w \<noteq> table_of pgdir m x"
  shows "tables_ok kend pgdir fs m"
  using assms unfolding tables_ok_def by blast

lemma pde_same:
  assumes "mem_same {pgdir} m n"
  shows "pde_of pgdir n va = pde_of pgdir m va"
  unfolding pde_of_def pde_ref_def using unat_PDX [of va] by (intro ld32_same [OF assms]) simp_all

lemma set_entry:
  fixes e :: u32
  assumes ok: "tables_ok kend pgdir fs m" and tab: "has_table pgdir m va" and al: "\<And>p. p \<in> set fs \<Longrightarrow> page_aligned p"
  defines "m' \<equiv> st32 (pte_ref (table_of pgdir m va) va) e m"
  shows "tables_ok kend pgdir fs m'" and "has_table pgdir m' v = has_table pgdir m v"
    and "entry pgdir m' v = (if PGROUNDDOWN v = PGROUNDDOWN va then e else entry pgdir m v)"
    and "mem_same (set fs) m m'"
proof -
  let ?t = "table_of pgdir m va"
  have t: "kpage kend ?t" "?t \<noteq> pgdir" "?t \<notin> set fs" and pg: "kpage kend pgdir" using tables_okD [OF ok] tab by blast+
  have ch: "changes_in ?t m m'" unfolding m'_def pte_ref_def using unat_PTX [of va] by (intro changes_in_st32) simp
  have "mem_same {pgdir} m m'" using t pg by (intro changes_in_same [OF ch]) (auto intro: kpage_aligned)
  then have p: "pde_of pgdir m' w = pde_of pgdir m w" for w by (rule pde_same)
  then have ht: "has_table pgdir m' w = has_table pgdir m w" "table_of pgdir m' w = table_of pgdir m w" for w
    by (simp_all add: has_table_def table_of_def)
  then show "has_table pgdir m' v = has_table pgdir m v" "tables_ok kend pgdir fs m'" using ok by (simp_all add: tables_ok_def)
  show "entry pgdir m' v = (if PGROUNDDOWN v = PGROUNDDOWN va then e else entry pgdir m v)"
  proof (cases "has_table pgdir m v")
    case True
    show ?thesis
    proof (cases "PDX v = PDX va")
      case same: True
      then have "table_of pgdir m v = ?t" by (simp add: table_of_def pde_of_def pde_ref_def)
      moreover have "PGROUNDDOWN v = PGROUNDDOWN va \<longleftrightarrow> PTX va = PTX v" using same page_indices [of v va] by auto
      moreover note ld32_st32_slot [OF unat_PTX(1) [of va] unat_PTX(1) [of v], of ?t e m]
      ultimately show ?thesis using True unfolding entry_def ht by (simp add: m'_def pte_ref_def)
    next
      case False
      then have "table_of pgdir m v \<noteq> ?t" using tables_okD(6) [OF ok True tab] by simp
      moreover have "kpage kend (table_of pgdir m v)" by (rule tables_okD(3) [OF ok True])
      ultimately have "mem_same {table_of pgdir m v} m m'" using t by (intro changes_in_same [OF ch]) (auto intro: kpage_aligned)
      from ld32_same [OF this, of "table_of pgdir m v" "4 * PTX v"] unat_PTX [of v]
      have "ld32 m' (pte_ref (table_of pgdir m v) v) = ld32 m (pte_ref (table_of pgdir m v) v)" by (simp add: pte_ref_def)
      then show ?thesis using True False page_indices [of v va] by (auto simp: entry_def ht)
    qed
  next
    case False
    then have "PGROUNDDOWN v \<noteq> PGROUNDDOWN va" using tab page_indices [of v va] by (auto simp: has_table_def pde_of_def pde_ref_def)
    then show ?thesis using False by (simp add: entry_def ht)
  qed
  show "mem_same (set fs) m m'"
    using t al by (intro changes_in_same [OF ch]) (auto intro: kpage_aligned)
qed

lemma aligned_V2P:
  assumes "page_aligned p" shows "page_aligned (V2P p)"
proof -
  obtain k where k: "unat p = 4096 * k" using assms by (auto simp: page_aligned_def mod_eq_0_iff_dvd)
  have "unat (V2P p) = (if 2147483648 \<le> unat p then 4096 * (k - 524288) else 4096 * (k + 524288))"
    unfolding V2P_def KERNBASE_def using k by (subst unat_sub_if') (simp add: word_le_nat_alt diff_mult_distrib2)
  then show ?thesis by (simp add: page_aligned_def)
qed

lemma new_table:
  assumes ok: "tables_ok kend pgdir (p # fs) m" and tab: "\<not> has_table pgdir m va" and p: "kpage kend p" "p \<notin> set fs"
    and al: "\<And>q. q \<in> set fs \<Longrightarrow> page_aligned q"
  defines "m' \<equiv> st32 (pde_ref pgdir va) (V2P p OR PTE_P OR PTE_W OR PTE_U) (memset p 0 PGSIZE m)"
  shows "tables_ok kend pgdir fs m'" and "has_table pgdir m' va" and "table_of pgdir m' va = p"
    and "entry pgdir m' v = entry pgdir m v" and "mem_same (set fs) m m'"
proof -
  let ?e = "V2P p OR (PTE_P OR PTE_W OR PTE_U)" and ?n = "memset p 0 PGSIZE m"
  have pg: "kpage kend pgdir" "pgdir \<noteq> p" "pgdir \<notin> set fs" using tables_okD(1,2) [OF ok] by auto
  note aligned = kpage_aligned [OF p(1)] kpage_aligned [OF pg(1)]
  have e: "?e AND PTE_P \<noteq> 0" "P2V (PTE_ADDR ?e) = p"
  proof -
    have "bit (?e AND PTE_P) 0" by (simp add: bit_simps PTE_P_def)
    then show "?e AND PTE_P \<noteq> 0" by auto
    have "page_aligned (V2P p)" by (rule aligned_V2P [OF aligned(1)])
    moreover have "PTE_P OR PTE_W OR PTE_U = mask 3" by (simp add: pte_flag_defs mask_eq_exp_minus_1)
    ultimately show "P2V (PTE_ADDR ?e) = p" by (subst pte_roundtrip) (auto simp: bit_mask_iff)
  qed
  have c1: "changes_in p m ?n" by (rule changes_in_memset) (simp add: PGSIZE_def)
  have c2: "changes_in pgdir ?n m'" unfolding m'_def pde_ref_def using unat_PDX [of va] by (intro changes_in_st32) simp
  have same: "mem_same {q} m m'" if "q \<noteq> p" "q \<noteq> pgdir" "page_aligned q" for q
    using that aligned by (intro mem_same_trans [OF changes_in_same [OF c1] changes_in_same [OF c2]]) auto
  have "mem_same {pgdir} m ?n" using pg aligned by (intro changes_in_same [OF c1]) auto
  then have "pde_of pgdir ?n w = pde_of pgdir m w" for w by (rule pde_same)
  then have pde: "pde_of pgdir m' w = (if PDX w = PDX va then ?e else pde_of pgdir m w)" for w
    using ld32_st32_slot [of "PDX va" "PDX w" pgdir ?e ?n] unat_PDX(1) by (auto simp: m'_def pde_of_def pde_ref_def or.assoc)
  then show tb: "has_table pgdir m' va" "table_of pgdir m' va = p" using e by (simp_all add: has_table_def table_of_def)
  have ht: "has_table pgdir m' w \<longleftrightarrow> PDX w = PDX va \<or> has_table pgdir m w"
    "table_of pgdir m' w = (if PDX w = PDX va then p else table_of pgdir m w)" for w
    using pde e by (auto simp: has_table_def table_of_def)
  have old: "\<not> has_table pgdir m w" if "PDX w = PDX va" for w using that tab by (simp add: has_table_def pde_of_def pde_ref_def)
  show "tables_ok kend pgdir fs m'"
  proof (rule tables_okI)
    fix w x
    assume w: "has_table pgdir m' w"
    have w': "PDX w \<noteq> PDX va \<Longrightarrow> has_table pgdir m w" using w ht(1) by simp
    show "kpage kend (table_of pgdir m' w) \<and> table_of pgdir m' w \<noteq> pgdir \<and> table_of pgdir m' w \<notin> set fs"
      using p pg tables_okD(3-5) [OF ok, of w] w' ht(2) [of w] by (cases "PDX w = PDX va") auto
    assume x: "has_table pgdir m' x" and ne: "PDX w \<noteq> PDX x"
    have x': "PDX x \<noteq> PDX va \<Longrightarrow> has_table pgdir m x" using x ht(1) by simp
    have np: "table_of pgdir m y \<noteq> p" if "has_table pgdir m y" for y using tables_okD(5) [OF ok that] by simp
    show "table_of pgdir m' w \<noteq> table_of pgdir m' x"
      using np [of w] np [of x] w' x' ne tables_okD(6) [OF ok, of w x] ht(2) [of w] ht(2) [of x] by (cases "PDX w = PDX va"; cases "PDX x = PDX va") auto
  qed (use pg in simp_all)
  show "mem_same (set fs) m m'"
    using p(2) pg al aligned by (intro mem_same_trans [OF changes_in_same [OF c1] changes_in_same [OF c2]]) auto
  show "entry pgdir m' v = entry pgdir m v"
  proof (cases "PDX v = PDX va")
    case True
    have "mem_same {p} ?n m'" using pg aligned by (intro changes_in_same [OF c2]) auto
    from ld32_same [OF this, of p "4 * PTX v"] unat_PTX [of v] have "ld32 m' (p + 4 * PTX v) = ld32 ?n (p + 4 * PTX v)" by simp
    also have "\<dots> = 0"
    proof -
      have "?n (p + 4 * PTX v + k) = 0" if "unat k < 4" for k
        using that unat_PTX [of v] by (simp add: memset_filled filled_def add.assoc PGSIZE_def unat_add_u32)
      from this [of 0] this [of 1] this [of 2] this [of 3] show ?thesis by (simp add: ld32_def u32_le_def)
    qed
    finally show ?thesis using True old [of v] by (simp add: entry_def ht pte_ref_def)
  next
    case False
    show ?thesis
    proof (cases "has_table pgdir m v")
      case True
      then have "kpage kend (table_of pgdir m v)" "table_of pgdir m v \<noteq> p" "table_of pgdir m v \<noteq> pgdir" using tables_okD(3-5) [OF ok True] by auto
      then have "mem_same {table_of pgdir m v} m m'" by (intro same) (auto intro: kpage_aligned)
      from ld32_same [OF this, of "table_of pgdir m v" "4 * PTX v"] unat_PTX [of v] True False show ?thesis
        by (simp add: entry_def ht pte_ref_def)
    qed (use False in \<open>simp add: entry_def ht\<close>)
  qed
qed

section \<open>Walking and mapping\<close>

definition vm_ok :: "u32 \<Rightarrow> u32 \<Rightarrow> kernel \<Rightarrow> u32 list \<Rightarrow> bool" where
  "vm_ok kend pgdir s fs \<longleftrightarrow> free_list kend s fs \<and> tables_ok kend pgdir fs (k_mem s) \<and> quiet (k_sync s)"

abbreviation entry_at :: "u32 \<Rightarrow> kernel \<Rightarrow> u32 \<Rightarrow> u32" where
  "entry_at pgdir s \<equiv> entry pgdir (k_mem s)"

lemma table_nonzero: "kpage kend t \<Longrightarrow> pte_ref t va \<noteq> 0"
proof -
  assume k: "kpage kend t"
  have "unat t + unat (4 * PTX va) < 4294967296" using page_aligned_bound [OF kpage_aligned [OF k]] unat_PTX [of va] by simp
  then have "unat (pte_ref t va) = unat t + unat (4 * PTX va)" unfolding pte_ref_def by (rule unat_add_u32)
  moreover have "unat t \<noteq> 0" using kpage_nonzero [OF k] by (simp add: unat_eq_zero)
  ultimately show ?thesis by auto
qed

text \<open>\<^verbatim>\<open>walkpgdir\<close> finds or makes the table of an address; without a free page for it, it returns 0 and changes nothing.\<close>

lemma walkpgdir_run:
  assumes ok: "vm_ok kend pgdir s fs"
  shows "(\<exists>t fs'. walkpgdir pgdir va True s = Inr (pte_ref (table_of pgdir (k_mem t) va) va, t) \<and> pte_ref (table_of pgdir (k_mem t) va) va \<noteq> 0 \<and>
      vm_ok kend pgdir t fs' \<and> has_table pgdir (k_mem t) va \<and> entry_at pgdir t = entry_at pgdir s \<and> length fs \<le> Suc (length fs') \<and> k_cr3 t = k_cr3 s) \<or>
    walkpgdir pgdir va True s = Inr (0, s) \<and> fs = []"
proof -
  have q: "quiet (k_sync s)" and fl: "free_list kend s fs" and tk: "tables_ok kend pgdir fs (k_mem s)" using ok by (simp_all add: vm_ok_def)
  show ?thesis
  proof (cases "has_table pgdir (k_mem s) va")
    case True
    then have "walkpgdir pgdir va True s = Inr (pte_ref (table_of pgdir (k_mem s) va) va, s)"
      by (simp add: walkpgdir_def op_defs has_table_def table_of_def pde_of_def)
    moreover have "pte_ref (table_of pgdir (k_mem s) va) va \<noteq> 0" by (rule table_nonzero [OF tables_okD(3) [OF tk True]])
    ultimately show ?thesis using ok True by (intro disjI1 exI [of _ s] exI [of _ fs]) simp
  next
    case False
    then have np: "ld32 (k_mem s) (pde_ref pgdir va) AND PTE_P = 0" by (simp add: has_table_def pde_of_def)
    show ?thesis
    proof (cases fs)
      case Nil
      then show ?thesis using np q kalloc_list_none [of kend s] fl by (simp add: walkpgdir_def op_defs kalloc_quiet)
    next
      case (Cons p ps)
      let ?m = "st32 (pde_ref pgdir va) (V2P p OR PTE_P OR PTE_W OR PTE_U) (memset p 0 PGSIZE (k_mem s))"
      let ?s1 = "s\<lparr>k_kmem := (k_kmem s)\<lparr>km_freelist := ld32 (k_mem s) p\<rparr>\<rparr>"
      have p: "kpage kend p" "p \<notin> set ps" "\<And>q. q \<in> set ps \<Longrightarrow> page_aligned q" "p \<noteq> 0" "km_freelist (k_kmem s) = p"
        using fl Cons by (auto simp: free_list_def intro: kpage_aligned)
      have al: "kalloc s = Inr (p, ?s1)" using p(4,5) q by (simp add: kalloc_quiet kalloc_list_def)
      note n = new_table [OF tk [unfolded Cons] False p(1-3)]
      let ?t = "?s1\<lparr>k_mem := ?m\<rparr>"
      have "walkpgdir pgdir va True s = Inr (pte_ref p va, ?t)" using np al p(4) by (simp add: walkpgdir_def op_defs)
      moreover have "free_list kend ?s1 ps" using fl Cons by (simp add: free_list_def)
      then have "free_list kend ?t ps" by (rule free_list_same) (use n(5) in simp_all)
      moreover have "pte_ref p va \<noteq> 0" by (rule table_nonzero [OF p(1)])
      ultimately show ?thesis using n q Cons by (intro disjI1 exI [of _ ?t] exI [of _ ps]) (simp add: vm_ok_def fun_eq_iff)
    qed
  qed
qed

text \<open>Setting the entry of an address that has a table.\<close>

lemma store_entry:
  fixes e :: u32
  assumes ok: "vm_ok kend pgdir s fs" and tab: "has_table pgdir (k_mem s) va"
  defines "t \<equiv> mem_upd (st32 (pte_ref (table_of pgdir (k_mem s) va) va) e) s"
  shows "vm_ok kend pgdir t fs"
    and "entry_at pgdir t v = (if PGROUNDDOWN v = PGROUNDDOWN va then e else entry_at pgdir s v)"
proof -
  have fl: "free_list kend s fs" and tk: "tables_ok kend pgdir fs (k_mem s)" and q: "quiet (k_sync s)"
    using ok by (simp_all add: vm_ok_def)
  have al: "page_aligned p" if "p \<in> set fs" for p using fl that by (auto simp: free_list_def intro: kpage_aligned)
  note n = set_entry [OF tk tab al]
  have "free_list kend t fs" using fl by (rule free_list_same) (use n(4) in \<open>simp_all add: t_def\<close>)
  with n(1) q show "vm_ok kend pgdir t fs" by (simp add: vm_ok_def t_def)
  show "entry_at pgdir t v = (if PGROUNDDOWN v = PGROUNDDOWN va then e else entry_at pgdir s v)"
    using n(3) by (simp add: t_def)
qed

lemma page_distance:
  assumes "page_aligned a"
  shows "unat (PGROUNDDOWN v - a) mod 4096 = 0"
proof -
  obtain k j where k: "unat a = 4096 * k" and j: "unat (PGROUNDDOWN v) = 4096 * j"
    using assms page_aligned_PGROUNDDOWN [of v] by (auto simp: page_aligned_def mod_eq_0_iff_dvd elim!: dvdE)
  have "k \<le> 1048576" using k unsigned_less [of a, where ?'a = nat] by simp
  then have "unat (PGROUNDDOWN v - a) = (if k \<le> j then 4096 * (j - k) else 4096 * (j + 1048576 - k))"
    using k j by (simp add: unat_sub_if' diff_mult_distrib2 add_mult_distrib2)
  then show ?thesis by simp
qed

lemma next_page:
  assumes "page_aligned a" "PGROUNDDOWN v \<noteq> a"
  shows "unat (PGROUNDDOWN v - (a + PGSIZE)) + 4096 = unat (PGROUNDDOWN v - a)"
proof -
  have "unat (PGROUNDDOWN v - a) \<noteq> 0" using assms(2) by (simp add: unat_eq_zero)
  with page_distance [OF assms(1), of v] have "4096 \<le> unat (PGROUNDDOWN v - a)" by (cases "unat (PGROUNDDOWN v - a) < 4096") auto
  then have "unat (PGROUNDDOWN v - a - 4096) = unat (PGROUNDDOWN v - a) - 4096" by (subst unat_diff_u32) simp_all
  with \<open>4096 \<le> _\<close> show ?thesis by (simp add: PGSIZE_def diff_diff_add)
qed

lemma last_page: "unat (a - (a + PGSIZE)) = 4294963200"
  by (simp add: PGSIZE_def)

lemma aligned_next:
  assumes "page_aligned a" shows "page_aligned (a + PGSIZE)"
proof -
  have "unat (a + PGSIZE) = (unat a + 4096) mod 4294967296" using unat_word_ariths(1) [of a PGSIZE] by (simp add: PGSIZE_def)
  moreover have "(unat a + 4096) mod 4294967296 mod 4096 = (unat a + 4096) mod 4096" by (rule mod_mod_cancel) simp
  ultimately show ?thesis using assms unfolding page_aligned_def by simp
qed

lemma aligned_down: "page_aligned a \<Longrightarrow> PGROUNDDOWN a = a"
  by (auto simp: word_unat_eq_iff unat_PGROUNDDOWN page_aligned_def mod_eq_0_iff_dvd elim!: dvdE)

text \<open>The entries after the first \<open>m\<close> pages from \<open>a\<close> have been mapped to the frames from \<open>pa\<close>.\<close>

definition mapped :: "u32 \<Rightarrow> nat \<Rightarrow> u32 \<Rightarrow> u32 \<Rightarrow> (u32 \<Rightarrow> u32) \<Rightarrow> u32 \<Rightarrow> u32" where
  "mapped a m pa perm f v =
     (if unat (PGROUNDDOWN v - a) < 4096 * m then (pa + (PGROUNDDOWN v - a)) OR perm OR PTE_P else f v)"

lemma mapped_step:
  assumes "page_aligned a" "4096 * m \<le> 4294963200" "\<And>v. g v = (if PGROUNDDOWN v = a then pa OR perm OR PTE_P else f v)"
  shows "mapped (a + PGSIZE) m (pa + PGSIZE) perm g v = mapped a (Suc m) pa perm f v"
proof (cases "PGROUNDDOWN v = a")
  case True
  then show ?thesis using assms(2,3) last_page [of a] by (simp add: mapped_def)
next
  case False
  then show ?thesis using assms(3) next_page [OF assms(1) False] by (auto simp: mapped_def algebra_simps)
qed

lemma mapped_one:
  assumes "page_aligned a"
  shows "mapped a 1 pa perm f v = (if PGROUNDDOWN v = a then pa OR perm OR PTE_P else f v)"
  using page_distance [OF assms, of v] by (auto simp: mapped_def unat_eq_zero)

lemma mappages_loop_page:
  assumes ok: "vm_ok kend pgdir s fs" and al: "page_aligned a" and free: "entry_at pgdir s a AND PTE_P = 0"
  shows "mappages_loop pgdir a la pa perm s = Inr (- 1, s) \<and> fs = [] \<or>
    (\<exists>t fs'. vm_ok kend pgdir t fs' \<and> length fs \<le> Suc (length fs') \<and>
      (\<forall>v. entry_at pgdir t v = (if PGROUNDDOWN v = a then pa OR perm OR PTE_P else entry_at pgdir s v)) \<and>
      mappages_loop pgdir a la pa perm s =
        (if a = la then Inr (0, t) else if unat (la - a) < 4096 then Inl Loops
         else mappages_loop pgdir (a + PGSIZE) la (pa + PGSIZE) perm t))"
proof -
  consider (out) "walkpgdir pgdir a True s = Inr (0, s)" "fs = []"
    | (in_table) u fs' where "walkpgdir pgdir a True s = Inr (pte_ref (table_of pgdir (k_mem u) a) a, u)"
      "pte_ref (table_of pgdir (k_mem u) a) a \<noteq> 0" "vm_ok kend pgdir u fs'" "has_table pgdir (k_mem u) a"
      "entry_at pgdir u = entry_at pgdir s" "length fs \<le> Suc (length fs')"
    using walkpgdir_run [OF ok, of a] by blast
  then show ?thesis
  proof cases
    case out
    then show ?thesis by (subst mappages_loop.simps) (simp add: op_defs)
  next
    case in_table
    let ?pte = "pte_ref (table_of pgdir (k_mem u) a) a"
    let ?t = "mem_upd (st32 ?pte (pa OR perm OR PTE_P)) u"
    have "ld32 (k_mem u) ?pte AND PTE_P = 0" using free in_table(4,5) by (metis entry_def)
    then have "mappages_loop pgdir a la pa perm s =
        (if a = la then Inr (0, ?t) else if unat (la - a) < 4096 then Inl Loops
         else mappages_loop pgdir (a + PGSIZE) la (pa + PGSIZE) perm ?t)"
      using in_table(1,2) by (subst mappages_loop.simps) (simp add: op_defs)
    moreover note store_entry [OF in_table(3,4), of "pa OR perm OR PTE_P"]
    ultimately show ?thesis using in_table(5,6) aligned_down [OF al] by (intro disjI2 exI [of _ ?t] exI [of _ fs']) simp
  qed
qed

lemma mappages_loop_run:
  assumes "vm_ok kend pgdir s fs" and "page_aligned a" and "unat (la - a) = 4096 * n"
    and "\<And>v. unat (PGROUNDDOWN v - a) \<le> 4096 * n \<Longrightarrow> entry_at pgdir s v AND PTE_P = 0"
  shows "\<exists>r t fs' m. mappages_loop pgdir a la pa perm s = Inr (r, t) \<and> vm_ok kend pgdir t fs' \<and>
    (r = 0 \<and> m = Suc n \<or> r = - 1 \<and> m \<le> n \<and> fs' = [] \<and> length fs \<le> m) \<and>
    (\<forall>v. entry_at pgdir t v = mapped a m pa perm (entry_at pgdir s) v)"
  using assms
proof (induction n arbitrary: s fs a pa)
  case (0 s fs a pa)
  then have la: "a = la" by (simp add: unat_eq_zero)
  have "entry_at pgdir s a AND PTE_P = 0" using 0 by (simp add: aligned_down)
  from mappages_loop_page [OF 0(1,2) this, of la pa perm] show ?case
  proof (elim disjE exE conjE)
    assume "mappages_loop pgdir a la pa perm s = Inr (- 1, s)" "fs = []"
    with 0(1) show ?thesis by (intro exI [of _ "- 1"] exI [of _ s] exI [of _ "[]"] exI [of _ 0]) (simp add: mapped_def)
  next
    fix t fs' assume "vm_ok kend pgdir t fs'"
      "\<forall>v. entry_at pgdir t v = (if PGROUNDDOWN v = a then pa OR perm OR PTE_P else entry_at pgdir s v)"
      "mappages_loop pgdir a la pa perm s = (if a = la then Inr (0, t) else if unat (la - a) < 4096 then Inl Loops
         else mappages_loop pgdir (a + PGSIZE) la (pa + PGSIZE) perm t)"
    with la show ?thesis using mapped_one [OF 0(2)] by (intro exI [of _ 0] exI [of _ t] exI [of _ fs'] exI [of _ 1]) simp
  qed
next
  case (Suc n s fs a pa)
  have big: "4096 * n < 4294963200" using Suc.prems(3) unsigned_less [of "la - a", where ?'a = nat] by simp
  have "entry_at pgdir s a AND PTE_P = 0" using Suc.prems by (simp add: aligned_down)
  from mappages_loop_page [OF Suc.prems(1,2) this, of la pa perm] show ?case
  proof (elim disjE exE conjE)
    assume "mappages_loop pgdir a la pa perm s = Inr (- 1, s)" "fs = []"
    with Suc.prems(1) show ?thesis by (intro exI [of _ "- 1"] exI [of _ s] exI [of _ "[]"] exI [of _ 0]) (simp add: mapped_def)
  next
    fix t fs1 assume t: "vm_ok kend pgdir t fs1" "length fs \<le> Suc (length fs1)"
      "\<forall>v. entry_at pgdir t v = (if PGROUNDDOWN v = a then pa OR perm OR PTE_P else entry_at pgdir s v)"
      "mappages_loop pgdir a la pa perm s = (if a = la then Inr (0, t) else if unat (la - a) < 4096 then Inl Loops
         else mappages_loop pgdir (a + PGSIZE) la (pa + PGSIZE) perm t)"
    have far: "unat (la - (a + PGSIZE)) = 4096 * n"
      using Suc.prems(3) unat_diff_u32 [of 4096 "la - a"] by (simp add: PGSIZE_def diff_diff_add)
    have free: "entry_at pgdir t v AND PTE_P = 0" if "unat (PGROUNDDOWN v - (a + PGSIZE)) \<le> 4096 * n" for v
    proof -
      have ne: "PGROUNDDOWN v \<noteq> a" using that big last_page [of a] by auto
      with next_page [OF Suc.prems(2) ne] that Suc.prems(4) [of v] t(3) show ?thesis by simp
    qed
    obtain r u fs' m where u: "mappages_loop pgdir (a + PGSIZE) la (pa + PGSIZE) perm t = Inr (r, u)" "vm_ok kend pgdir u fs'"
      "r = 0 \<and> m = Suc n \<or> r = - 1 \<and> m \<le> n \<and> fs' = [] \<and> length fs1 \<le> m"
      "\<forall>v. entry_at pgdir u v = mapped (a + PGSIZE) m (pa + PGSIZE) perm (entry_at pgdir t) v"
      using Suc.IH [OF t(1) aligned_next [OF Suc.prems(2)] far free, of "pa + PGSIZE"] by blast
    have "4096 * m \<le> 4294963200" using u(3) big by auto
    with u(4) t(3) have "entry_at pgdir u v = mapped a (Suc m) pa perm (entry_at pgdir s) v" for v
      using mapped_step [OF Suc.prems(2)] by simp
    moreover have "a \<noteq> la" "\<not> unat (la - a) < 4096" using Suc.prems(3) by auto
    ultimately show ?thesis using t(2,4) u(1-3) by (intro exI [of _ r] exI [of _ u] exI [of _ fs'] exI [of _ "Suc m"]) auto
  qed
qed

section \<open>mappages\<close>

text \<open>
  C31: What \<^verbatim>\<open>mappages\<close> does to an address space. Let the directory and its tables be different pages that are not free, let no spinlock be
  held, and let no page from the one of \<open>va\<close> to the one of \<open>va + sz - 1\<close> be mapped. Then \<^verbatim>\<open>mappages\<close> returns, the tables it
  needed are again different pages that are no longer free, and the entries of the address space change exactly on the pages
  that it mapped: their frames follow each other from \<open>pa\<close> on, with the given permissions. It returns 0 when these are all pages of the
  range; it returns -1, with only a first part of the range mapped, only when no page is free any more.
\<close>

theorem mappages_maps:
  assumes "vm_ok kend pgdir s fs"
    and "\<forall>v. unat (PGROUNDDOWN v - PGROUNDDOWN va) \<le> unat (PGROUNDDOWN (va + sz - 1) - PGROUNDDOWN va) \<longrightarrow> entry_at pgdir s v AND PTE_P = 0"
  shows "\<exists>r t fs' m. mappages pgdir va sz pa perm s = Inr (r, t) \<and> vm_ok kend pgdir t fs' \<and>
    (r = 0 \<and> 4096 * m = unat (PGROUNDDOWN (va + sz - 1) - PGROUNDDOWN va) + 4096 \<or>
     r = - 1 \<and> 4096 * m \<le> unat (PGROUNDDOWN (va + sz - 1) - PGROUNDDOWN va) \<and> fs' = [] \<and> length fs \<le> m) \<and>
    (\<forall>v. entry_at pgdir t v = (if unat (PGROUNDDOWN v - PGROUNDDOWN va) < 4096 * m
       then (pa + (PGROUNDDOWN v - PGROUNDDOWN va)) OR perm OR PTE_P else entry_at pgdir s v))"
proof -
  obtain n where n: "unat (PGROUNDDOWN (va + sz - 1) - PGROUNDDOWN va) = 4096 * n"
    using page_distance [of "PGROUNDDOWN va" "va + sz - 1"] by (auto simp: mod_eq_0_iff_dvd elim!: dvdE)
  have "entry_at pgdir s v AND PTE_P = 0" if "unat (PGROUNDDOWN v - PGROUNDDOWN va) \<le> 4096 * n" for v using assms(2) n that by simp
  from mappages_loop_run [OF assms(1) page_aligned_PGROUNDDOWN n this, of pa perm] obtain r t fs' m where
    "mappages pgdir va sz pa perm s = Inr (r, t)" "vm_ok kend pgdir t fs'"
    "r = 0 \<and> m = Suc n \<or> r = - 1 \<and> m \<le> n \<and> fs' = [] \<and> length fs \<le> m"
    "\<forall>v. entry_at pgdir t v = mapped (PGROUNDDOWN va) m pa perm (entry_at pgdir s) v"
    unfolding mappages_def by blast
  then show ?thesis unfolding n mapped_def by (intro exI [of _ r] exI [of _ t] exI [of _ fs'] exI [of _ m]) auto
qed

text \<open>An empty directory, with two free pages.\<close>

lemma ex_pages_empty: "pde_of 0x80402000 (k_mem ex_pages) va = 0"
proof -
  let ?z = "(\<lambda>_. 0) :: mem"
  have "changes_in 0x80401000 ?z (st32 0x80401000 0 ?z)" "changes_in 0x80400000 (st32 0x80401000 0 ?z) (k_mem ex_pages)"
    using changes_in_st32 [of 0 "0x80401000"] changes_in_st32 [of 0 "0x80400000"] by (simp_all add: ex_pages_def kfree_list_def kernel0_def)
  note ch = this
  have al: "page_aligned 0x80400000" "page_aligned 0x80401000" "page_aligned 0x80402000" by (simp_all add: page_aligned_def)
  have "mem_same {0x80402000} ?z (st32 0x80401000 0 ?z)" by (rule changes_in_same [OF ch(1) al(2)]) (use al in auto)
  moreover have "mem_same {0x80402000} (st32 0x80401000 0 ?z) (k_mem ex_pages)" by (rule changes_in_same [OF ch(2) al(1)]) (use al in auto)
  ultimately have "mem_same {0x80402000} ?z (k_mem ex_pages)" by (rule mem_same_trans)
  from pde_same [OF this, of va] show ?thesis by (simp add: pde_of_def ld32_def u32_le_def)
qed

theorem mappages_maps_witness:
  "\<exists>t. mappages 0x80402000 0x1000 0x1800 0x5000 6 ex_pages = Inr (0, t) \<and> entry_at 0x80402000 t 0x2ABC = 0x6007"
proof -
  have nt: "\<not> has_table 0x80402000 (k_mem ex_pages) va" for va by (simp add: has_table_def ex_pages_empty)
  then have "tables_ok 0x80110000 0x80402000 [0x80400000, 0x80401000] (k_mem ex_pages)"
    by (intro tables_okI) (simp_all add: kpage_def PGSIZE_def V2P_def KERNBASE_def PHYSTOP_def)
  moreover have "quiet (k_sync ex_pages)" by (simp add: ex_pages_def kfree_list_def kernel0_def quiet_sync0)
  ultimately have "vm_ok 0x80110000 0x80402000 ex_pages [0x80400000, 0x80401000]" using ex_pages_list by (simp add: vm_ok_def)
  from mappages_maps [OF this, of "0x1000" "0x1800" "0x5000" 6] obtain r t m where
    r: "mappages 0x80402000 0x1000 0x1800 0x5000 6 ex_pages = Inr (r, t)" "r = 0 \<and> m = 2 \<or> r = - 1 \<and> m \<le> 1 \<and> 2 \<le> m"
    and e: "\<forall>v. entry_at 0x80402000 t v = (if unat (PGROUNDDOWN v - 0x1000) < 4096 * m then (0x5000 + (PGROUNDDOWN v - 0x1000)) OR 6 OR PTE_P
      else entry_at 0x80402000 ex_pages v)"
    using nt by (auto simp: entry_def PGROUNDDOWN_def PGSIZE_def)
  have "PGROUNDDOWN 0x2ABC = 0x2000" by (simp add: PGROUNDDOWN_def PGSIZE_def)
  with r e [rule_format, of "0x2ABC"] show ?thesis by (auto simp: PTE_P_def)
qed

end
