(* ===== verification/Clock.thy ===== *)
theory Clock
  imports Devices
begin

text \<open>
  Reading the real-time clock while it runs. What the chip promises is a predicate on the parameter \<open>rtc\<close> of the model;
  the theorem shows that the loop of \<^verbatim>\<open>cmostime\<close> never returns a torn date.
\<close>

section \<open>What the clock chip promises\<close>

text \<open>
  The chip is described by the moments at which it is \<open>updating\<close> its registers and by the calendar \<open>cal u r\<close>, the number that
  belongs into register \<open>r\<close> at the \<open>u\<close>-th access. While it is updating, the update bit of status register A is set, and the
  date registers can hold anything. Otherwise they hold the calendar, in binary or in binary-coded decimal with 24 hours; the
  calendar changes only in an update; and updates are rare: two accesses to a chip that is updating, fewer than 13 accesses apart,
  belong to the same update.
\<close>

definition encode :: "bool \<Rightarrow> nat \<Rightarrow> u8" where
  "encode binary n = (if binary then of_nat n else bcd n)"

definition rtc_ok :: "clock \<Rightarrow> bool \<Rightarrow> (nat \<Rightarrow> bool) \<Rightarrow> (nat \<Rightarrow> u8 \<Rightarrow> nat) \<Rightarrow> bool" where
  "rtc_ok rtc binary updating cal \<longleftrightarrow>
     (\<forall>u. updating u \<longrightarrow> rtc u 0xA AND 0x80 \<noteq> 0) \<and>
     (\<forall>u r. \<not> updating u \<and> r \<in> {0, 2, 4, 7, 8, 9} \<longrightarrow> rtc u r = encode binary (cal u r) \<and> cal u r < 100) \<and>
     (\<forall>u. \<not> updating u \<and> \<not> updating (u + 1) \<longrightarrow> cal (u + 1) = cal u) \<and>
     (\<forall>u v w. updating u \<and> updating w \<and> u < v \<and> v < w \<and> w < u + 13 \<longrightarrow> updating v) \<and>
     (\<forall>u. rtc u 0xB AND 4 \<noteq> 0 \<longleftrightarrow> binary)"

definition cal_date :: "(u8 \<Rightarrow> nat) \<Rightarrow> rtcdate" where
  "cal_date c = \<lparr>rt_second = of_nat (c 0), rt_minute = of_nat (c 2), rt_hour = of_nat (c 4), rt_day = of_nat (c 7),
     rt_month = of_nat (c 8), rt_year = of_nat (c 9) + 2000\<rparr>"

definition raw_date :: "bool \<Rightarrow> (u8 \<Rightarrow> nat) \<Rightarrow> rtcdate" where
  "raw_date b c = \<lparr>rt_second = ucast (encode b (c 0)), rt_minute = ucast (encode b (c 2)), rt_hour = ucast (encode b (c 4)),
     rt_day = ucast (encode b (c 7)), rt_month = ucast (encode b (c 8)), rt_year = ucast (encode b (c 9))\<rparr>"

lemma rtc_okD:
  assumes "rtc_ok rtc b upd cal"
  shows "upd u \<Longrightarrow> rtc u 0xA AND 0x80 \<noteq> 0"
    and "\<not> upd u \<Longrightarrow> r \<in> {0, 2, 4, 7, 8, 9} \<Longrightarrow> rtc u r = encode b (cal u r) \<and> cal u r < 100"
    and "\<not> upd u \<Longrightarrow> \<not> upd (Suc u) \<Longrightarrow> cal (Suc u) = cal u"
    and "upd u \<Longrightarrow> upd w \<Longrightarrow> u < v \<Longrightarrow> v < w \<Longrightarrow> w < u + 13 \<Longrightarrow> upd v"
    and "rtc u 0xB AND 4 \<noteq> 0 \<longleftrightarrow> b"
proof -
  from assms have "\<forall>u. upd u \<longrightarrow> rtc u 0xA AND 0x80 \<noteq> 0"
    and "\<forall>u r. \<not> upd u \<and> r \<in> {0, 2, 4, 7, 8, 9} \<longrightarrow> rtc u r = encode b (cal u r) \<and> cal u r < 100"
    and "\<forall>u. \<not> upd u \<and> \<not> upd (u + 1) \<longrightarrow> cal (u + 1) = cal u"
    and "\<forall>u v w. upd u \<and> upd w \<and> u < v \<and> v < w \<and> w < u + 13 \<longrightarrow> upd v"
    and "\<forall>u. rtc u 0xB AND 4 \<noteq> 0 \<longleftrightarrow> b"
    unfolding rtc_ok_def by blast+
  note all = this
  show "upd u \<Longrightarrow> rtc u 0xA AND 0x80 \<noteq> 0" using all(1) by blast
  show "\<not> upd u \<Longrightarrow> r \<in> {0, 2, 4, 7, 8, 9} \<Longrightarrow> rtc u r = encode b (cal u r) \<and> cal u r < 100" using all(2) by blast
  show "\<not> upd u \<Longrightarrow> \<not> upd (Suc u) \<Longrightarrow> cal (Suc u) = cal u" using all(3) by simp
  show "upd u \<Longrightarrow> upd w \<Longrightarrow> u < v \<Longrightarrow> v < w \<Longrightarrow> w < u + 13 \<Longrightarrow> upd v" using all(4) by blast
  show "rtc u 0xB AND 4 \<noteq> 0 \<longleftrightarrow> b" using all(5) by blast
qed

lemma ucast_zero: "(ucast (w :: u8) :: u32) = 0 \<longleftrightarrow> w = 0"
proof -
  have "unat w < 2 ^ 8" using unsigned_less [of w] by simp
  then have "unat (ucast w :: u32) = unat w" by (simp add: unsigned_ucast_eq take_bit_nat_eq_self)
  then show ?thesis by (metis unat_eq_zero)
qed

lemma uip_bit: "ucast (w :: u8) AND (0x80 :: u32) = 0 \<longleftrightarrow> w AND 0x80 = 0"
  using ucast_zero [of "w AND 0x80"] by (simp add: unsigned_and_eq)

lemma mode_bit: "ucast (w :: u8) AND (4 :: u32) = 0 \<longleftrightarrow> w AND 4 = 0"
  using ucast_zero [of "w AND 4"] by (simp add: unsigned_and_eq)

section \<open>Readings in a quiet period\<close>

lemma cal_steady:
  assumes "rtc_ok rtc b upd cal" and "\<And>u. t \<le> u \<Longrightarrow> u \<le> t + n \<Longrightarrow> \<not> upd u" and "k \<le> n"
  shows "cal (t + k) = cal t"
  using assms(3)
proof (induction k)
  case (Suc k)
  then have "cal (Suc (t + k)) = cal (t + k)" using assms(2) by (intro rtc_okD(3) [OF assms(1)]) simp_all
  with Suc show ?case by simp
qed simp

lemma fill_steady:
  assumes "rtc_ok rtc b upd cal" and "\<And>u. t \<le> u \<Longrightarrow> u \<le> t + 5 \<Longrightarrow> \<not> upd u"
  shows "fill_rtcdate rtc t = raw_date b (cal t)"
proof -
  have "rtc (t + k) r = encode b (cal t r)" if "k \<le> 5" "r \<in> {0, 2, 4, 7, 8, 9}" for k r
    using rtc_okD(2) [OF assms(1) assms(2) that(2), of "t + k"] cal_steady [OF assms that(1)] that(1) by simp
  from this [of 0 0] this [of 1 2] this [of 2 4] this [of 3 7] this [of 4 8] this [of 5 9] show ?thesis
    by (simp add: fill_rtcdate_def raw_date_def cmos_read_def)
qed

text \<open>A round that passes both tests returns the date of a moment at which the chip was not updating.\<close>

lemma round_date:
  assumes ok: "rtc_ok rtc b upd cal" and uip: "rtc (t + 6) 0xA AND 0x80 = 0"
    and eq: "fill_rtcdate rtc t = fill_rtcdate rtc (t + 7)"
  shows "\<exists>u. t \<le> u \<and> u \<le> t + 7 \<and> \<not> upd u \<and> fill_rtcdate rtc t = raw_date b (cal u)"
proof -
  have no: "\<not> upd (t + 6)" using rtc_okD(1) [OF ok] uip by blast
  show ?thesis
  proof (cases "\<exists>u. t \<le> u \<and> u \<le> t + 5 \<and> upd u")
    case True
    then obtain u where u: "t \<le> u" "u \<le> t + 5" "upd u" by blast
    have "\<not> upd w" if "t + 7 \<le> w" "w \<le> t + 7 + 5" for w
      using rtc_okD(4) [OF ok u(3), of w "t + 6"] no u that by auto
    with fill_steady [OF ok, of "t + 7"] eq show ?thesis by (intro exI [of _ "t + 7"]) simp
  next
    case False
    then show ?thesis using fill_steady [OF ok, of t] by (intro exI [of _ t]) auto
  qed
qed

lemma cmos_loop_date:
  assumes ok: "rtc_ok rtc b upd cal" and quiet: "\<And>u. N \<le> u \<Longrightarrow> u < N + 26 \<Longrightarrow> rtc u 0xA AND 0x80 = 0" and "t < N + 13"
  shows "\<exists>u. t \<le> u \<and> u < N + 26 \<and> \<not> upd u \<and> cmos_loop rtc t = Some (raw_date b (cal u))"
  using assms(3)
proof (induction "N + 13 - t" arbitrary: t rule: less_induct)
  case less
  let ?pass = "rtc (t + 6) 0xA AND 0x80 = 0 \<and> fill_rtcdate rtc t = fill_rtcdate rtc (t + 7)"
  have stop: "cmos_loop rtc t = Some (fill_rtcdate rtc t)" if ?pass
    using that by (subst cmos_loop.simps) (simp add: cmos_read_def uip_bit)
  have go: "\<exists>n \<in> {7, 13}. cmos_loop rtc t = cmos_loop rtc (t + n)" if "\<not> ?pass"
    using that by (subst cmos_loop.simps) (auto simp: cmos_read_def uip_bit Let_def)
  show ?case
  proof (cases ?pass)
    case True
    with round_date [OF ok] stop less.prems show ?thesis by fastforce
  next
    case False
    then obtain n where n: "n \<in> {7, 13}" "cmos_loop rtc t = cmos_loop rtc (t + n)" using go by blast
    have "t < N"
    proof (rule ccontr)
      assume late: "\<not> t < N"
      then have no: "\<not> upd u" if "t \<le> u" "u \<le> t + 12" for u
        using rtc_okD(1) [OF ok, of u] quiet [of u] that less.prems by fastforce
      then have "cal (t + 7) = cal t" using cal_steady [OF ok, of t 12 7] by simp
      with fill_steady [OF ok, of t] fill_steady [OF ok, of "t + 7"] no have "fill_rtcdate rtc t = fill_rtcdate rtc (t + 7)"
        by simp
      with False quiet [of "t + 6"] late less.prems show False by simp
    qed
    with n(1) have "N + 13 - (t + n) < N + 13 - t" "t + n < N + 13" by auto
    from less.hyps [OF this] obtain u where "t + n \<le> u" "u < N + 26" "\<not> upd u" "cmos_loop rtc (t + n) = Some (raw_date b (cal u))"
      by blast
    with n(2) show ?thesis by (intro exI [of _ u]) simp
  qed
qed

section \<open>cmostime\<close>

text \<open>
  C30: Reading the running clock. Let the clock chip behave as documented, and let its update bit stay clear during some 26 consecutive
  accesses that come after the call. Then \<^verbatim>\<open>cmostime\<close> returns, at the latest with these accesses, and the date that it returns is
  never torn: it is the date that the calendar showed at one moment \<open>u\<close> of the call at which the chip was not updating,
  converted from binary-coded decimal when the chip is in that mode, in the years from 2000. What the registers hold during an update
  does not matter: an update before the test of the update bit is caught by the second reading, one after it by the first.
\<close>

theorem cmostime_returns:
  assumes "rtc_ok rtc binary updating cal"
    and "t < N" and "\<And>u. N \<le> u \<Longrightarrow> u < N + 26 \<Longrightarrow> rtc u 0xA AND 0x80 = 0"
  shows "\<exists>u. t < u \<and> u < N + 26 \<and> \<not> updating u \<and> cmostime rtc t = Some (cal_date (cal u))"
proof -
  have "\<exists>u\<ge>t + 1. u < N + 26 \<and> \<not> updating u \<and> cmos_loop rtc (t + 1) = Some (raw_date binary (cal u))"
    by (rule cmos_loop_date [OF assms(1)]) (use assms(2,3) in simp_all)
  then obtain u where u: "t + 1 \<le> u" "u < N + 26" "\<not> updating u" "cmos_loop rtc (t + 1) = Some (raw_date binary (cal u))"
    by blast
  have lt: "cal u r < 100" if "r \<in> {0, 2, 4, 7, 8, 9}" for r using rtc_okD(2) [OF assms(1) u(3) that] by blast
  have bin: "ucast (of_nat n :: u8) = (of_nat n :: u32)" if "n < 100" for n
    using that by (intro word_unat_eq_iff [THEN iffD2]) (simp add: unat_of_nat unsigned_ucast_eq take_bit_nat_eq_self)
  have "cmostime rtc t = Some (cal_date (cal u))"
    using u(4) rtc_okD(5) [OF assms(1), of t] lt
    by (cases binary) (simp_all add: cmostime_def cmos_read_def mode_bit raw_date_def cal_date_def encode_def conv_bcd bin)
  with u show ?thesis by (intro exI [of _ u]) simp
qed

text \<open>A clock that goes from 12:30:59 to 12:31:00 during the first reading and shows nonsense while it does.\<close>

definition ex_cal :: "nat \<Rightarrow> u8 \<Rightarrow> nat" where
  "ex_cal u r = (if r = 0 then (if u < 5 then 59 else 0) else if r = 2 then (if u < 5 then 30 else 31) else if r = 4 then 12
     else if r = 7 then 15 else if r = 8 then 11 else 26)"

definition ex_rtc :: clock where
  "ex_rtc u r = (if 3 \<le> u \<and> u \<le> 5 \<and> r \<noteq> 0xB then 0xFF else if r = 0xA \<or> r = 0xB then 0 else bcd (ex_cal u r))"

theorem cmostime_returns_witness:
  "\<exists>u. 0 < u \<and> u < 32 \<and> \<not> (3 \<le> u \<and> u \<le> 5) \<and> cmostime ex_rtc 0 = Some (cal_date (ex_cal u))"
proof -
  have "rtc_ok ex_rtc False (\<lambda>u. 3 \<le> u \<and> u \<le> 5) ex_cal"
    unfolding rtc_ok_def by (auto simp: ex_rtc_def ex_cal_def encode_def fun_eq_iff)
  moreover have "ex_rtc u 0xA AND 0x80 = 0" if "6 \<le> u" for u using that by (simp add: ex_rtc_def)
  ultimately show ?thesis using cmostime_returns [of ex_rtc False "\<lambda>u. 3 \<le> u \<and> u \<le> 5" ex_cal 0 6] by simp
qed

end
