(* ===== verification/Spec2Isabelle.thy ===== *)
theory Spec2Isabelle
  imports Trap Recovery Filters Umalloc ShellPrint Ide LineInput Starvation ProcTime Paging Clock
begin

text \<open>
  \<^bold>\<open>A verification of xv6 with FCFS and lottery scheduling\<close>

  The program is the i386 teaching kernel xv6, with three scheduling policies (round robin, first come first served, lottery), tickets, and
  accounting of process times, together with its user library, shell and tools. The sources are in \<^verbatim>\<open>src/xv6-public_final\<close>; file names
  below are relative to it.

  \<^bold>\<open>How code is modelled.\<close> A kernel function is an operation on the record \<open>kernel\<close> (theory \<open>Xv6_Types\<close>), which has a field for each
  group of global variables of the sources: CPUs and spin locks, the process table, byte-addressed memory, the free page list, buffers, log, inodes,
  files, pipes, console and the registers of the devices. An operation returns a result and the new state, or says why it does
  not return: it panics, spins on a lock, goes to sleep, uses a wild pointer, or loops. C integers are 32-bit words; pointers into tables
  are indices; structures on kernel pages are addressed as in the code (free list, page tables) or named by the page (pipes). A function
  that gives up the CPU is cut there, and its second part is a definition of its own.

  \<^bold>\<open>Base.\<close>
  \<^item> \<open>Xv6_Prelude\<close>: types, constants of \<^verbatim>\<open>param.h\<close>, the sequencing of operations, and shared lemmas on words and lists.
  \<^item> \<open>Xv6_Types\<close>: the structures of \<^verbatim>\<open>proc.h\<close>, \<^verbatim>\<open>buf.h\<close>, \<^verbatim>\<open>file.h\<close>, \<^verbatim>\<open>fs.h\<close>, \<^verbatim>\<open>spinlock.h\<close>, \<^verbatim>\<open>pstat.h\<close> and the
    state of the kernel.
  \<^item> \<open>Memory\<close>, \<open>Mmu\<close>: memory with \<^verbatim>\<open>string.c\<close>; \<^verbatim>\<open>memlayout.h\<close> and \<^verbatim>\<open>mmu.h\<close>. Shown: \<^verbatim>\<open>memmove\<close> copies correctly
    for every overlap.

  \<^bold>\<open>Locks, processes and scheduling.\<close>
  \<^item> \<open>Spinlock\<close>: \<^verbatim>\<open>spinlock.c\<close>. Shown: mutual exclusion, and that no check fires, for any number of CPUs whose atomic memory accesses interleave.
  \<^item> \<open>Sched_Policy\<close>: the choices of \<^verbatim>\<open>scheduler\<close> in \<^verbatim>\<open>proc.c\<close>. A locale states what a choice promises, and is interpreted for
    each policy. Shown: the lottery is fair, and a draw finds a process when there is one, as long as the ticket sum fits an \<^verbatim>\<open>int\<close>; FCFS takes the
    oldest process; round robin starves nobody; two processes with one ticket each strictly alternate, because of the generator.
  \<^item> \<open>Starvation\<close>: counts that \<^verbatim>\<open>settickets\<close> accepts make the lottery starve a process.
  \<^item> \<open>ProcTable\<close>, \<open>ProcMachine\<close>: the critical sections of \<^verbatim>\<open>proc.c\<close> and of the clock interrupt in \<^verbatim>\<open>trap.c\<close> as functions on the
    table, and the step relation of all their interleavings. Shown for every reachable state: no wakeup of \<^verbatim>\<open>wait\<close> is lost, every
    process has a live parent, pids are unique, and a running process is run by one CPU.
  \<^item> \<open>ProcTime\<close>: runs as lists of states. Shown: the times of \<^verbatim>\<open>waitx\<close> are the ticks at which the process ran and the rest of its life.
  \<^item> \<open>Scheduler\<close>, \<open>Sleeplock\<close>, \<open>Process\<close>: \<^verbatim>\<open>scheduler\<close>, \<^verbatim>\<open>sched\<close>, \<^verbatim>\<open>sleep\<close>, \<^verbatim>\<open>wakeup\<close>; \<^verbatim>\<open>sleeplock.c\<close>;
    \<^verbatim>\<open>fork\<close>, \<^verbatim>\<open>exit\<close>, \<^verbatim>\<open>wait\<close>, \<^verbatim>\<open>waitx\<close>, \<^verbatim>\<open>kill\<close>, \<^verbatim>\<open>growproc\<close> and the scheduling calls on the whole state.

  \<^bold>\<open>Memory management.\<close>
  \<^item> \<open>Kalloc\<close>: \<^verbatim>\<open>kalloc.c\<close>. Shown: the list threaded through the free pages refines a list of distinct pages (locale \<open>page_allocator\<close>).
  \<^item> \<open>Vm\<close>, \<open>Paging\<close>: \<^verbatim>\<open>vm.c\<close>. Shown: \<^verbatim>\<open>mappages\<close> changes an address space exactly on the pages it maps.
  \<^item> \<open>Exec\<close>: \<^verbatim>\<open>exec.c\<close>.

  \<^bold>\<open>Files.\<close>
  \<^item> \<open>Bio\<close>, \<open>Cache\<close>: \<^verbatim>\<open>bio.c\<close> on the memory disk of \<^verbatim>\<open>memide.c\<close>; the linked buffers are a list in order of use.
  \<^item> \<open>Log\<close>, \<open>Recovery\<close>: \<^verbatim>\<open>log.c\<close>. Shown: a commit that a crash stops anywhere is recovered to all or nothing, if the cache
    does not recycle dirty buffers; and that \<^verbatim>\<open>bget\<close> does recycle them.
  \<^item> \<open>Fs\<close>, \<open>File\<close>: \<^verbatim>\<open>fs.c\<close>, \<^verbatim>\<open>file.c\<close>.
  \<^item> \<open>Ring\<close>, \<open>Pipe\<close>, \<open>PipeQueue\<close>: \<^verbatim>\<open>pipe.c\<close>. Shown: a pipe is a bounded queue (locale \<open>bounded_queue\<close>), also when its counters wrap.

  \<^bold>\<open>System calls, traps and devices.\<close>
  \<^item> \<open>Syscall\<close>, \<open>Sysfile\<close>, \<open>Trap\<close>: \<^verbatim>\<open>syscall.c\<close>, \<^verbatim>\<open>sysproc.c\<close>, \<^verbatim>\<open>sysfile.c\<close>, \<^verbatim>\<open>trap.c\<close>.
  \<^item> \<open>Devices\<close>, \<open>Clock\<close>: the ports of \<^verbatim>\<open>x86.h\<close>, \<^verbatim>\<open>lapic.c\<close>, \<^verbatim>\<open>ioapic.c\<close>, \<^verbatim>\<open>picirq.c\<close>. Shown: the date that
    \<^verbatim>\<open>cmostime\<close> returns is never torn.
  \<^item> \<open>Ide\<close>: \<^verbatim>\<open>ide.c\<close>. Shown: requests are served in order, like those of the memory disk; and a failed read leaves a buffer marked valid.
  \<^item> \<open>Console\<close>, \<open>Screen\<close>, \<open>LineInput\<close>: \<^verbatim>\<open>console.c\<close>, \<^verbatim>\<open>kbd.c\<close>, \<^verbatim>\<open>uart.c\<close>. Shown: the display is a terminal of 24 lines,
    the interrupt handlers edit lines (locale \<open>char_source\<close>, interpreted for keyboard and serial port), and readers get the ready lines.

  \<^bold>\<open>User programs.\<close>
  \<^item> \<open>Ulib\<close>, \<open>Umalloc\<close>: \<^verbatim>\<open>ulib.c\<close>, \<^verbatim>\<open>printf.c\<close>, \<^verbatim>\<open>umalloc.c\<close>. Shown: printed numbers read back; allocated blocks are disjoint and the
    searches end; a request near \<open>2\<^sup>32\<close> bytes gets a block without room.
  \<^item> \<open>Shell\<close>, \<open>ShellPrint\<close>: the parser of \<^verbatim>\<open>sh.c\<close>. Shown: it ends, its commands are well formed, and it reads printed commands back.
  \<^item> \<open>Filters\<close>: \<^verbatim>\<open>grep.c\<close>, \<^verbatim>\<open>wc.c\<close>. Shown: the matcher decides its language, \<^verbatim>\<open>grep\<close> prints the matching lines, \<^verbatim>\<open>wc\<close> counts; and
    \<^verbatim>\<open>grep\<close> loses a line that arrives in two reads.

  \<^bold>\<open>Bounds.\<close> Loops whose end is not evident are total functions with a termination proof, or partial functions whose result \<open>None\<close> means
  that they do not end; the theorems about them state that they return. The parser takes a bound on the depth of its calls, and
  \<open>parsecmd_terminates\<close> shows that the bound that \<^verbatim>\<open>parsecmd\<close> uses is enough for every line. Loops over tables use the sizes of the tables.

  \<^bold>\<open>Parameters.\<close> The end of the kernel image (set by the linker), the contents of the disk, what device registers hold, whether the kernel grants memory
  to \<^verbatim>\<open>sbrk\<close>, and the results of reads in user programs. What a theorem assumes of them is in its statement.

  \<^bold>\<open>Not modelled.\<close> The boot loader and processor discovery (\<^verbatim>\<open>bootmain.c\<close>, \<^verbatim>\<open>main.c\<close>, \<^verbatim>\<open>mp.c\<close> and the assembly files), which run
  before the state of the model exists; the register save area of \<^verbatim>\<open>swtch.S\<close> and the trap entry code; caches and reordering of memory accesses;
  \<^verbatim>\<open>mkfs.c\<close>, which runs on the host; \<^verbatim>\<open>runcmd\<close> of the shell and the small user programs, which only make system calls; the tests. Some
  messages to the console are left out, as the theories say. Several results are about calls that need not sleep, or about one CPU that
  holds no lock; their texts say so.
\<close>

end
